(* ===== verification/Prelude.thy ===== *)
theory Prelude
  imports Main "HOL-Library.Word" "HOL-Library.State_Monad" "HOL-Library.Multiset"
begin

text \<open>
  The base of the development: machine types, the way a driver talks to code that is
  not part of the repository (the Linux kernel, DPDK), and the resource ledger.

  \<^item> Everything outside the repository is a parameter. A value of \<open>'c kernel\<close> answers
    every external call; the answer may depend on the whole history of earlier calls, so a
    theorem about an arbitrary \<open>K\<close> covers every allocator, bus and device behaviour.
  \<^item> A driver function is a program of the state monad over a record that extends
    \<open>kstate\<close>; \<open>klog\<close> is the history of external calls with their answers.
  \<^item> The ledger reads a history as acquisitions and releases of resources. It is
    \<open>None\<close> as soon as something is released that is not held (a double free, a free
    of the wrong object), otherwise the multiset of what is held.
  \<^item> The stack ledger is the stricter reading where a release must undo the newest
    acquisition, the order in which kernel unwinding code is written.
\<close>

section \<open>Machine types\<close>

type_synonym u8 = "8 word"
type_synonym u16 = "16 word"
type_synonym u32 = "32 word"
type_synonym u64 = "64 word"
type_synonym ptr = "64 word"

abbreviation (input) NULL :: ptr where
  "NULL \<equiv> 0"

text \<open>The error numbers of \<open>errno.h\<close> that the drivers return (negated).\<close>

abbreviation (input) ENOMEM :: int where "ENOMEM \<equiv> 12"
abbreviation (input) EIO :: int where "EIO \<equiv> 5"
abbreviation (input) EFAULT :: int where "EFAULT \<equiv> 14"
abbreviation (input) ENODEV :: int where "ENODEV \<equiv> 19"
abbreviation (input) EINVAL :: int where "EINVAL \<equiv> 22"
abbreviation (input) ENOTTY :: int where "ENOTTY \<equiv> 25"

section \<open>External calls\<close>

datatype kres =
    RVoid
  | RInt int
  | RU64 u64
  | RIntOut int u64
  | RU64Out u64 u64

type_synonym 'c klog = "('c \<times> kres) list"

text \<open>
  The answers: \<open>k_int\<close> for functions that return \<open>int\<close>, \<open>k_u64\<close> for functions
  that return a pointer or an unsigned value, \<open>k_out\<close> for the value a function stores
  through an out parameter.
\<close>

record 'c kernel =
  k_int :: "'c klog \<Rightarrow> 'c \<Rightarrow> int"
  k_u64 :: "'c klog \<Rightarrow> 'c \<Rightarrow> u64"
  k_out :: "'c klog \<Rightarrow> 'c \<Rightarrow> u64"

record 'c kstate =
  klog :: "'c klog"

definition klogged :: "'c \<times> kres \<Rightarrow> ('c, 'm) kstate_scheme \<Rightarrow> ('c, 'm) kstate_scheme" where
  "klogged e s = s\<lparr>klog := klog s @ [e]\<rparr>"

definition call_int :: "('c, 'x) kernel_scheme \<Rightarrow> 'c \<Rightarrow> (('c, 'm) kstate_scheme, int) state" where
  "call_int K c = State (\<lambda>s. let r = k_int K (klog s) c in (r, klogged (c, RInt r) s))"

definition call_u64 :: "('c, 'x) kernel_scheme \<Rightarrow> 'c \<Rightarrow> (('c, 'm) kstate_scheme, u64) state" where
  "call_u64 K c = State (\<lambda>s. let r = k_u64 K (klog s) c in (r, klogged (c, RU64 r) s))"

definition call_int_out ::
    "('c, 'x) kernel_scheme \<Rightarrow> 'c \<Rightarrow> (('c, 'm) kstate_scheme, int \<times> u64) state" where
  "call_int_out K c = State (\<lambda>s. let r = k_int K (klog s) c; v = k_out K (klog s) c
     in ((r, v), klogged (c, RIntOut r v) s))"

definition call_u64_out ::
    "('c, 'x) kernel_scheme \<Rightarrow> 'c \<Rightarrow> (('c, 'm) kstate_scheme, u64 \<times> u64) state" where
  "call_u64_out K c = State (\<lambda>s. let r = k_u64 K (klog s) c; v = k_out K (klog s) c
     in ((r, v), klogged (c, RU64Out r v) s))"

definition call_void :: "'c \<Rightarrow> (('c, 'm) kstate_scheme, unit) state" where
  "call_void c = State (\<lambda>s. ((), klogged (c, RVoid) s))"

definition gets :: "('s \<Rightarrow> 'a) \<Rightarrow> ('s, 'a) state" where
  "gets f = State (\<lambda>s. (f s, s))"

definition modify :: "('s \<Rightarrow> 's) \<Rightarrow> ('s, unit) state" where
  "modify f = State (\<lambda>s. ((), f s))"

abbreviation ret :: "'a \<Rightarrow> ('s, 'a) state" where
  "ret \<equiv> State_Monad.return"

abbreviation exec :: "('s, 'a) state \<Rightarrow> 's \<Rightarrow> 's" where
  "exec m s \<equiv> snd (run_state m s)"

abbreviation result :: "('s, 'a) state \<Rightarrow> 's \<Rightarrow> 'a" where
  "result m s \<equiv> fst (run_state m s)"

declare klogged_def [simp]

lemma run_call_int [simp]:
  "run_state (call_int K c) s =
     (k_int K (klog s) c, klogged (c, RInt (k_int K (klog s) c)) s)"
  by (simp add: call_int_def Let_def)

lemma run_call_u64 [simp]:
  "run_state (call_u64 K c) s =
     (k_u64 K (klog s) c, klogged (c, RU64 (k_u64 K (klog s) c)) s)"
  by (simp add: call_u64_def Let_def)

lemma run_call_int_out [simp]:
  "run_state (call_int_out K c) s =
     ((k_int K (klog s) c, k_out K (klog s) c),
      klogged (c, RIntOut (k_int K (klog s) c) (k_out K (klog s) c)) s)"
  by (simp add: call_int_out_def Let_def)

lemma run_call_u64_out [simp]:
  "run_state (call_u64_out K c) s =
     ((k_u64 K (klog s) c, k_out K (klog s) c),
      klogged (c, RU64Out (k_u64 K (klog s) c) (k_out K (klog s) c)) s)"
  by (simp add: call_u64_out_def Let_def)

lemma run_call_void [simp]: "run_state (call_void c) s = ((), klogged (c, RVoid) s)"
  by (simp add: call_void_def)

lemma run_gets [simp]: "run_state (gets f) s = (f s, s)"
  by (simp add: gets_def)

lemma run_modify [simp]: "run_state (modify f) s = ((), f s)"
  by (simp add: modify_def)

section \<open>The resource ledger\<close>

datatype 'r effect = Acquire 'r | Release 'r | Neutral

fun ledger_step :: "'r effect \<Rightarrow> 'r multiset option \<Rightarrow> 'r multiset option" where
  "ledger_step e None = None"
| "ledger_step (Acquire r) (Some M) = Some (add_mset r M)"
| "ledger_step (Release r) (Some M) = (if r \<in># M then Some (M - {#r#}) else None)"
| "ledger_step Neutral (Some M) = Some M"

primrec ledger_from :: "('e \<Rightarrow> 'r effect) \<Rightarrow> 'r multiset option \<Rightarrow> 'e list \<Rightarrow> 'r multiset option"
where
  "ledger_from eff m [] = m"
| "ledger_from eff m (e # es) = ledger_from eff (ledger_step (eff e) m) es"

definition ledger :: "('e \<Rightarrow> 'r effect) \<Rightarrow> 'e list \<Rightarrow> 'r multiset option" where
  "ledger eff es = ledger_from eff (Some {#}) es"

fun lifo_step :: "'r effect \<Rightarrow> 'r list option \<Rightarrow> 'r list option" where
  "lifo_step e None = None"
| "lifo_step (Acquire r) (Some st) = Some (r # st)"
| "lifo_step (Release r) (Some []) = None"
| "lifo_step (Release r) (Some (x # st)) = (if x = r then Some st else None)"
| "lifo_step Neutral (Some st) = Some st"

primrec lifo_from :: "('e \<Rightarrow> 'r effect) \<Rightarrow> 'r list option \<Rightarrow> 'e list \<Rightarrow> 'r list option" where
  "lifo_from eff m [] = m"
| "lifo_from eff m (e # es) = lifo_from eff (lifo_step (eff e) m) es"

definition lifo :: "('e \<Rightarrow> 'r effect) \<Rightarrow> 'e list \<Rightarrow> 'r list option" where
  "lifo eff es = lifo_from eff (Some []) es"

lemma ledger_from_append:
  "ledger_from eff m (es @ fs) = ledger_from eff (ledger_from eff m es) fs"
  by (induction es arbitrary: m) simp_all

lemma ledger_append [simp]: "ledger eff (es @ fs) = ledger_from eff (ledger eff es) fs"
  by (simp add: ledger_def ledger_from_append)

lemma ledger_Nil [simp]: "ledger eff [] = Some {#}"
  by (simp add: ledger_def)

lemma ledger_from_None [simp]: "ledger_from eff None es = None"
  by (induction es) simp_all

lemma lifo_from_append:
  "lifo_from eff m (es @ fs) = lifo_from eff (lifo_from eff m es) fs"
  by (induction es arbitrary: m) simp_all

lemma lifo_append [simp]: "lifo eff (es @ fs) = lifo_from eff (lifo eff es) fs"
  by (simp add: lifo_def lifo_from_append)

lemma lifo_from_None [simp]: "lifo_from eff None es = None"
  by (induction es) simp_all

lemma ledger_Neutral [simp]: "ledger_step Neutral m = m"
  by (cases m) simp_all

lemma lifo_Neutral [simp]: "lifo_step Neutral m = m"
  by (cases m) simp_all

text \<open>
  Unwinding in stack order is in particular balanced: where the stack ledger accepts a
  history, the ledger accepts it too and holds the same resources.
\<close>

lemma lifo_step_ledger_step:
  "lifo_step e (Some st) = Some st' \<Longrightarrow> ledger_step e (Some (M + mset st)) = Some (M + mset st')"
  by (cases e; cases st) (auto split: if_splits)

lemma lifo_from_ledger_from:
  "lifo_from eff (Some st) es = Some st' \<Longrightarrow>
   ledger_from eff (Some (M + mset st)) es = Some (M + mset st')"
proof (induction es arbitrary: st)
  case Nil
  then show ?case by simp
next
  case (Cons e es)
  then obtain st1 where "lifo_step (eff e) (Some st) = Some st1"
    by (cases "lifo_step (eff e) (Some st)") auto
  with Cons show ?case by (simp add: lifo_step_ledger_step)
qed

lemma lifo_step_frame:
  "lifo_step e (Some st) = Some st' \<Longrightarrow> lifo_step e (Some (st @ st0)) = Some (st' @ st0)"
  by (cases e; cases st) (auto split: if_splits)

lemma lifo_from_frame:
  "lifo_from eff (Some st) es = Some st' \<Longrightarrow> lifo_from eff (Some (st @ st0)) es = Some (st' @ st0)"
proof (induction es arbitrary: st)
  case Nil
  then show ?case by simp
next
  case (Cons e es)
  then obtain st1 where "lifo_step (eff e) (Some st) = Some st1"
    by (cases "lifo_step (eff e) (Some st)") auto
  with Cons show ?case by (simp add: lifo_step_frame)
qed

text \<open>The ledger of some of the resources only.\<close>

definition restrict_eff :: "('r \<Rightarrow> bool) \<Rightarrow> ('e \<Rightarrow> 'r effect) \<Rightarrow> 'e \<Rightarrow> 'r effect" where
  "restrict_eff P eff e = (case eff e of
     Acquire r \<Rightarrow> if P r then Acquire r else Neutral
   | Release r \<Rightarrow> if P r then Release r else Neutral
   | Neutral \<Rightarrow> Neutral)"

lemma ledger_step_restrict:
  "ledger_step (eff e) (Some M) = Some N \<Longrightarrow>
   ledger_step (restrict_eff P eff e) (Some (filter_mset P M)) = Some (filter_mset P N)"
  by (cases "eff e") (auto simp: restrict_eff_def split: if_splits)

lemma ledger_from_restrict:
  "ledger_from eff (Some M) es = Some N \<Longrightarrow>
   ledger_from (restrict_eff P eff) (Some (filter_mset P M)) es = Some (filter_mset P N)"
proof (induction es arbitrary: M)
  case Nil
  then show ?case by simp
next
  case (Cons e es)
  then obtain M' where "ledger_step (eff e) (Some M) = Some M'" by (cases "ledger_step (eff e) (Some M)") auto
  with Cons ledger_step_restrict [of eff e M M' P] show ?case by simp
qed

lemma ledger_restrict:
  "ledger eff es = Some M \<Longrightarrow> ledger (restrict_eff P eff) es = Some (filter_mset P M)"
  using ledger_from_restrict [of eff "{#}" es M P] by (simp add: ledger_def)

lemma restrict_restrict: "(\<And>r. P r \<Longrightarrow> Q r) \<Longrightarrow> restrict_eff P (restrict_eff Q eff) = restrict_eff P eff"
  by (rule ext) (auto simp: restrict_eff_def split: effect.splits)

lemma restrict_Acquire: "restrict_eff P eff e = Acquire r \<Longrightarrow> eff e = Acquire r"
  by (auto simp: restrict_eff_def split: effect.splits if_splits)

text \<open>What is held was acquired by some event of the history.\<close>

lemma ledger_step_mono:
  "ledger_step e m = Some M \<Longrightarrow> r \<in># M \<Longrightarrow> e = Acquire r \<or> (\<exists>N. m = Some N \<and> r \<in># N)"
  by (cases m; cases e) (auto split: if_splits dest: in_diffD)

lemma held_was_acquired:
  "ledger eff es = Some M \<Longrightarrow> r \<in># M \<Longrightarrow> \<exists>e\<in>set es. eff e = Acquire r"
proof (induction es arbitrary: M rule: rev_induct)
  case Nil
  then show ?case by simp
next
  case (snoc e es)
  from snoc.prems have "ledger_step (eff e) (ledger eff es) = Some M" by simp
  with snoc.prems(2) snoc.IH show ?case by (auto dest: ledger_step_mono)
qed

end
