(* ===== verification/Kernel_API.thy ===== *)
theory Kernel_API
  imports Prelude
begin

text \<open>
  The functions of the Linux kernel that the drivers call, one constructor each, named
  after the function, with the arguments the drivers pass, grouped by subsystem. None of
  them is defined here: their answers come from the parameter \<open>K :: linux\<close>.

  \<open>keff\<close> states the documented pairing of these functions: which successful call
  hands out a resource and which call gives it back. It is the specification the
  drivers' clean-up code is measured against. \<open>printk\<close>, \<open>pr_info\<close>, \<open>dev_info\<close>, memory
  barriers and delays have no effect on the state and are left out.
\<close>

section \<open>Calls\<close>

datatype pci_call =
    Pci_enable_device ptr
  | Pci_disable_device ptr
  | Pci_request_region ptr nat string
  | Pci_release_region ptr nat
  | Pci_request_regions ptr string
  | Pci_release_regions ptr
  | Pci_resource_start ptr nat
  | Pci_resource_len ptr nat
  | Pci_enable_msix_exact ptr
  | Pci_disable_msix ptr
  | Pci_msix_vec_count ptr
  | Pci_irq_vector ptr nat
  | Pci_register_driver string
  | Pci_unregister_driver string

datatype io_call =
    Ioremap u64 u64
  | Pci_ioremap_bar ptr nat
  | Pci_iomap ptr nat
  | Iounmap ptr
  | Pci_iounmap ptr ptr
  | Ioread32 ptr
  | Ioread64 ptr
  | Iowrite32 u32 ptr
  | Iowrite64 u64 ptr
  | Readl ptr
  | Writel u32 ptr

datatype irq_call =
    Request_irq int string bool string ptr
  | Free_irq int ptr
  | Enable_irq int
  | Disable_irq int
  | Tasklet_init ptr string ptr
  | Tasklet_schedule ptr
  | Tasklet_kill ptr

datatype mem_call =
    Kmalloc string
  | Kfree ptr
  | Devm_kzalloc ptr
  | Dma_alloc_coherent ptr u64
  | Dma_free_coherent ptr u64 ptr u64
  | Dma_mmap_coherent ptr ptr u64 u64
  | Dma_map_single ptr ptr u32
  | Dma_unmap_single ptr u64 u32
  | Copy_to_user ptr string

datatype chr_call =
    Alloc_chrdev_region nat nat string
  | Unregister_chrdev_region u64 nat
  | Cdev_init ptr string
  | Cdev_add ptr u64 nat
  | Cdev_del ptr
  | Class_create string
  | Class_destroy ptr
  | Class_find_device ptr
  | Device_create ptr u64 string
  | Device_destroy ptr u64
  | Uio_register_device ptr int
  | Uio_unregister_device ptr

datatype net_call =
    Alloc_etherdev string
  | Alloc_netdev string
  | Ether_setup ptr
  | Free_netdev ptr
  | Register_netdev ptr
  | Unregister_netdev ptr
  | Netif_start_queue ptr
  | Netif_stop_queue ptr
  | Netif_wake_queue ptr
  | Netif_napi_add ptr string nat
  | Netif_napi_del ptr
  | Napi_enable ptr
  | Napi_disable ptr
  | Napi_schedule ptr
  | Napi_complete_done ptr int

datatype skb_call =
    Spin_lock_init ptr
  | Spin_lock ptr
  | Spin_unlock ptr
  | Netdev_alloc_skb_ip_align ptr u32
  | Skb_orphan ptr
  | Eth_type_trans ptr ptr
  | Netif_rx ptr
  | Netif_receive_skb ptr
  | Dev_kfree_skb ptr
  | Dev_kfree_skb_irq ptr

datatype kcall =
    Pci pci_call
  | Io io_call
  | Irqc irq_call
  | Memc mem_call
  | Chr chr_call
  | Net net_call
  | Skb skb_call

type_synonym kevent = "kcall \<times> kres"

text \<open>
  What else the drivers take from kernel headers: the device number macros, the error
  pointers, the page size, the ioctl number macro \<open>_IO\<close>, the fields of \<open>struct pci_dev\<close> they read, and the offset the
  compiler gives to the \<open>cdev\<close> inside a \<open>scull_dev\<close>. A handler or callback argument is
  recorded by the name of the C function; the \<open>bool\<close> of \<open>Request_irq\<close> is \<open>IRQF_SHARED\<close>.
\<close>

record linux = "kcall kernel" +
  MKDEV :: "u64 \<Rightarrow> nat \<Rightarrow> u64"
  MAJOR :: "u64 \<Rightarrow> u64"
  IS_ERR :: "ptr \<Rightarrow> bool"
  PTR_ERR :: "ptr \<Rightarrow> int"
  PAGE_SIZE :: nat
  pdev_irq :: "ptr \<Rightarrow> int"
  msix_vector :: "ptr \<Rightarrow> int"
  offsetof_cdev :: u64
  IO_CMD :: "u32 \<Rightarrow> u32 \<Rightarrow> u32"

datatype irqreturn_t = IRQ_NONE | IRQ_HANDLED

datatype netdev_tx_t = NETDEV_TX_OK

section \<open>Resources\<close>

datatype res =
    PciDev ptr
  | Region ptr nat
  | AllRegions ptr
  | PciDriver string
  | Mapping ptr
  | Irq int ptr
  | Mem ptr
  | DmaBuf ptr u64 ptr u64
  | DmaMap ptr u64 u32
  | ChrRegion u64 nat
  | Cdev ptr
  | DevClass ptr
  | DevNode ptr u64
  | Uio ptr
  | Netdev ptr
  | NetdevReg ptr
  | Napi ptr

text \<open>
  An \<open>int\<close> function reports success by 0, a pointer function by a non-null pointer.
\<close>

primrec succeeded :: "kres \<Rightarrow> bool" where
  "succeeded RVoid = True"
| "succeeded (RInt r) = (r = 0)"
| "succeeded (RU64 a) = (a \<noteq> NULL)"
| "succeeded (RIntOut r v) = (r = 0)"
| "succeeded (RU64Out a v) = (a \<noteq> NULL)"

primrec value_of :: "kres \<Rightarrow> u64" where
  "value_of RVoid = 0"
| "value_of (RInt r) = 0"
| "value_of (RU64 a) = a"
| "value_of (RIntOut r v) = v"
| "value_of (RU64Out a v) = a"

primrec out_of :: "kres \<Rightarrow> u64" where
  "out_of RVoid = 0"
| "out_of (RInt r) = 0"
| "out_of (RU64 a) = 0"
| "out_of (RIntOut r v) = v"
| "out_of (RU64Out a v) = v"

abbreviation acquire_if :: "bool \<Rightarrow> res \<Rightarrow> res effect" where
  "acquire_if b r \<equiv> (if b then Acquire r else Neutral)"

text \<open>
  \<open>pci_disable_msix\<close> does nothing where MSI-X is not enabled, so MSI-X is a mode of the device
  (\<open>msix_enabled\<close> below) and not a resource of the ledger.
\<close>

primrec pci_eff :: "kres \<Rightarrow> pci_call \<Rightarrow> res effect" where
  "pci_eff v (Pci_enable_device p) = acquire_if (succeeded v) (PciDev p)"
| "pci_eff v (Pci_disable_device p) = Release (PciDev p)"
| "pci_eff v (Pci_request_region p b n) = acquire_if (succeeded v) (Region p b)"
| "pci_eff v (Pci_release_region p b) = Release (Region p b)"
| "pci_eff v (Pci_request_regions p n) = acquire_if (succeeded v) (AllRegions p)"
| "pci_eff v (Pci_release_regions p) = Release (AllRegions p)"
| "pci_eff v (Pci_resource_start p b) = Neutral"
| "pci_eff v (Pci_resource_len p b) = Neutral"
| "pci_eff v (Pci_enable_msix_exact p) = Neutral"
| "pci_eff v (Pci_disable_msix p) = Neutral"
| "pci_eff v (Pci_msix_vec_count p) = Neutral"
| "pci_eff v (Pci_irq_vector p i) = Neutral"
| "pci_eff v (Pci_register_driver n) = acquire_if (succeeded v) (PciDriver n)"
| "pci_eff v (Pci_unregister_driver n) = Release (PciDriver n)"

primrec io_eff :: "kres \<Rightarrow> io_call \<Rightarrow> res effect" where
  "io_eff v (Ioremap a n) = acquire_if (succeeded v) (Mapping (value_of v))"
| "io_eff v (Pci_ioremap_bar p b) = acquire_if (succeeded v) (Mapping (value_of v))"
| "io_eff v (Pci_iomap p b) = acquire_if (succeeded v) (Mapping (value_of v))"
| "io_eff v (Iounmap a) = Release (Mapping a)"
| "io_eff v (Pci_iounmap p a) = Release (Mapping a)"
| "io_eff v (Ioread32 a) = Neutral"
| "io_eff v (Ioread64 a) = Neutral"
| "io_eff v (Iowrite32 x a) = Neutral"
| "io_eff v (Iowrite64 x a) = Neutral"
| "io_eff v (Readl a) = Neutral"
| "io_eff v (Writel x a) = Neutral"

primrec irq_eff :: "kres \<Rightarrow> irq_call \<Rightarrow> res effect" where
  "irq_eff v (Request_irq i h sh n d) = acquire_if (succeeded v) (Irq i d)"
| "irq_eff v (Free_irq i d) = Release (Irq i d)"
| "irq_eff v (Enable_irq i) = Neutral"
| "irq_eff v (Disable_irq i) = Neutral"
| "irq_eff v (Tasklet_init t f d) = Neutral"
| "irq_eff v (Tasklet_schedule t) = Neutral"
| "irq_eff v (Tasklet_kill t) = Neutral"

text \<open>\<open>kfree(NULL)\<close> is allowed; memory from \<open>devm_kzalloc\<close> is freed by the device core.\<close>

primrec mem_eff :: "kres \<Rightarrow> mem_call \<Rightarrow> res effect" where
  "mem_eff v (Kmalloc n) = acquire_if (succeeded v) (Mem (value_of v))"
| "mem_eff v (Kfree a) = (if a = NULL then Neutral else Release (Mem a))"
| "mem_eff v (Devm_kzalloc p) = Neutral"
| "mem_eff v (Dma_alloc_coherent d n) =
     acquire_if (succeeded v) (DmaBuf d n (value_of v) (out_of v))"
| "mem_eff v (Dma_free_coherent d n a h) = Release (DmaBuf d n a h)"
| "mem_eff v (Dma_mmap_coherent d a h n) = Neutral"
| "mem_eff v (Dma_map_single d a n) = Acquire (DmaMap d (value_of v) n)"
| "mem_eff v (Dma_unmap_single d a n) = Release (DmaMap d a n)"
| "mem_eff v (Copy_to_user a n) = Neutral"

primrec chr_eff :: "(ptr \<Rightarrow> bool) \<Rightarrow> kres \<Rightarrow> chr_call \<Rightarrow> res effect" where
  "chr_eff is_err v (Alloc_chrdev_region b n s) = acquire_if (succeeded v) (ChrRegion (out_of v) n)"
| "chr_eff is_err v (Unregister_chrdev_region d n) = Release (ChrRegion d n)"
| "chr_eff is_err v (Cdev_init c f) = Neutral"
| "chr_eff is_err v (Cdev_add c d n) = acquire_if (succeeded v) (Cdev c)"
| "chr_eff is_err v (Cdev_del c) = Release (Cdev c)"
| "chr_eff is_err v (Class_create n) = acquire_if (\<not> is_err (value_of v)) (DevClass (value_of v))"
| "chr_eff is_err v (Class_destroy c) = Release (DevClass c)"
| "chr_eff is_err v (Class_find_device c) = Neutral"
| "chr_eff is_err v (Device_create c d n) = acquire_if (\<not> is_err (value_of v)) (DevNode c d)"
| "chr_eff is_err v (Device_destroy c d) = Release (DevNode c d)"
| "chr_eff is_err v (Uio_register_device i irq) = acquire_if (succeeded v) (Uio i)"
| "chr_eff is_err v (Uio_unregister_device i) = Release (Uio i)"

primrec net_eff :: "kres \<Rightarrow> net_call \<Rightarrow> res effect" where
  "net_eff v (Alloc_etherdev n) = acquire_if (succeeded v) (Netdev (value_of v))"
| "net_eff v (Alloc_netdev n) = acquire_if (succeeded v) (Netdev (value_of v))"
| "net_eff v (Ether_setup d) = Neutral"
| "net_eff v (Free_netdev d) = Release (Netdev d)"
| "net_eff v (Register_netdev d) = acquire_if (succeeded v) (NetdevReg d)"
| "net_eff v (Unregister_netdev d) = Release (NetdevReg d)"
| "net_eff v (Netif_start_queue d) = Neutral"
| "net_eff v (Netif_stop_queue d) = Neutral"
| "net_eff v (Netif_wake_queue d) = Neutral"
| "net_eff v (Netif_napi_add d f n) = Acquire (Napi d)"
| "net_eff v (Netif_napi_del d) = Release (Napi d)"
| "net_eff v (Napi_enable d) = Neutral"
| "net_eff v (Napi_disable d) = Neutral"
| "net_eff v (Napi_schedule d) = Neutral"
| "net_eff v (Napi_complete_done d n) = Neutral"

primrec kcall_eff :: "linux \<Rightarrow> kres \<Rightarrow> kcall \<Rightarrow> res effect" where
  "kcall_eff K v (Pci c) = pci_eff v c"
| "kcall_eff K v (Io c) = io_eff v c"
| "kcall_eff K v (Irqc c) = irq_eff v c"
| "kcall_eff K v (Memc c) = mem_eff v c"
| "kcall_eff K v (Chr c) = chr_eff (IS_ERR K) v c"
| "kcall_eff K v (Net c) = net_eff v c"
| "kcall_eff K v (Skb c) = Neutral"

definition keff :: "linux \<Rightarrow> kevent \<Rightarrow> res effect" where
  "keff K e = kcall_eff K (snd e) (fst e)"

lemma keff_simp [simp]: "keff K (c, v) = kcall_eff K v c"
  by (simp add: keff_def)

abbreviation held :: "linux \<Rightarrow> (kcall, 'm) kstate_scheme \<Rightarrow> res multiset option" where
  "held K s \<equiv> ledger (keff K) (klog s)"

abbreviation held_stack :: "linux \<Rightarrow> (kcall, 'm) kstate_scheme \<Rightarrow> res list option" where
  "held_stack K s \<equiv> lifo (keff K) (klog s)"

text \<open>
  \<open>moves K st s st' s'\<close>: the calls between \<open>s\<close> and \<open>s'\<close>, read on their own, take the stack of
  resources \<open>st\<close> to \<open>st'\<close>. What lies below, and what else the kernel holds, is untouched.
\<close>

definition moves ::
    "linux \<Rightarrow> res list \<Rightarrow> (kcall, 'm) kstate_scheme \<Rightarrow> res list \<Rightarrow> (kcall, 'm) kstate_scheme \<Rightarrow> bool" where
  "moves K st s st' s' \<longleftrightarrow>
     (\<exists>es. klog s' = klog s @ es \<and> lifo_from (keff K) (Some st) es = Some st')"

lemma moves_trans: "moves K st s st1 s1 \<Longrightarrow> moves K st1 s1 st2 s2 \<Longrightarrow> moves K st s st2 s2"
  by (auto simp: moves_def lifo_from_append)

lemma moves_frame: "moves K st s st' s' \<Longrightarrow> moves K (st @ st0) s (st' @ st0) s'"
  by (auto simp: moves_def lifo_from_frame)

lemma moves_stack: "moves K [] s st' s' \<Longrightarrow> held_stack K s = Some st \<Longrightarrow> held_stack K s' = Some (st' @ st)"
  using moves_frame [of K "[]" s st' s' st] by (auto simp: moves_def)

lemma moves_held:
  "moves K st s st' s' \<Longrightarrow> held K s = Some (M + mset st) \<Longrightarrow> held K s' = Some (M + mset st')"
  by (auto simp: moves_def lifo_from_ledger_from)

text \<open>Whether MSI-X is enabled on a device after a history of calls.\<close>

definition msix_event :: "ptr \<Rightarrow> kevent \<Rightarrow> bool \<Rightarrow> bool" where
  "msix_event p e on = (case fst e of
     Pci (Pci_enable_msix_exact q) \<Rightarrow> on \<or> q = p \<and> succeeded (snd e)
   | Pci (Pci_disable_msix q) \<Rightarrow> on \<and> q \<noteq> p
   | _ \<Rightarrow> on)"

definition msix_enabled :: "kevent list \<Rightarrow> ptr \<Rightarrow> bool" where
  "msix_enabled l p = fold (msix_event p) l False"

lemma msix_enabled_append: "msix_enabled (l @ es) p = fold (msix_event p) es (msix_enabled l p)"
  by (simp add: msix_enabled_def)

section \<open>What the drivers rely on\<close>

text \<open>
  \<open>kmalloc\<close> never hands out a block that is allocated: one that is held in the ledger of the memory
  blocks, whatever happens to other resources.
\<close>

definition is_mem :: "res \<Rightarrow> bool" where
  "is_mem r \<longleftrightarrow> (case r of Mem a \<Rightarrow> True | _ \<Rightarrow> False)"

lemma is_mem_Mem [simp]: "is_mem (Mem a)"
  by (simp add: is_mem_def)

definition kmalloc_fresh :: "linux \<Rightarrow> bool" where
  "kmalloc_fresh K \<longleftrightarrow> (\<forall>l n M. ledger (restrict_eff is_mem (keff K)) l = Some M \<longrightarrow>
     k_u64 K l (Memc (Kmalloc n)) \<noteq> NULL \<longrightarrow> Mem (k_u64 K l (Memc (Kmalloc n))) \<notin># M)"

text \<open>\<open>alloc_etherdev\<close> and \<open>alloc_netdev\<close> never hand out a device that has not been freed yet.\<close>

definition netdev_fresh :: "linux \<Rightarrow> bool" where
  "netdev_fresh K \<longleftrightarrow> (\<forall>l n c M. ledger (keff K) l = Some M \<longrightarrow>
     c = Alloc_etherdev n \<or> c = Alloc_netdev n \<longrightarrow> k_u64 K l (Net c) \<noteq> NULL \<longrightarrow> Netdev (k_u64 K l (Net c)) \<notin># M)"

lemma acquire_address:
  assumes "keff K e = Acquire r" and "r = Mem a \<or> r = Netdev a"
  shows "a = value_of (snd e)"
proof -
  obtain c v where e: "e = (c, v)" by (cases e)
  show ?thesis
  proof (cases c)
    case (Pci x)
    with assms e show ?thesis by (cases x) (auto split: if_splits)
  next
    case (Io x)
    with assms e show ?thesis by (cases x) (auto split: if_splits)
  next
    case (Irqc x)
    with assms e show ?thesis by (cases x) (auto split: if_splits)
  next
    case (Memc x)
    with assms e show ?thesis by (cases x) (auto split: if_splits)
  next
    case (Chr x)
    with assms e show ?thesis by (cases x) (auto split: if_splits)
  next
    case (Net x)
    with assms e show ?thesis by (cases x) (auto split: if_splits)
  next
    case (Skb x)
    with assms e show ?thesis by simp
  qed
qed

section \<open>A kernel for concrete runs\<close>

text \<open>
  One instance of the parameter, used where a theorem is applied to a concrete run:
  \<open>ints\<close> gives the answers of the \<open>int\<close> functions, and the pointers handed out are
  page addresses that no earlier call has returned (\<open>NULL\<close> when none is found).
\<close>

primrec first_free :: "'e list \<Rightarrow> u64 \<Rightarrow> u64 list \<Rightarrow> u64" where
  "first_free [] a used = (if a \<in> set used then NULL else a)"
| "first_free (e # l) a used = (if a \<in> set used then first_free l (a + 4096) used else a)"

lemma first_free_unused: "first_free l a used \<noteq> NULL \<Longrightarrow> first_free l a used \<notin> set used"
  by (induction l arbitrary: a) (auto split: if_splits)

definition sample_kernel :: "(kcall \<Rightarrow> int) \<Rightarrow> linux" where
  "sample_kernel ints = \<lparr>
     k_int = (\<lambda>l c. ints c),
     k_u64 = (\<lambda>l c. first_free l 4096 (map (\<lambda>e. value_of (snd e)) l)),
     k_out = (\<lambda>l c. 0x40000000),
     MKDEV = (\<lambda>ma mi. push_bit 20 ma + of_nat mi),
     MAJOR = drop_bit 20,
     IS_ERR = (\<lambda>p. - 4095 \<le> p),
     PTR_ERR = sint,
     PAGE_SIZE = 4096,
     pdev_irq = (\<lambda>p. 17),
     msix_vector = (\<lambda>p. 42),
     offsetof_cdev = 64,
     IO_CMD = (\<lambda>ty nr. push_bit 8 ty + nr)\<rparr>"

lemma sample_kernel_simps [simp]:
  "k_int (sample_kernel ints) l c = ints c"
  "k_u64 (sample_kernel ints) l c = first_free l 4096 (map (\<lambda>e. value_of (snd e)) l)"
  "k_out (sample_kernel ints) l c = 0x40000000"
  "MKDEV (sample_kernel ints) ma mi = push_bit 20 ma + of_nat mi"
  "MAJOR (sample_kernel ints) d = drop_bit 20 d"
  "IS_ERR (sample_kernel ints) p = (- 4095 \<le> p)"
  "PTR_ERR (sample_kernel ints) p = sint p"
  "PAGE_SIZE (sample_kernel ints) = 4096"
  "pdev_irq (sample_kernel ints) p = 17"
  "msix_vector (sample_kernel ints) p = 42"
  "offsetof_cdev (sample_kernel ints) = 64"
  "IO_CMD (sample_kernel ints) ty nr = push_bit 8 ty + nr"
  by (simp_all add: sample_kernel_def)

abbreviation good_kernel :: linux where
  "good_kernel \<equiv> sample_kernel (\<lambda>c. 0)"

lemma sample_kernel_fresh [simp]:
  "kmalloc_fresh (sample_kernel ints)" "netdev_fresh (sample_kernel ints)"
proof -
  have fresh: "r \<notin># M" if led: "ledger (restrict_eff P (keff (sample_kernel ints))) l = Some M" and nz: "a \<noteq> NULL"
    and r: "r = Mem a \<or> r = Netdev a"
    and a: "a = first_free l 4096 (map (\<lambda>e. value_of (snd e)) l)" for P l M a r
  proof
    assume "r \<in># M"
    from held_was_acquired [OF led this] obtain e where "e \<in> set l" "a = value_of (snd e)"
      using r by (auto dest!: restrict_Acquire acquire_address)
    moreover have "a \<notin> set (map (\<lambda>e. value_of (snd e)) l)"
      using first_free_unused nz unfolding a by blast
    ultimately show False by auto
  qed
  then show "kmalloc_fresh (sample_kernel ints)" by (auto simp: kmalloc_fresh_def)
  have "restrict_eff (\<lambda>r. True) (keff (sample_kernel ints)) = keff (sample_kernel ints)"
    by (rule ext) (simp add: restrict_eff_def split: effect.split)
  with fresh [of "\<lambda>r. True"] show "netdev_fresh (sample_kernel ints)" by (auto simp: netdev_fresh_def)
qed

end
