(* ===== verification/Module_Contract.thy ===== *)
theory Module_Contract
  imports Kernel_API
begin

text \<open>
  What the module loader and a module promise each other. Loading starts from fresh static
  data (\<open>reset\<close>) and runs the init function; the module stays loaded exactly when it
  returns 0. Unloading runs the exit function. Init and exit are \<open>None\<close> where they run
  into undefined behaviour.

  The locale \<open>module_contract\<close> states the module's side over the resource ledger, and its
  lemma \<open>cycles_keep_idle\<close> follows any number of load attempts and unloads.
\<close>

section \<open>The loader as a client\<close>

text \<open>One use of a module: load it and, if that worked, unload it again.\<close>

definition module_cycle ::
    "('s \<Rightarrow> (int \<times> 's) option) \<Rightarrow> ('s \<Rightarrow> 's option) \<Rightarrow> ('s \<Rightarrow> 's) \<Rightarrow> 's \<Rightarrow> 's option" where
  "module_cycle init exit reset s = (case init (reset s) of
     None \<Rightarrow> None
   | Some (r, s') \<Rightarrow> if r = 0 then exit s' else Some s')"

primrec module_cycles ::
    "('s \<Rightarrow> (int \<times> 's) option) \<Rightarrow> ('s \<Rightarrow> 's option) \<Rightarrow> ('s \<Rightarrow> 's) \<Rightarrow> nat \<Rightarrow> 's \<Rightarrow> 's option" where
  "module_cycles init exit reset 0 s = Some s"
| "module_cycles init exit reset (Suc n) s = (case module_cycle init exit reset s of
     None \<Rightarrow> None | Some s' \<Rightarrow> module_cycles init exit reset n s')"

section \<open>The contract\<close>

text \<open>
  \<open>idle M s\<close>: the module is not loaded in \<open>s\<close>, and the kernel's account is \<open>M\<close>; \<open>loaded M s\<close>: the module is
  loaded, and unloading it brings the account back to \<open>M\<close>.
\<close>

locale module_contract =
  fixes init :: "'s \<Rightarrow> (int \<times> 's) option"
    and exit :: "'s \<Rightarrow> 's option"
    and reset :: "'s \<Rightarrow> 's"
    and idle :: "'m \<Rightarrow> 's \<Rightarrow> bool"
    and loaded :: "'m \<Rightarrow> 's \<Rightarrow> bool"
  assumes init_returns: "idle M s \<Longrightarrow> \<exists>r s'. init (reset s) = Some (r, s')"
    and init_fail: "idle M s \<Longrightarrow> init (reset s) = Some (r, s') \<Longrightarrow> r \<noteq> 0 \<Longrightarrow> idle M s'"
    and init_ok: "idle M s \<Longrightarrow> init (reset s) = Some (0, s') \<Longrightarrow> loaded M s'"
    and exit_ok: "loaded M s \<Longrightarrow> \<exists>s'. exit s = Some s' \<and> idle M s'"
begin

lemma cycle_keeps_idle:
  assumes "idle M s"
  shows "\<exists>s'. module_cycle init exit reset s = Some s' \<and> idle M s'"
proof -
  obtain r s1 where i: "init (reset s) = Some (r, s1)"
    using init_returns [OF assms] by blast
  show ?thesis
  proof (cases "r = 0")
    case True
    with i have "loaded M s1" using init_ok [OF assms] by simp
    from exit_ok [OF this] show ?thesis using True i by (simp add: module_cycle_def)
  next
    case False
    with i show ?thesis using init_fail [OF assms] by (simp add: module_cycle_def)
  qed
qed

lemma cycles_keep_idle: "idle M s \<Longrightarrow> \<exists>s'. module_cycles init exit reset n s = Some s' \<and> idle M s'"
proof (induction n arbitrary: s)
  case 0
  then show ?case by simp
next
  case (Suc n)
  obtain s1 where "module_cycle init exit reset s = Some s1" "idle M s1"
    using cycle_keeps_idle [OF Suc.prems] by blast
  with Suc.IH show ?case by simp
qed

end

end
