(* ===== verification/Scull.thy ===== *)
theory Scull
  imports Module_Contract
begin

text \<open>
  The SCULL character driver, \<open>main.c\<close>, \<open>main.h\<close>, \<open>util.c\<close> and \<open>util.h\<close>.

  Memory is an explicit store from addresses to objects: \<open>scull_dev\<close> structures, quantum
  set nodes, arrays of quantum pointers and quanta. A function that reads or frees an
  address where no such object lives has no defined behaviour and is \<open>None\<close>; a normal
  return is \<open>Some\<close>. \<open>G\<close> gives the bytes \<open>kmalloc\<close> hands out, read as a \<open>scull_dev\<close>:
  \<open>kmalloc\<close> does not clear memory.

  Shown: \<open>scull_trim\<close> always ends and, on a well-formed device, frees exactly the device's
  quantum sets, arrays and quanta and resets the device; load and unload against the
  resource ledger; the device numbers registered; what \<open>open\<close> and \<open>read\<close> do.
\<close>

unbundle bit_operations_syntax

section \<open>Data\<close>

abbreviation (input) BASE_MINOR :: nat where "BASE_MINOR \<equiv> 0"
abbreviation (input) NUM_DEVICES :: nat where "NUM_DEVICES \<equiv> 4"
abbreviation (input) SCULL_QUANTUM_SIZE :: int where "SCULL_QUANTUM_SIZE \<equiv> 4000"
abbreviation (input) SCULL_QSET_SIZE :: int where "SCULL_QSET_SIZE \<equiv> 1000"
abbreviation (input) O_ACCMODE :: u32 where "O_ACCMODE \<equiv> 3"
abbreviation (input) O_WRONLY :: u32 where "O_WRONLY \<equiv> 1"

record scull_qset =
  qdata :: ptr
  qnext :: ptr

record scull_dev =
  data :: ptr
  quantum :: int
  qset :: int
  size :: u64
  access_key :: u32
  cdev_owner :: string

datatype obj =
    DevObj scull_dev
  | QsetObj scull_qset
  | PtrArray "ptr list"
  | Quantum

type_synonym heap = "ptr \<rightharpoonup> obj"

record scull_state = "kcall kstate" +
  devno :: u64
  scull_devices :: "ptr list"
  heap :: heap
  private_data :: "ptr \<rightharpoonup> ptr"
  umem :: "ptr \<Rightarrow> char"

section \<open>Memory accesses\<close>

definition get_dev :: "scull_state \<Rightarrow> ptr \<Rightarrow> scull_dev option" where
  "get_dev s p = (case heap s p of Some (DevObj d) \<Rightarrow> Some d | _ \<Rightarrow> None)"

definition get_qset :: "scull_state \<Rightarrow> ptr \<Rightarrow> scull_qset option" where
  "get_qset s p = (case heap s p of Some (QsetObj q) \<Rightarrow> Some q | _ \<Rightarrow> None)"

definition get_elem :: "scull_state \<Rightarrow> ptr \<Rightarrow> int \<Rightarrow> ptr option" where
  "get_elem s p i = (case heap s p of
     Some (PtrArray xs) \<Rightarrow> if 0 \<le> i \<and> i < int (length xs) then Some (xs ! nat i) else None
   | _ \<Rightarrow> None)"

definition upd_dev :: "ptr \<Rightarrow> (scull_dev \<Rightarrow> scull_dev) \<Rightarrow> scull_state \<Rightarrow> scull_state option" where
  "upd_dev p f s = (case get_dev s p of
     Some d \<Rightarrow> Some (s\<lparr>heap := (heap s)(p \<mapsto> DevObj (f d))\<rparr>) | None \<Rightarrow> None)"

definition upd_qset :: "ptr \<Rightarrow> (scull_qset \<Rightarrow> scull_qset) \<Rightarrow> scull_state \<Rightarrow> scull_state option" where
  "upd_qset p f s = (case get_qset s p of
     Some q \<Rightarrow> Some (s\<lparr>heap := (heap s)(p \<mapsto> QsetObj (f q))\<rparr>) | None \<Rightarrow> None)"

text \<open>\<open>kfree(NULL)\<close> does nothing; any other argument must be a live object.\<close>

definition kfree :: "ptr \<Rightarrow> scull_state \<Rightarrow> scull_state option" where
  "kfree p s = (let s' = exec (call_void (Memc (Kfree p))) s in
     if p = NULL then Some s'
     else if heap s p = None then None
     else Some (s'\<lparr>heap := (heap s)(p := None)\<rparr>))"

section \<open>util.c: scull_trim\<close>

text \<open>The inner loop, \<open>for (int i = 0; i < qset; i++) kfree(dptr->data[i])\<close>.\<close>

function trim_quanta :: "ptr \<Rightarrow> int \<Rightarrow> int \<Rightarrow> scull_state \<Rightarrow> scull_state option" where
  "trim_quanta dptr i qs s =
     (if i < qs then do {
        node \<leftarrow> get_qset s dptr;
        p \<leftarrow> get_elem s (qdata node) i;
        s \<leftarrow> kfree p s;
        trim_quanta dptr (i + 1) qs s
      } else Some s)"
  by pat_completeness auto
termination
  by (relation "measure (\<lambda>(dptr, i, qs, s). nat (qs - i))") auto

declare trim_quanta.simps [simp del]

lemma kfree_dom: "kfree p s = Some s' \<Longrightarrow> dom (heap s') \<subseteq> dom (heap s)"
  by (auto simp: kfree_def Let_def split: if_splits)

lemma kfree_frees: "kfree p s = Some s' \<Longrightarrow> p \<noteq> NULL \<Longrightarrow> heap s' = (heap s)(p := None)"
  by (auto simp: kfree_def Let_def split: if_splits)

lemma trim_quanta_dom: "trim_quanta dptr i qs s = Some s' \<Longrightarrow> dom (heap s') \<subseteq> dom (heap s)"
proof (induction dptr i qs s rule: trim_quanta.induct)
  case (1 dptr i qs s)
  show ?case
  proof (cases "i < qs")
    case True
    with "1.prems" obtain node p s1 where *: "get_qset s dptr = Some node"
      "get_elem s (qdata node) i = Some p" "kfree p s = Some s1"
      "trim_quanta dptr (i + 1) qs s1 = Some s'"
      by (auto simp: trim_quanta.simps [of dptr i qs s] bind_eq_Some_conv)
    with True "1.IH" have "dom (heap s') \<subseteq> dom (heap s1)" by blast
    with kfree_dom [OF *(3)] show ?thesis by (rule subset_trans [rotated])
  next
    case False
    with "1.prems" show ?thesis by (simp add: trim_quanta.simps [of dptr i qs s])
  qed
qed

text \<open>The body of the outer loop up to \<open>next = dptr->next; kfree(dptr)\<close>.\<close>

definition trim_node :: "ptr \<Rightarrow> int \<Rightarrow> scull_state \<Rightarrow> (ptr \<times> scull_state) option" where
  "trim_node dptr qs s = do {
     node \<leftarrow> get_qset s dptr;
     s \<leftarrow> (if qdata node \<noteq> NULL then do {
            s \<leftarrow> trim_quanta dptr 0 qs s;
            node \<leftarrow> get_qset s dptr;
            s \<leftarrow> kfree (qdata node) s;
            upd_qset dptr (\<lambda>n. n\<lparr>qdata := NULL\<rparr>) s
          } else Some s);
     node \<leftarrow> get_qset s dptr;
     s \<leftarrow> kfree dptr s;
     Some (qnext node, s)
   }"

text \<open>
  The outer loop. Every iteration frees the node it visits, so the number of live objects
  bounds the number of iterations, whatever the links look like.
\<close>

lemma upd_qset_dom: "upd_qset p f s = Some s' \<Longrightarrow> dom (heap s') = dom (heap s)"
  by (auto simp: upd_qset_def get_qset_def dom_def split: option.splits obj.splits if_splits)

lemma trim_data_dom:
  assumes "do { s \<leftarrow> trim_quanta dptr 0 qs s; node \<leftarrow> get_qset s dptr; s \<leftarrow> kfree (qdata node) s;
      upd_qset dptr f s } = Some s1"
  shows "dom (heap s1) \<subseteq> dom (heap s)"
proof -
  from assms obtain t t' and node :: scull_qset where "trim_quanta dptr 0 qs s = Some t"
    and "kfree (qdata node) t = Some t'" and "upd_qset dptr f t' = Some s1"
    unfolding bind_eq_Some_conv by blast
  then show ?thesis
    using trim_quanta_dom [of dptr 0 qs s t] kfree_dom [of "qdata node" t t']
      upd_qset_dom [of dptr f t' s1] by simp
qed

lemma trim_node_shrinks:
  assumes "trim_node dptr qs s = Some (nxt, s')" and "dptr \<noteq> NULL"
  shows "card (dom (heap s')) < card (dom (heap s))"
proof -
  from assms(1) obtain node s1 where node: "get_qset s dptr = Some node"
    and body: "(if qdata node \<noteq> NULL then do {
            s \<leftarrow> trim_quanta dptr 0 qs s;
            node \<leftarrow> get_qset s dptr;
            s \<leftarrow> kfree (qdata node) s;
            upd_qset dptr (\<lambda>n. n\<lparr>qdata := NULL\<rparr>) s
          } else Some s) = Some s1"
    and last: "kfree dptr s1 = Some s'"
    unfolding trim_node_def bind_eq_Some_conv by blast
  have "dom (heap s1) \<subseteq> dom (heap s)"
    using body trim_data_dom by (auto split: if_splits)
  then have "dom (heap s') \<subseteq> dom (heap s) - {dptr}"
    using kfree_frees [OF last assms(2)] by auto
  moreover have "dptr \<in> dom (heap s)"
    using node by (auto simp: get_qset_def split: option.splits)
  ultimately show ?thesis
    by (intro psubset_card_mono) (simp, blast)
qed

function trim_list :: "ptr \<Rightarrow> int \<Rightarrow> scull_state \<Rightarrow> scull_state option" where
  "trim_list dptr qs s =
     (if dptr \<noteq> NULL then
        (case trim_node dptr qs s of
           None \<Rightarrow> None
         | Some (nxt, s) \<Rightarrow> trim_list nxt qs s)
      else Some s)"
  by pat_completeness auto
termination
  by (relation "measure (\<lambda>(dptr, qs, s). card (dom (heap s)))") (auto dest: trim_node_shrinks)

declare trim_list.simps [simp del]

definition scull_trim :: "ptr \<Rightarrow> scull_state \<Rightarrow> (int \<times> scull_state) option" where
  "scull_trim dev s = do {
     d \<leftarrow> get_dev s dev;
     s \<leftarrow> trim_list (data d) (qset d) s;
     s \<leftarrow> upd_dev dev (\<lambda>d. d\<lparr>size := 0, quantum := SCULL_QUANTUM_SIZE,
            qset := SCULL_QSET_SIZE, data := NULL\<rparr>) s;
     Some (0, s)
   }"

section \<open>main.c: module load and unload\<close>

text \<open>
  \<open>&(dev->cdev)\<close> and the \<open>container_of\<close> that undoes it.
\<close>

definition cdev_ptr :: "linux \<Rightarrow> ptr \<Rightarrow> ptr" where
  "cdev_ptr K dev = dev + offsetof_cdev K"

definition container_of_cdev :: "linux \<Rightarrow> ptr \<Rightarrow> ptr" where
  "container_of_cdev K c = c - offsetof_cdev K"

definition scull_setup_cdev :: "linux \<Rightarrow> ptr \<Rightarrow> nat \<Rightarrow> scull_state \<Rightarrow> scull_state option" where
  "scull_setup_cdev K dev index s = do {
     let devno_sp = MKDEV K (MAJOR K (devno s)) (index + BASE_MINOR);
     let s = exec (call_void (Chr (Cdev_init (cdev_ptr K dev) ''scull_fops''))) s;
     s \<leftarrow> upd_dev dev (\<lambda>d. d\<lparr>cdev_owner := ''THIS_MODULE''\<rparr>) s;
     let (err, s) = run_state (call_int K (Chr (Cdev_add (cdev_ptr K dev) devno_sp 1))) s;
     Some s
   }"

text \<open>The clean-up loop that the error path and \<open>scull_exit\<close> share.\<close>

fun free_devices :: "linux \<Rightarrow> ptr list \<Rightarrow> scull_state \<Rightarrow> scull_state option" where
  "free_devices K [] s = Some s"
| "free_devices K (p # ps) s =
     (if p \<noteq> NULL then do {
        s \<leftarrow> kfree p (exec (call_void (Chr (Cdev_del (cdev_ptr K p)))) s);
        free_devices K ps s
      } else free_devices K ps s)"

definition init_fail :: "linux \<Rightarrow> scull_state \<Rightarrow> (int \<times> scull_state) option" where
  "init_fail K s = do {
     s \<leftarrow> free_devices K (scull_devices s) s;
     let s = exec (call_void (Chr (Unregister_chrdev_region (devno s) NUM_DEVICES))) s;
     Some (- ENOMEM, s)
   }"

definition kmalloc_dev ::
    "linux \<Rightarrow> (kcall klog \<Rightarrow> scull_dev) \<Rightarrow> scull_state \<Rightarrow> ptr \<times> scull_state" where
  "kmalloc_dev K G s = (case run_state (call_u64 K (Memc (Kmalloc ''scull_dev''))) s of
     (a, s') \<Rightarrow> (a, if a = NULL then s' else s'\<lparr>heap := (heap s')(a \<mapsto> DevObj (G (klog s)))\<rparr>))"

function init_loop ::
    "linux \<Rightarrow> (kcall klog \<Rightarrow> scull_dev) \<Rightarrow> nat \<Rightarrow> scull_state \<Rightarrow> (int \<times> scull_state) option" where
  "init_loop K G i s =
     (if i < NUM_DEVICES then do {
        let (a, s) = kmalloc_dev K G s;
        let s = s\<lparr>scull_devices := (scull_devices s)[i := a]\<rparr>;
        if a = NULL then init_fail K s
        else do {
          s \<leftarrow> scull_setup_cdev K a (i + BASE_MINOR) s;
          init_loop K G (Suc i) s
        }
      } else Some (0, s))"
  by pat_completeness auto
termination
  by (relation "measure (\<lambda>(K, G, i, s). NUM_DEVICES - i)") auto

declare init_loop.simps [simp del]

definition scull_init ::
    "linux \<Rightarrow> (kcall klog \<Rightarrow> scull_dev) \<Rightarrow> scull_state \<Rightarrow> (int \<times> scull_state) option" where
  "scull_init K G s = do {
     let ((err, dn), s) =
       run_state (call_int_out K (Chr (Alloc_chrdev_region BASE_MINOR NUM_DEVICES ''scull''))) s;
     let s = s\<lparr>devno := dn\<rparr>;
     if err \<noteq> 0 then Some (err, s) else init_loop K G 0 s
   }"

definition scull_exit :: "linux \<Rightarrow> scull_state \<Rightarrow> scull_state option" where
  "scull_exit K s =
     (let s = exec (call_void (Chr (Unregister_chrdev_region (devno s) NUM_DEVICES))) s
      in free_devices K (scull_devices s) s)"

section \<open>main.c: file operations\<close>

definition scull_open ::
    "linux \<Rightarrow> ptr \<Rightarrow> ptr \<Rightarrow> u32 \<Rightarrow> scull_state \<Rightarrow> (int \<times> scull_state) option" where
  "scull_open K i_cdev filp f_flags s = do {
     let dev = container_of_cdev K i_cdev;
     let s = s\<lparr>private_data := (private_data s)(filp \<mapsto> dev)\<rparr>;
     if f_flags AND O_ACCMODE = O_WRONLY then do {
       (_, s) \<leftarrow> scull_trim dev s;
       Some (0, s)
     } else Some (0, s)
   }"

definition scull_release :: "ptr \<Rightarrow> ptr \<Rightarrow> scull_state \<Rightarrow> (int \<times> scull_state) option" where
  "scull_release inode filp s = Some (0, s)"

text \<open>
  \<open>copy_to_user\<close> returns the number of bytes it could not copy; the bytes before those
  have been stored at the user's address.
\<close>

definition scull_msg :: string where
  "scull_msg = ''Something funny haha'' @ [CHR 0x0A]"

primrec store_bytes :: "ptr \<Rightarrow> string \<Rightarrow> (ptr \<Rightarrow> char) \<Rightarrow> ptr \<Rightarrow> char" where
  "store_bytes a [] m = m"
| "store_bytes a (c # cs) m = store_bytes (a + 1) cs (m(a := c))"

definition scull_read ::
    "linux \<Rightarrow> ptr \<Rightarrow> ptr \<Rightarrow> u64 \<Rightarrow> u64 \<Rightarrow> scull_state \<Rightarrow> (int \<times> scull_state) option" where
  "scull_read K filp buf cnt f_pos s = (
     let src = scull_msg @ [CHR 0x00]; len = length scull_msg + 1;
       (left, s) = run_state (call_u64 K (Memc (Copy_to_user buf src))) s;
       s = s\<lparr>umem := store_bytes buf (take (len - unat left) src) (umem s)\<rparr>
     in if left \<noteq> 0 then Some (- EFAULT, s) else Some (int len, s))"

definition scull_write :: "ptr \<Rightarrow> ptr \<Rightarrow> u64 \<Rightarrow> u64 \<Rightarrow> scull_state \<Rightarrow> (int \<times> scull_state) option" where
  "scull_write filp buf cnt f_pos s = Some (0, s)"

section \<open>Correctness of scull_trim\<close>

text \<open>
  A well-formed chain of quantum sets: each entry names a node, its array of quantum
  pointers (or \<open>NULL\<close>) and the pointers in it; every array has \<open>qs\<close> slots.
\<close>

type_synonym chain = "(ptr \<times> ptr \<times> ptr list) list"

primrec qchain :: "heap \<Rightarrow> int \<Rightarrow> ptr \<Rightarrow> chain \<Rightarrow> bool" where
  "qchain h qs p [] = (p = NULL)"
| "qchain h qs p (x # xs) = (case x of (node, arr, ps) \<Rightarrow>
     p = node \<and> node \<noteq> NULL \<and>
     (\<exists>nxt. h node = Some (QsetObj \<lparr>qdata = arr, qnext = nxt\<rparr>) \<and> qchain h qs nxt xs) \<and>
     (if arr = NULL then ps = []
      else h arr = Some (PtrArray ps) \<and> length ps = nat qs \<and>
        (\<forall>q\<in>set ps. q = NULL \<or> h q = Some Quantum)))"

fun entry_footprint :: "ptr \<times> ptr \<times> ptr list \<Rightarrow> ptr list" where
  "entry_footprint (node, arr, ps) =
     filter (\<lambda>p. p \<noteq> NULL) ps @ (if arr = NULL then [] else [arr]) @ [node]"

definition footprint :: "chain \<Rightarrow> ptr list" where
  "footprint xs = concat (map entry_footprint xs)"

text \<open>Removing objects outside a chain's footprint does not disturb it.\<close>

definition removed :: "heap \<Rightarrow> ptr set \<Rightarrow> heap" where
  "removed h A = (\<lambda>x. if x \<in> A then None else h x)"

lemma removed_removed [simp]: "removed (removed h A) B = removed h (A \<union> B)"
  by (auto simp: removed_def)

lemma removed_empty [simp]: "removed h {} = h"
  by (simp add: removed_def)

lemma removed_other [simp]: "x \<notin> A \<Longrightarrow> removed h A x = h x"
  by (simp add: removed_def)

lemma removed_upd [simp]: "x \<in> A \<Longrightarrow> removed (h(x := y)) A = removed h A"
  by (auto simp: removed_def)

lemma qchain_removed:
  "qchain h qs p xs \<Longrightarrow> A \<inter> set (footprint xs) = {} \<Longrightarrow> qchain (removed h A) qs p xs"
proof (induction xs arbitrary: p)
  case Nil
  then show ?case by simp
next
  case (Cons x xs)
  obtain node arr ps where x: "x = (node, arr, ps)" by (cases x)
  from Cons.prems(2) have rest: "A \<inter> set (footprint xs) = {}" and "node \<notin> A"
    and "arr \<noteq> NULL \<Longrightarrow> arr \<notin> A" and "\<forall>q\<in>set ps. q \<noteq> NULL \<longrightarrow> q \<notin> A"
    by (auto simp: footprint_def x split: if_splits)
  with Cons.prems(1) Cons.IH show ?case
    by (auto simp: x removed_def split: if_splits)
qed

lemma kfree_live:
  "p \<noteq> NULL \<Longrightarrow> heap s p = Some x \<Longrightarrow>
   kfree p s = Some (s\<lparr>klog := klog s @ [(Memc (Kfree p), RVoid)], heap := removed (heap s) {p}\<rparr>)"
  by (simp add: kfree_def Let_def removed_def fun_eq_iff)

lemma kfree_NULL [simp]: "kfree NULL s = Some (s\<lparr>klog := klog s @ [(Memc (Kfree NULL), RVoid)]\<rparr>)"
  by (simp add: kfree_def)

definition freed :: "ptr list \<Rightarrow> kcall klog" where
  "freed ps = map (\<lambda>p. (Memc (Kfree p), RVoid)) ps"

text \<open>The inner loop frees the non-null pointers from index \<open>i\<close> on.\<close>

lemma trim_quanta_frees:
  assumes "heap s dptr = Some (QsetObj \<lparr>qdata = arr, qnext = nxt\<rparr>)"
    and "heap s arr = Some (PtrArray ps)" and "i \<le> length ps"
    and "\<forall>q\<in>set (drop i ps). q = NULL \<or> heap s q = Some Quantum"
    and "distinct (filter (\<lambda>p. p \<noteq> NULL) (drop i ps))"
  shows "trim_quanta dptr (int i) (int (length ps)) s =
    Some (s\<lparr>klog := klog s @ freed (drop i ps), heap := removed (heap s) (set (drop i ps) - {NULL})\<rparr>)"
  using assms
proof (induction "length ps - i" arbitrary: i s)
  case 0
  then show ?case by (simp add: trim_quanta.simps freed_def)
next
  case (Suc n)
  then have i: "i < length ps" by simp
  let ?p = "ps ! i"
  have d: "drop i ps = ?p # drop (Suc i) ps" using i by (rule Cons_nth_drop_Suc [symmetric])
  define s1 where "s1 = s\<lparr>klog := klog s @ freed [?p],
    heap := removed (heap s) ({?p} - {NULL})\<rparr>"
  have free: "kfree ?p s = Some s1"
    using Suc.prems(4) by (cases "?p = NULL") (auto simp: d s1_def freed_def kfree_live)
  have step: "trim_quanta dptr (int i) (int (length ps)) s =
      trim_quanta dptr (int (Suc i)) (int (length ps)) s1"
    using Suc.prems(1,2) i free
    by (subst trim_quanta.simps) (simp add: get_qset_def get_elem_def add.commute)
  have others: "?p \<noteq> NULL \<Longrightarrow> heap s x = Some y \<Longrightarrow> y \<noteq> Quantum \<Longrightarrow> heap s1 x = Some y" for x y
    using Suc.prems(4) by (auto simp: d s1_def removed_def)
  have keep: "heap s1 x = Some y" if "heap s x = Some y" "y \<noteq> Quantum" for x y
    using that others by (cases "?p = NULL") (auto simp: s1_def)
  have "\<forall>q\<in>set (drop (Suc i) ps). q = NULL \<or> heap s1 q = Some Quantum"
    using Suc.prems(4,5) by (auto simp: d s1_def removed_def split: if_splits)
  moreover have "distinct (filter (\<lambda>p. p \<noteq> NULL) (drop (Suc i) ps))"
    using Suc.prems(5) by (simp add: d split: if_splits)
  ultimately have "trim_quanta dptr (int (Suc i)) (int (length ps)) s1 =
      Some (s1\<lparr>klog := klog s1 @ freed (drop (Suc i) ps),
        heap := removed (heap s1) (set (drop (Suc i) ps) - {NULL})\<rparr>)"
    using Suc.hyps keep Suc.prems(1,2) i by (intro Suc.hyps(1)) auto
  moreover have "({?p} - {NULL}) \<union> (set (drop (Suc i) ps) - {NULL}) = set (drop i ps) - {NULL}"
    by (auto simp: d)
  ultimately show ?case
    by (simp add: step s1_def d freed_def)
qed

text \<open>One node: its quanta, its array, the node itself, in this order.\<close>

fun entry_frees :: "ptr \<times> ptr \<times> ptr list \<Rightarrow> ptr list" where
  "entry_frees (node, arr, ps) = (if arr = NULL then [] else ps @ [arr]) @ [node]"

lemma trim_quanta_nat: "trim_quanta dptr 0 (int (nat qs)) s = trim_quanta dptr 0 qs s"
  by (cases "0 \<le> qs") (simp_all add: trim_quanta.simps [of dptr 0 qs s] trim_quanta.simps [of dptr 0 0 s] del: int_nat_eq)

lemma trim_node_frees:
  assumes node: "heap s node = Some (QsetObj \<lparr>qdata = arr, qnext = nxt\<rparr>)" "node \<noteq> NULL"
    and arr: "if arr = NULL then ps = []
      else heap s arr = Some (PtrArray ps) \<and> length ps = nat qs \<and>
        (\<forall>q\<in>set ps. q = NULL \<or> heap s q = Some Quantum)"
    and dist: "distinct (entry_footprint (node, arr, ps))"
  shows "trim_node node qs s = Some (nxt, s\<lparr>
      klog := klog s @ freed (entry_frees (node, arr, ps)),
      heap := removed (heap s) (set (entry_footprint (node, arr, ps)))\<rparr>)"
proof (cases "arr = NULL")
  case True
  with node arr show ?thesis
    by (simp add: trim_node_def get_qset_def kfree_live freed_def)
next
  case False
  let ?Q = "set ps - {NULL}"
  define s1 where "s1 = s\<lparr>klog := klog s @ freed ps, heap := removed (heap s) ?Q\<rparr>"
  from False arr have a: "heap s arr = Some (PtrArray ps)" "length ps = nat qs"
    "\<forall>q\<in>set ps. q = NULL \<or> heap s q = Some Quantum" by auto
  from False dist have d: "distinct (filter (\<lambda>p. p \<noteq> NULL) ps)" "arr \<notin> ?Q" "node \<notin> ?Q"
    "arr \<noteq> node" by auto
  have "trim_quanta node 0 qs s = Some s1"
    using trim_quanta_frees [of s node arr nxt ps 0] node a d
    by (simp add: s1_def trim_quanta_nat del: int_nat_eq)
  moreover have "heap s1 node = Some (QsetObj \<lparr>qdata = arr, qnext = nxt\<rparr>)"
    "heap s1 arr = Some (PtrArray ps)"
    using node a d by (auto simp: s1_def removed_def)
  moreover have fp: "set (entry_footprint (node, arr, ps)) = ?Q \<union> {arr} \<union> {node}"
    using False by auto
  ultimately show ?thesis
    unfolding fp using node False d
    by (simp add: trim_node_def get_qset_def kfree_live upd_qset_def s1_def freed_def)
qed

text \<open>The whole chain, and the operation.\<close>

lemma trim_list_frees:
  assumes "qchain (heap s) qs p xs" and "distinct (footprint xs)"
  shows "trim_list p qs s = Some (s\<lparr>
      klog := klog s @ freed (concat (map entry_frees xs)),
      heap := removed (heap s) (set (footprint xs))\<rparr>)"
  using assms
proof (induction xs arbitrary: p s)
  case Nil
  then show ?case by (simp add: trim_list.simps footprint_def freed_def)
next
  case (Cons x xs)
  obtain node arr ps where x: "x = (node, arr, ps)" by (cases x)
  from Cons.prems(1) obtain nxt where p: "p = node" "node \<noteq> NULL"
    and node: "heap s node = Some (QsetObj \<lparr>qdata = arr, qnext = nxt\<rparr>)"
    and rest: "qchain (heap s) qs nxt xs"
    and arr: "if arr = NULL then ps = [] else heap s arr = Some (PtrArray ps) \<and>
        length ps = nat qs \<and> (\<forall>q\<in>set ps. q = NULL \<or> heap s q = Some Quantum)"
    by (auto simp: x)
  from Cons.prems(2) have d: "distinct (entry_footprint x)" "distinct (footprint xs)"
    "set (entry_footprint x) \<inter> set (footprint xs) = {}"
    by (auto simp: footprint_def)
  define s1 where "s1 = s\<lparr>klog := klog s @ freed (entry_frees x),
      heap := removed (heap s) (set (entry_footprint x))\<rparr>"
  have one: "trim_node node qs s = Some (nxt, s1)"
    using trim_node_frees [OF node p(2) arr] d(1) by (simp add: x s1_def del: entry_footprint.simps)
  have "qchain (heap s1) qs nxt xs"
    using qchain_removed [OF rest d(3)] by (simp add: s1_def)
  from Cons.IH [OF this d(2)] one p show ?case
    by (subst trim_list.simps) (simp add: s1_def freed_def footprint_def)
qed

lemma trim_list_NULL [simp]: "trim_list NULL qs s = Some s"
  by (simp add: trim_list.simps)

definition reset_dev :: "scull_dev \<Rightarrow> scull_dev" where
  "reset_dev d = d\<lparr>size := 0, quantum := 4000, qset := 1000, data := NULL\<rparr>"

lemma scull_trim_frees:
  assumes "heap s dev = Some (DevObj d)" and "qchain (heap s) (qset d) (data d) xs"
    and "distinct (footprint xs)" and "dev \<notin> set (footprint xs)"
  shows "scull_trim dev s = Some (0, s\<lparr>
      klog := klog s @ freed (concat (map entry_frees xs)),
      heap := (removed (heap s) (set (footprint xs)))(dev \<mapsto> DevObj (reset_dev d))\<rparr>)"
  using assms trim_list_frees [OF assms(2,3)]
  by (simp add: scull_trim_def get_dev_def upd_dev_def reset_dev_def)

section \<open>Load and unload against the ledger\<close>

definition dev_res :: "linux \<Rightarrow> ptr \<Rightarrow> res multiset" where
  "dev_res K a = {#Mem a, Cdev (cdev_ptr K a)#}"

text \<open>What a device holds, given the answer of its \<open>cdev_add\<close>.\<close>

definition added_res :: "linux \<Rightarrow> ptr \<times> int \<Rightarrow> res multiset" where
  "added_res K x = (if snd x = 0 then dev_res K (fst x) else {#Mem (fst x)#})"

text \<open>
  The clean-up deletes every \<open>cdev\<close>, also one whose \<open>cdev_add\<close> failed. Two accounts are kept: that of everything but
  the \<open>cdev\<close>s, and the whole ledger for as long as no \<open>cdev_add\<close> has failed.
\<close>

definition not_cdev :: "res \<Rightarrow> bool" where
  "not_cdev r \<longleftrightarrow> (case r of Cdev c \<Rightarrow> False | _ \<Rightarrow> True)"

lemma not_cdev_simps [simp]: "not_cdev (Mem a)" "not_cdev (ChrRegion d n)" "\<not> not_cdev (Cdev c)"
  by (simp_all add: not_cdev_def)

abbreviation core_eff :: "linux \<Rightarrow> kevent \<Rightarrow> res effect" where
  "core_eff K \<equiv> restrict_eff not_cdev (keff K)"

definition cdevs_added :: "kevent list \<Rightarrow> bool" where
  "cdevs_added es \<longleftrightarrow> list_all (\<lambda>e. case fst e of Chr (Cdev_add c d n) \<Rightarrow> succeeded (snd e) | _ \<Rightarrow> True) es"

lemma cdevs_added_simps [simp]:
  "cdevs_added []" "cdevs_added (es @ fs) \<longleftrightarrow> cdevs_added es \<and> cdevs_added fs"
  "cdevs_added (e # es) \<longleftrightarrow> (case fst e of Chr (Cdev_add c d n) \<Rightarrow> succeeded (snd e) | _ \<Rightarrow> True) \<and> cdevs_added es"
  by (simp_all add: cdevs_added_def)

lemma core_keeps: "ledger (keff K) l = Some M \<Longrightarrow> ledger (core_eff K) l = Some (filter_mset not_cdev M)"
  by (rule ledger_restrict)

lemma kmalloc_new:
  assumes "kmalloc_fresh K" and "ledger (core_eff K) l = Some X" and "k_u64 K l (Memc (Kmalloc n)) \<noteq> NULL"
  shows "Mem (k_u64 K l (Memc (Kmalloc n))) \<notin># X"
proof -
  have "restrict_eff is_mem (core_eff K) = restrict_eff is_mem (keff K)"
    by (rule restrict_restrict) (simp add: is_mem_def not_cdev_def split: res.splits)
  with ledger_restrict [OF assms(2), of is_mem] assms(1,3) show ?thesis by (fastforce simp: kmalloc_fresh_def)
qed

abbreviation live :: "ptr list \<Rightarrow> ptr list" where
  "live ps \<equiv> filter (\<lambda>p. p \<noteq> NULL) ps"

text \<open>The calls of the clean-up loop, and what they are in the two ledgers.\<close>

definition free_log :: "linux \<Rightarrow> ptr list \<Rightarrow> kevent list" where
  "free_log K ps = concat (map (\<lambda>p. [(Chr (Cdev_del (cdev_ptr K p)), RVoid), (Memc (Kfree p), RVoid)]) (live ps))"

lemma free_devices_run:
  assumes "\<forall>a\<in>set (live ps). heap s a \<noteq> None" and "distinct (live ps)"
  shows "\<exists>s'. free_devices K ps s = Some s' \<and> klog s' = klog s @ free_log K ps \<and> devno s' = devno s \<and>
    heap s' = removed (heap s) (set (live ps))"
  using assms
proof (induction ps arbitrary: s)
  case Nil
  then show ?case by (simp add: free_log_def)
next
  case (Cons p ps)
  show ?case
  proof (cases "p = NULL")
    case True
    with Cons show ?thesis by (simp add: free_log_def)
  next
    case False
    from False Cons.prems(1) obtain x where x: "heap s p = Some x" by auto
    define s1 where "s1 = s\<lparr>klog := klog s @
      [(Chr (Cdev_del (cdev_ptr K p)), RVoid), (Memc (Kfree p), RVoid)],
      heap := removed (heap s) {p}\<rparr>"
    have step: "free_devices K (p # ps) s = free_devices K ps s1"
      using False x by (simp add: s1_def kfree_live)
    have "\<forall>a\<in>set (live ps). heap s1 a \<noteq> None"
      using False Cons.prems by (auto simp: s1_def removed_def)
    then obtain s' where "free_devices K ps s1 = Some s'" "klog s' = klog s1 @ free_log K ps"
      "devno s' = devno s1" "heap s' = removed (heap s1) (set (live ps))"
      using Cons.IH [of s1] Cons.prems(2) False by auto
    moreover have "set (live (p # ps)) = {p} \<union> set (live ps)" using False by auto
    ultimately show ?thesis unfolding step using False
      by (simp add: s1_def free_log_def del: set_filter)
  qed
qed

lemma free_log_ledger:
  "ledger_from (keff K) (Some (M + (\<Sum>a\<leftarrow>live ps. dev_res K a))) (free_log K ps) = Some M"
  by (induction ps) (simp_all add: free_log_def dev_res_def)

lemma free_log_core:
  "ledger_from (core_eff K) (Some (M + (\<Sum>a\<leftarrow>live ps. {#Mem a#}))) (free_log K ps) = Some M"
  by (induction ps) (simp_all add: free_log_def restrict_eff_def)

lemma free_log_clean [simp]: "cdevs_added (free_log K ps)"
  by (induction ps) (simp_all add: free_log_def)

lemma free_devices_ok:
  assumes "held K s = Some (M + (\<Sum>a\<leftarrow>live ps. dev_res K a))"
    and "\<forall>a\<in>set (live ps). heap s a \<noteq> None" and "distinct (live ps)"
  shows "\<exists>s'. free_devices K ps s = Some s' \<and> held K s' = Some M \<and> devno s' = devno s \<and>
    heap s' = removed (heap s) (set (live ps))"
  using free_devices_run [OF assms(2,3), of K] assms(1) free_log_ledger [of K M ps] by auto

text \<open>
  The state of the init loop after \<open>i\<close> devices, from the history \<open>l0\<close> on: their addresses \<open>as\<close>, the
  answers \<open>rs\<close> of \<open>cdev_add\<close>, the unused slots still \<open>NULL\<close>, the accounts, and the device numbers the kernel was
  asked to serve.
\<close>

definition init_inv ::
    "linux \<Rightarrow> (kcall klog \<Rightarrow> scull_dev) \<Rightarrow> res multiset \<Rightarrow> kevent list \<Rightarrow> nat \<Rightarrow> ptr list \<Rightarrow> int list \<Rightarrow> scull_state \<Rightarrow> bool"
where
  "init_inv K G M l0 i as rs s \<longleftrightarrow> i \<le> NUM_DEVICES \<and> length as = i \<and> length rs = i \<and>
     scull_devices s = as @ replicate (NUM_DEVICES - i) NULL \<and>
     NULL \<notin> set as \<and> distinct as \<and>
     (\<forall>a\<in>set as. \<exists>l. heap s a = Some (DevObj ((G l)\<lparr>cdev_owner := ''THIS_MODULE''\<rparr>))) \<and>
     ledger (core_eff K) (klog s) =
       Some (add_mset (ChrRegion (devno s) NUM_DEVICES) (filter_mset not_cdev M) + (\<Sum>a\<leftarrow>as. {#Mem a#})) \<and>
     (ledger (keff K) l0 = Some M \<longrightarrow>
       held K s = Some (add_mset (ChrRegion (devno s) NUM_DEVICES) M + (\<Sum>x\<leftarrow>zip as rs. added_res K x))) \<and>
     (\<exists>es. klog s = l0 @ es \<and> (\<forall>j<i.
       (Chr (Cdev_add (cdev_ptr K (as ! j)) (MKDEV K (MAJOR K (devno s)) j) 1), RInt (rs ! j)) \<in> set es))"

lemma mem_in_sum: "a \<in> set as \<Longrightarrow> Mem a \<in># (\<Sum>a\<leftarrow>as. {#Mem a#})"
  by (induction as) auto

lemma live_id: "NULL \<notin> set as \<Longrightarrow> live as = as"
  by (induction as) auto

lemma clear_slot: "(as @ replicate n NULL)[length as := NULL] = as @ replicate n NULL"
  by (cases n) (simp_all add: list_update_beyond)

lemma all_added:
  "length rs = length as \<Longrightarrow> \<forall>r\<in>set rs. r = 0 \<Longrightarrow> (\<Sum>x\<leftarrow>zip as rs. added_res K x) = (\<Sum>a\<leftarrow>as. dev_res K a)"
  by (induction rs as rule: list_induct2) (simp_all add: added_res_def)

lemma not_added:
  "length rs = length as \<Longrightarrow> \<forall>r\<in>set rs. r \<noteq> 0 \<Longrightarrow> (\<Sum>x\<leftarrow>zip as rs. added_res K x) = (\<Sum>a\<leftarrow>as. {#Mem a#})"
  by (induction rs as rule: list_induct2) (simp_all add: added_res_def)

lemma answer_logged:
  assumes "init_inv K G M l0 i as rs s" and "klog s = l0 @ es" and "r \<in> set rs"
  obtains c d where "(Chr (Cdev_add c d 1), RInt r) \<in> set es"
proof -
  obtain j where "j < i" "r = rs ! j" using assms(1,3) by (auto simp: init_inv_def in_set_conv_nth)
  with assms(1,2) that show thesis by (auto simp: init_inv_def)
qed

lemma added_answers:
  assumes "init_inv K G M l0 i as rs s" and "klog s = l0 @ es" and "cdevs_added es"
  shows "\<forall>r\<in>set rs. r = 0"
proof
  fix r
  assume "r \<in> set rs"
  then obtain c d where "(Chr (Cdev_add c d 1), RInt r) \<in> set es" by (rule answer_logged [OF assms(1,2)])
  with assms(3) show "r = 0" by (force simp: cdevs_added_def list_all_iff)
qed

text \<open>Where every \<open>cdev_add\<close> since \<open>l0\<close> has succeeded, the whole ledger is that of the devices.\<close>

lemma init_inv_held:
  assumes "init_inv K G M l0 i as rs s" and "klog s = l0 @ es" and "cdevs_added es" and "ledger (keff K) l0 = Some M"
  shows "held K s = Some (add_mset (ChrRegion (devno s) NUM_DEVICES) M + (\<Sum>a\<leftarrow>as. dev_res K a))"
  using assms(1,4) all_added [of rs as K] added_answers [OF assms(1-3)] by (simp add: init_inv_def)

text \<open>Clearing away after \<open>i\<close> devices; \<open>ds\<close> is the call that gives the device numbers back, before or after.\<close>

lemma init_inv_frees:
  assumes inv: "init_inv K G M l0 i as rs s" and klog: "klog s' = klog s @ fs" "heap s' = heap s" "devno s' = devno s"
    and devs: "scull_devices s' = scull_devices s"
  shows "\<exists>t. free_devices K (scull_devices s') s' = Some t \<and> klog t = klog s' @ free_log K as \<and> devno t = devno s"
proof -
  have "live (scull_devices s') = as" using inv by (simp add: init_inv_def live_id devs)
  moreover from this have "free_log K (scull_devices s') = free_log K as"
    using inv by (simp add: free_log_def init_inv_def live_id)
  moreover have "\<forall>a\<in>set as. heap s' a \<noteq> None" using inv klog by (auto simp: init_inv_def)
  ultimately show ?thesis
    using free_devices_run [of "scull_devices s'" s' K] inv klog by (auto simp: init_inv_def)
qed

text \<open>The two accounts after a history that continues \<open>l0\<close>.\<close>

definition accounts :: "linux \<Rightarrow> res multiset \<Rightarrow> kevent list \<Rightarrow> scull_state \<Rightarrow> bool" where
  "accounts K M l0 s \<longleftrightarrow> ledger (core_eff K) (klog s) = Some (filter_mset not_cdev M) \<and>
     (\<exists>es. klog s = l0 @ es \<and> (cdevs_added es \<longrightarrow> ledger (keff K) l0 = Some M \<longrightarrow> held K s = Some M))"

lemma accounts_core: "accounts K M l0 s \<Longrightarrow> ledger (core_eff K) (klog s) = Some (filter_mset not_cdev M)"
  by (simp add: accounts_def)

lemma accounts_refl: "held K s = Some M \<Longrightarrow> accounts K M (klog s) s"
  by (simp add: accounts_def core_keeps)

lemma accounts_trans:
  assumes "accounts K M (klog s) t" and "accounts K M l0 s"
  shows "accounts K M l0 t"
proof -
  from assms obtain es fs where "klog s = l0 @ es" "klog t = klog s @ fs"
    "cdevs_added es \<longrightarrow> ledger (keff K) l0 = Some M \<longrightarrow> held K s = Some M"
    "cdevs_added fs \<longrightarrow> held K s = Some M \<longrightarrow> held K t = Some M" unfolding accounts_def by blast
  moreover from this have "klog t = l0 @ (es @ fs)" by simp
  ultimately have "klog t = l0 @ (es @ fs)"
    "cdevs_added (es @ fs) \<longrightarrow> ledger (keff K) l0 = Some M \<longrightarrow> held K t = Some M"
    unfolding cdevs_added_simps(2) by blast+
  with assms(1) show ?thesis unfolding accounts_def by blast
qed

lemma init_fail_ok:
  assumes inv: "init_inv K G M l0 i as rs s"
  shows "\<exists>s'. init_fail K s = Some (- ENOMEM, s') \<and> accounts K M l0 s'"
proof -
  let ?un = "(Chr (Unregister_chrdev_region (devno s) NUM_DEVICES), RVoid)"
  from init_inv_frees [OF inv, of s "[]"] obtain t where t: "free_devices K (scull_devices s) s = Some t"
    "klog t = klog s @ free_log K as" "devno t = devno s" by auto
  let ?t = "t\<lparr>klog := klog s @ free_log K as @ [?un]\<rparr>"
  have run: "init_fail K s = Some (- ENOMEM, ?t)" using t by (simp add: init_fail_def)
  obtain es where es: "klog s = l0 @ es" using inv by (auto simp: init_inv_def)
  have live: "live as = as" using inv by (simp add: init_inv_def live_id)
  have core: "ledger (core_eff K) (klog ?t) = Some (filter_mset not_cdev M)"
    using inv free_log_core [of K "add_mset (ChrRegion (devno s) NUM_DEVICES) (filter_mset not_cdev M)" as]
    by (simp add: ledger_from_append init_inv_def live restrict_eff_def)
  have "held K ?t = Some M" if "cdevs_added es" "ledger (keff K) l0 = Some M"
    using init_inv_held [OF inv es that] free_log_ledger [of K "add_mset (ChrRegion (devno s) NUM_DEVICES) M" as]
    by (simp add: ledger_from_append live)
  with core es have "accounts K M l0 ?t"
    unfolding accounts_def by (auto intro!: exI [of _ "es @ free_log K as @ [?un]"])
  with run show ?thesis by blast
qed

text \<open>One iteration that gets its memory.\<close>

lemma init_step:
  assumes inv: "init_inv K G M l0 i as rs s" and i: "i < NUM_DEVICES" and K: "kmalloc_fresh K"
    and a: "kmalloc_dev K G s = (a, s1)" "a \<noteq> NULL"
  shows "\<exists>s2 r. scull_setup_cdev K a i (s1\<lparr>scull_devices := (scull_devices s1)[i := a]\<rparr>) = Some s2 \<and>
    init_inv K G M l0 (Suc i) (as @ [a]) (rs @ [r]) s2"
proof -
  let ?ka = "k_u64 K (klog s) (Memc (Kmalloc ''scull_dev''))"
  from a have ka: "a = ?ka"
    and s1: "s1 = s\<lparr>klog := klog s @ [(Memc (Kmalloc ''scull_dev''), RU64 a)],
      heap := (heap s)(a \<mapsto> DevObj (G (klog s)))\<rparr>"
    by (auto simp: kmalloc_dev_def split: if_splits)
  have "Mem a \<notin># add_mset (ChrRegion (devno s) NUM_DEVICES) (filter_mset not_cdev M) + (\<Sum>a\<leftarrow>as. {#Mem a#})"
    using kmalloc_new [OF K] inv a(2) unfolding ka init_inv_def by blast
  then have new: "a \<notin> set as" using mem_in_sum [of a as] by auto
  have upd: "(as @ replicate (NUM_DEVICES - i) NULL)[i := a] =
      (as @ [a]) @ replicate (NUM_DEVICES - Suc i) NULL"
    using inv i by (simp add: init_inv_def list_update_append Suc_diff_Suc [symmetric])
  obtain es where es: "klog s = l0 @ es" "\<forall>j<i.
      (Chr (Cdev_add (cdev_ptr K (as ! j)) (MKDEV K (MAJOR K (devno s)) j) 1), RInt (rs ! j)) \<in> set es"
    using inv by (auto simp: init_inv_def)
  let ?pre = "[(Memc (Kmalloc ''scull_dev''), RU64 a), (Chr (Cdev_init (cdev_ptr K a) ''scull_fops''), RVoid)]"
  let ?add = "Chr (Cdev_add (cdev_ptr K a) (MKDEV K (MAJOR K (devno s)) i) 1)"
  define r where "r = k_int K (klog s @ ?pre) ?add"
  let ?s2 = "s\<lparr>klog := klog s @ ?pre @ [(?add, RInt r)], scull_devices := (scull_devices s)[i := a],
    heap := (heap s)(a \<mapsto> DevObj ((G (klog s))\<lparr>cdev_owner := ''THIS_MODULE''\<rparr>))\<rparr>"
  have run: "scull_setup_cdev K a i (s1\<lparr>scull_devices := (scull_devices s1)[i := a]\<rparr>) = Some ?s2"
    by (simp add: scull_setup_cdev_def s1 upd_dev_def get_dev_def r_def Let_def)
  have "\<forall>j<Suc i. (Chr (Cdev_add (cdev_ptr K ((as @ [a]) ! j)) (MKDEV K (MAJOR K (devno s)) j) 1), RInt ((rs @ [r]) ! j))
      \<in> set (es @ ?pre @ [(?add, RInt r)])"
    using es(2) inv by (auto simp: init_inv_def nth_append less_Suc_eq)
  then have hist: "\<exists>es'. klog ?s2 = l0 @ es' \<and> (\<forall>j<Suc i.
      (Chr (Cdev_add (cdev_ptr K ((as @ [a]) ! j)) (MKDEV K (MAJOR K (devno ?s2)) j) 1), RInt ((rs @ [r]) ! j)) \<in> set es')"
    using es(1) by (intro exI [of _ "es @ ?pre @ [(?add, RInt r)]"]) simp
  have objs: "\<forall>b\<in>set (as @ [a]). \<exists>l. heap ?s2 b = Some (DevObj ((G l)\<lparr>cdev_owner := ''THIS_MODULE''\<rparr>))"
    using inv new by (auto simp: init_inv_def)
  have core: "ledger (core_eff K) (klog ?s2) = Some (add_mset (ChrRegion (devno ?s2) NUM_DEVICES)
      (filter_mset not_cdev M) + (\<Sum>b\<leftarrow>as @ [a]. {#Mem b#}))"
    using inv a(2) by (simp add: init_inv_def restrict_eff_def)
  have full: "ledger (keff K) l0 = Some M \<longrightarrow> held K ?s2 = Some (add_mset (ChrRegion (devno ?s2) NUM_DEVICES) M +
      (\<Sum>x\<leftarrow>zip (as @ [a]) (rs @ [r]). added_res K x))"
    using inv a(2) by (simp add: init_inv_def added_res_def dev_res_def)
  have "init_inv K G M l0 (Suc i) (as @ [a]) (rs @ [r]) ?s2"
    unfolding init_inv_def using inv i new upd a(2) by (intro conjI hist objs core full) (simp_all add: init_inv_def)
  with run show ?thesis by blast
qed

lemma init_loop_ok:
  assumes K: "kmalloc_fresh K" and "init_inv K G M l0 i as rs s"
  shows "\<exists>r s'. init_loop K G i s = Some (r, s') \<and>
    (r = 0 \<and> (\<exists>as' rs'. init_inv K G M l0 NUM_DEVICES as' rs' s') \<or> r = - ENOMEM \<and> accounts K M l0 s')"
  using assms(2)
proof (induction "NUM_DEVICES - i" arbitrary: i as rs s)
  case 0
  then have "init_inv K G M l0 NUM_DEVICES as rs s" by (auto simp: init_inv_def)
  then show ?case using 0 by (auto simp: init_loop.simps [of K G i s])
next
  case (Suc n)
  then have i: "i < NUM_DEVICES" by simp
  obtain a s1 where a: "kmalloc_dev K G s = (a, s1)" by (cases "kmalloc_dev K G s")
  let ?s1 = "s1\<lparr>scull_devices := (scull_devices s1)[i := a]\<rparr>"
  show ?case
  proof (cases "a = NULL")
    case True
    have "init_inv K G M l0 i as rs ?s1"
      using Suc.prems a True i
      by (auto simp: init_inv_def kmalloc_dev_def clear_slot restrict_eff_def ledger_from_append split: if_splits)
    from init_fail_ok [OF this] show ?thesis
      using a True i by (subst init_loop.simps) auto
  next
    case False
    from init_step [OF Suc.prems i K a False] obtain s2 r where
      "scull_setup_cdev K a i ?s1 = Some s2" "init_inv K G M l0 (Suc i) (as @ [a]) (rs @ [r]) s2" by blast
    with Suc.hyps(1) [of "Suc i"] Suc.hyps(2) show ?thesis
      using a False i by (subst init_loop.simps) auto
  qed
qed

text \<open>Loading finds the static data zeroed.\<close>

definition scull_reset :: "scull_state \<Rightarrow> scull_state" where
  "scull_reset s = s\<lparr>devno := 0, scull_devices := replicate NUM_DEVICES NULL\<rparr>"

lemma scull_init_cases:
  assumes "kmalloc_fresh K" and "ledger (core_eff K) (klog s) = Some (filter_mset not_cdev M)"
  shows "\<exists>r s'. scull_init K G (scull_reset s) = Some (r, s') \<and>
    (r = 0 \<and> (\<exists>as rs. init_inv K G M (klog s) NUM_DEVICES as rs s') \<or> r \<noteq> 0 \<and> accounts K M (klog s) s')"
proof -
  let ?c = "Chr (Alloc_chrdev_region BASE_MINOR NUM_DEVICES ''scull'')"
  let ?r = "k_int K (klog s) ?c" and ?d = "k_out K (klog s) ?c"
  let ?s1 = "(scull_reset s)\<lparr>klog := klog s @ [(?c, RIntOut ?r ?d)], devno := ?d\<rparr>"
  have eq: "scull_init K G (scull_reset s) =
      (if ?r \<noteq> 0 then Some (?r, ?s1) else init_loop K G 0 ?s1)"
    by (simp add: scull_init_def scull_reset_def)
  show ?thesis
  proof (cases "?r = 0")
    case True
    then have "init_inv K G M (klog s) 0 [] [] ?s1"
      using assms(2) by (simp add: init_inv_def scull_reset_def restrict_eff_def)
    from init_loop_ok [OF assms(1) this] show ?thesis
      using True by (auto simp: eq)
  next
    case False
    then show ?thesis using assms(2) unfolding eq by (simp add: scull_reset_def accounts_def restrict_eff_def)
  qed
qed

lemma exit_frees:
  assumes inv: "init_inv K G M l0 NUM_DEVICES as rs s"
  shows "\<exists>s'. scull_exit K s = Some s' \<and> accounts K M l0 s' \<and>
    klog s' = klog s @ [(Chr (Unregister_chrdev_region (devno s) NUM_DEVICES), RVoid)] @ free_log K as"
proof -
  let ?un = "(Chr (Unregister_chrdev_region (devno s) NUM_DEVICES), RVoid)"
  let ?s1 = "s\<lparr>klog := klog s @ [?un]\<rparr>"
  from init_inv_frees [OF inv, of ?s1 "[?un]"] obtain t where t: "free_devices K (scull_devices s) ?s1 = Some t"
    "klog t = klog s @ [?un] @ free_log K as" by auto
  obtain es where es: "klog s = l0 @ es" using inv by (auto simp: init_inv_def)
  have live: "live as = as" using inv by (simp add: init_inv_def live_id)
  have core: "ledger (core_eff K) (klog t) = Some (filter_mset not_cdev M)"
    using inv free_log_core [of K "filter_mset not_cdev M" as]
    by (simp add: t(2) init_inv_def live restrict_eff_def)
  have "held K t = Some M" if "cdevs_added es" "ledger (keff K) l0 = Some M"
    using init_inv_held [OF inv es that] free_log_ledger [of K M as] by (simp add: t(2) live)
  with core es t(2) have "accounts K M l0 t"
    unfolding accounts_def by (auto intro!: exI [of _ "es @ [?un] @ free_log K as"])
  with t show ?thesis by (simp add: scull_exit_def)
qed

definition scull_loaded ::
    "linux \<Rightarrow> (kcall klog \<Rightarrow> scull_dev) \<Rightarrow> kevent list \<Rightarrow> res multiset \<Rightarrow> scull_state \<Rightarrow> bool" where
  "scull_loaded K G l0 M s \<longleftrightarrow>
     kmalloc_fresh K \<and> (\<exists>as rs s0. init_inv K G M (klog s0) NUM_DEVICES as rs s \<and> accounts K M l0 s0)"

interpretation scull: module_contract
  "scull_init K G" "scull_exit K" scull_reset "\<lambda>M s. kmalloc_fresh K \<and> accounts K M l0 s" "scull_loaded K G l0"
  for K G l0
proof (unfold_locales, goal_cases)
  case (1 M s)
  then show ?case using scull_init_cases [of K s M G] accounts_core by blast
next
  case (2 M s r s')
  then have "accounts K M (klog s) s'" using scull_init_cases [of K s M G] accounts_core by fastforce
  with 2 accounts_trans show ?case by blast
next
  case (3 M s s')
  then obtain as rs where "init_inv K G M (klog s) NUM_DEVICES as rs s'"
    using scull_init_cases [of K s M G] accounts_core by fastforce
  with 3 show ?case unfolding scull_loaded_def by blast
next
  case (4 M s)
  then obtain as rs s0 where inv: "init_inv K G M (klog s0) NUM_DEVICES as rs s" "accounts K M l0 s0" "kmalloc_fresh K"
    unfolding scull_loaded_def by blast
  from exit_frees [OF inv(1)] accounts_trans [OF _ inv(2)] inv(3) show ?case by blast
qed

section \<open>Properties\<close>

lemma qchain_not_dev: "qchain h qs p xs \<Longrightarrow> h a = Some (DevObj d) \<Longrightarrow> a \<notin> set (footprint xs)"
  by (induction xs arbitrary: p) (fastforce simp: footprint_def split: if_splits)+

text \<open>
  C1: on a device whose quantum sets form a chain of disjoint live objects, \<open>scull_trim\<close>
  returns 0, has freed every quantum, every array and every node exactly once and nothing
  else, and has reset the device: no data, size 0, quantum 4000, qset 1000.
\<close>

theorem scull_trim_correct:
  assumes "heap s dev = Some (DevObj d)" and "qchain (heap s) (qset d) (data d) xs"
    and "distinct (footprint xs)"
  shows "scull_trim dev s = Some (0, s\<lparr>
      klog := klog s @ freed (concat (map entry_frees xs)),
      heap := (removed (heap s) (set (footprint xs)))
        (dev \<mapsto> DevObj (d\<lparr>size := 0, quantum := 4000, qset := 1000, data := NULL\<rparr>))\<rparr>)"
  using scull_trim_frees [OF assms qchain_not_dev [OF assms(2,1)]] by (simp add: reset_dev_def)

text \<open>A device with one quantum set of two slots, one of them filled.\<close>

definition small_dev :: scull_dev where
  "small_dev = \<lparr>data = 16, quantum = 4000, qset = 2, size = 5, access_key = 0, cdev_owner = []\<rparr>"

definition small_state :: scull_state where
  "small_state = \<lparr>klog = [], devno = 0, scull_devices = [8, 0, 0, 0],
     heap = [8 \<mapsto> DevObj small_dev, 16 \<mapsto> QsetObj \<lparr>qdata = 32, qnext = 0\<rparr>,
       32 \<mapsto> PtrArray [0, 48], 48 \<mapsto> Quantum],
     private_data = Map.empty, umem = (\<lambda>a. CHR ''x'')\<rparr>"

abbreviation small_chain :: chain where
  "small_chain \<equiv> [(16, 32, [0, 48])]"

lemma small_state_wf:
  "heap small_state 8 = Some (DevObj small_dev)"
  "qchain (heap small_state) (qset small_dev) (data small_dev) small_chain"
  "distinct (footprint small_chain)"
  by (simp_all add: small_state_def small_dev_def footprint_def)

theorem scull_trim_correct_witness:
  "\<exists>s'. scull_trim 8 small_state = Some (0, s') \<and> heap s' 8 = Some (DevObj (reset_dev small_dev)) \<and>
     heap s' 16 = None \<and> heap s' 32 = None \<and> heap s' 48 = None"
  using scull_trim_correct [OF small_state_wf]
  by (simp add: reset_dev_def footprint_def removed_def)

text \<open>
  C10: whatever the answers of the kernel (as long as \<open>kmalloc\<close> hands out no block that is allocated), any number of
  load attempts and unloads of the module runs through without touching freed memory, and leaves the kernel holding what it held
  before: always the same memory and device numbers, and the same \<open>cdev\<close>s too if no \<open>cdev_add\<close> has failed. (What happens
  when one has failed: \<open>scull_exit_deletes_unadded_cdev\<close>.)
\<close>

theorem scull_load_unload_balanced:
  assumes "kmalloc_fresh K" and "held K s = Some M"
  shows "\<exists>s' es. module_cycles (scull_init K G) (scull_exit K) scull_reset n s = Some s' \<and>
    klog s' = klog s @ es \<and> ledger (core_eff K) (klog s') = Some (filter_mset not_cdev M) \<and>
    (cdevs_added es \<longrightarrow> held K s' = Some M)"
proof -
  obtain s' where "module_cycles (scull_init K G) (scull_exit K) scull_reset n s = Some s'" "accounts K M (klog s) s'"
    using scull.cycles_keep_idle [of K M "klog s" s G n] assms accounts_refl by blast
  with assms(2) show ?thesis unfolding accounts_def by blast
qed

theorem scull_load_unload_balanced_witness:
  "\<exists>s' es. module_cycles (scull_init good_kernel (\<lambda>l. small_dev)) (scull_exit good_kernel)
     scull_reset 3 small_state = Some s' \<and> klog s' = klog small_state @ es \<and>
     ledger (core_eff good_kernel) (klog s') = Some {#}"
proof -
  have "held good_kernel small_state = Some {#}" by (simp add: small_state_def)
  from scull_load_unload_balanced [OF sample_kernel_fresh(1) this, of "\<lambda>l. small_dev" 3] show ?thesis by auto
qed

text \<open>
  After a successful load, slot \<open>i\<close> of \<open>scull_devices\<close> holds a distinct live device for
  every \<open>i\<close> below 4, and the kernel was asked to serve it under the allocated major number
  and minor \<open>i\<close>, the numbers \<open>dynamic_device_alloc.sh\<close> makes its nodes with.
\<close>

theorem scull_init_registers:
  assumes "kmalloc_fresh K" and "held K s = Some M"
    and "scull_init K G (scull_reset s) = Some (0, s')" and "i < 4"
  shows "distinct (scull_devices s') \<and> scull_devices s' ! i \<noteq> NULL \<and>
    heap s' (scull_devices s' ! i) \<noteq> None \<and>
    (\<exists>r. (Chr (Cdev_add (cdev_ptr K (scull_devices s' ! i)) (MKDEV K (MAJOR K (devno s')) i) 1), RInt r)
      \<in> set (klog s'))"
proof -
  from scull_init_cases [OF assms(1) core_keeps [OF assms(2)], of G] assms(3) obtain as rs where
    inv: "init_inv K G M (klog s) NUM_DEVICES as rs s'" by auto
  then have eq: "scull_devices s' = as" and "length as = NUM_DEVICES" by (auto simp: init_inv_def)
  with assms(4) have mem: "as ! i \<in> set as" by simp
  then have "as ! i \<noteq> NULL" and "heap s' (as ! i) \<noteq> None"
    using inv by (auto simp: init_inv_def simp del: nth_mem)
  moreover obtain es where "klog s' = klog s @ es" "(Chr (Cdev_add (cdev_ptr K (as ! i)) (MKDEV K (MAJOR K (devno s')) i) 1),
      RInt (rs ! i)) \<in> set es" using inv assms(4) by (auto simp: init_inv_def)
  then have "\<exists>r. (Chr (Cdev_add (cdev_ptr K (as ! i)) (MKDEV K (MAJOR K (devno s')) i) 1), RInt r) \<in> set (klog s')"
    by auto
  ultimately show ?thesis using inv unfolding eq by (simp add: init_inv_def)
qed

definition scull_blank :: scull_state where
  "scull_blank = \<lparr>klog = [], devno = 0, scull_devices = replicate NUM_DEVICES NULL,
     heap = Map.empty, private_data = Map.empty, umem = (\<lambda>a. CHR ''x'')\<rparr>"

lemma good_kernel_scull: "held K scull_blank = Some {#}"
  by (simp add: scull_blank_def)

lemma replicate_4: "replicate 4 x = [x, x, x, x]"
  by (simp add: numeral_eq_Suc)

lemma scull_blank_loads:
  "\<exists>s'. scull_init good_kernel G (scull_reset scull_blank) = Some (0, s') \<and>
     scull_devices s' = [4096, 8192, 12288, 16384] \<and> heap s' 16 = None"
  by (simp add: scull_init_def scull_reset_def scull_blank_def init_loop.simps kmalloc_dev_def
    scull_setup_cdev_def upd_dev_def get_dev_def replicate_4)

theorem scull_init_registers_witness:
  "\<exists>s'. scull_init good_kernel (\<lambda>l. small_dev) (scull_reset scull_blank) = Some (0, s') \<and>
     (\<exists>r. (Chr (Cdev_add 12352 (MKDEV good_kernel (MAJOR good_kernel (devno s')) 2) 1), RInt r)
       \<in> set (klog s'))"
proof -
  obtain s' where s': "scull_init good_kernel (\<lambda>l. small_dev) (scull_reset scull_blank) = Some (0, s')"
    "scull_devices s' = [4096, 8192, 12288, 16384]"
    using scull_blank_loads by blast
  from scull_init_registers [OF sample_kernel_fresh(1) good_kernel_scull s'(1), of 2] s' show ?thesis
    by (simp add: cdev_ptr_def)
qed

text \<open>
  Function \<open>open\<close> finds the device its \<open>cdev\<close> is embedded in and stores it as the file's private
  data; opened write-only, a well-formed device comes out empty, opened in any other mode
  it keeps its contents.
\<close>

theorem scull_open_behaviour:
  assumes "heap s dev = Some (DevObj d)" and "qchain (heap s) (qset d) (data d) xs"
    and "distinct (footprint xs)"
  shows "\<exists>s'. scull_open K (cdev_ptr K dev) filp f_flags s = Some (0, s') \<and>
    private_data s' filp = Some dev \<and>
    (if f_flags AND 3 = 1
     then heap s' = (removed (heap s) (set (footprint xs)))(dev \<mapsto> DevObj (reset_dev d))
     else heap s' = heap s)"
  using scull_trim_frees [of "s\<lparr>private_data := (private_data s)(filp \<mapsto> dev)\<rparr>" dev d xs]
    assms qchain_not_dev [OF assms(2,1)]
  by (cases "f_flags AND 3 = 1") (simp_all add: scull_open_def container_of_cdev_def cdev_ptr_def)

theorem scull_open_behaviour_witness:
  "\<exists>s'. scull_open good_kernel (cdev_ptr good_kernel 8) 99 1 small_state = Some (0, s') \<and>
     private_data s' 99 = Some 8 \<and> heap s' 48 = None"
  using scull_open_behaviour [OF small_state_wf, of good_kernel 99 1]
  by (auto simp: footprint_def removed_def)

text \<open>
  C30: the devices are allocated with \<open>kmalloc\<close> and nothing initialises \<open>data\<close>: when the
  block happens to contain a non-null pointer to nothing, the first write-only \<open>open\<close> of any
  of the four devices follows that pointer.
\<close>

theorem scull_open_follows_garbage:
  assumes "kmalloc_fresh K" and "held K s = Some M"
    and "scull_init K G (scull_reset s) = Some (0, s')" and "i < 4"
    and "\<And>l. data (G l) = p" and "p \<noteq> NULL" and "heap s' p = None"
  shows "scull_open K (cdev_ptr K (scull_devices s' ! i)) filp 1 s' = None"
proof -
  let ?dev = "scull_devices s' ! i"
  from scull_init_cases [OF assms(1) core_keeps [OF assms(2)], of G] assms(3) obtain as rs where
    inv: "init_inv K G M (klog s) NUM_DEVICES as rs s'" by auto
  then have "?dev \<in> set as" using assms(4) by (simp add: init_inv_def)
  with inv obtain l where dev: "heap s' ?dev = Some (DevObj ((G l)\<lparr>cdev_owner := ''THIS_MODULE''\<rparr>))"
    by (auto simp: init_inv_def)
  have "trim_list p qs t = None" if "heap t p = None" for qs t
    using that assms(6) by (simp add: trim_list.simps trim_node_def get_qset_def)
  with dev assms(5,7) show ?thesis
    by (simp add: scull_open_def container_of_cdev_def cdev_ptr_def scull_trim_def get_dev_def)
qed

theorem scull_open_follows_garbage_witness:
  "\<exists>s'. scull_init good_kernel (\<lambda>l. small_dev) (scull_reset scull_blank) = Some (0, s') \<and>
     scull_open good_kernel (cdev_ptr good_kernel (scull_devices s' ! 3)) 99 1 s' = None"
proof -
  obtain s' where s': "scull_init good_kernel (\<lambda>l. small_dev) (scull_reset scull_blank) = Some (0, s')"
    "heap s' 16 = None"
    using scull_blank_loads [of "\<lambda>l. small_dev"] by blast
  then show ?thesis
    using scull_open_follows_garbage [OF sample_kernel_fresh(1) good_kernel_scull s'(1), of 3 16 99]
    by (simp add: small_dev_def)
qed

text \<open>
  C40: \<open>scull_setup_cdev\<close> only prints a message when \<open>cdev_add\<close> fails, and the load succeeds all the same. When none of the
  \<open>cdev_add\<close>s of a successful load has succeeded (with a \<open>kmalloc\<close> that hands out no allocated block, and no \<open>cdev\<close> held
  before), unloading deletes \<open>cdev\<close>s that were never added.
\<close>

theorem scull_exit_deletes_unadded_cdev:
  assumes "kmalloc_fresh K" and "held K s = Some M" and "\<And>c. Cdev c \<notin># M"
    and "scull_init K G (scull_reset s) = Some (0, s')" and "klog s' = klog s @ es"
    and "\<And>c d n. (Chr (Cdev_add c d n), RInt 0) \<notin> set es"
  shows "\<exists>s''. scull_exit K s' = Some s'' \<and> held K s'' = None"
proof -
  from scull_init_cases [OF assms(1) core_keeps [OF assms(2)], of G] assms(4) obtain as rs where
    inv: "init_inv K G M (klog s) NUM_DEVICES as rs s'" by auto
  then have len: "length rs = length as" "length as = NUM_DEVICES" by (simp_all add: init_inv_def)
  have "\<forall>r\<in>set rs. r \<noteq> 0"
  proof
    fix r
    assume "r \<in> set rs"
    then obtain c d where "(Chr (Cdev_add c d 1), RInt r) \<in> set es" by (rule answer_logged [OF inv assms(5)])
    with assms(6) show "r \<noteq> 0" by blast
  qed
  from not_added [OF len(1) this] inv assms(2)
  have held: "held K s' = Some (add_mset (ChrRegion (devno s') NUM_DEVICES) M + (\<Sum>a\<leftarrow>as. {#Mem a#}))"
    by (simp add: init_inv_def)
  obtain a as' where as: "as = a # as'" "a \<noteq> NULL" using inv len(2) by (cases as) (auto simp: init_inv_def)
  have "Cdev c \<notin># M + (\<Sum>a\<leftarrow>as. {#Mem a#})" for c using assms(3) by (induction as) auto
  with exit_frees [OF inv] held as show ?thesis by (auto simp: free_log_def)
qed

abbreviation no_cdev_kernel :: linux where
  "no_cdev_kernel \<equiv> sample_kernel (\<lambda>c. case c of Chr (Cdev_add x d n) \<Rightarrow> - 12 | _ \<Rightarrow> 0)"

theorem scull_exit_deletes_unadded_cdev_witness:
  "\<exists>s' s''. scull_init no_cdev_kernel (\<lambda>l. small_dev) (scull_reset scull_blank) = Some (0, s') \<and>
     scull_exit no_cdev_kernel s' = Some s'' \<and> held no_cdev_kernel s'' = None"
proof -
  have "\<exists>s'. scull_init no_cdev_kernel (\<lambda>l. small_dev) (scull_reset scull_blank) = Some (0, s') \<and>
      (\<forall>c d n. (Chr (Cdev_add c d n), RInt 0) \<notin> set (klog s'))"
    by (simp add: scull_init_def scull_reset_def scull_blank_def init_loop.simps kmalloc_dev_def
      scull_setup_cdev_def upd_dev_def get_dev_def replicate_4)
  then obtain s' where s': "scull_init no_cdev_kernel (\<lambda>l. small_dev) (scull_reset scull_blank) = Some (0, s')"
    "\<forall>c d n. (Chr (Cdev_add c d n), RInt 0) \<notin> set (klog s')" by blast
  have "klog s' = klog scull_blank @ klog s'" by (simp add: scull_blank_def)
  from scull_exit_deletes_unadded_cdev [OF sample_kernel_fresh(1) good_kernel_scull _ s'(1) this] s' show ?thesis
    by auto
qed

text \<open>
  \<open>read\<close> ignores the requested length and the file position: unless the copy faults it
  stores the 22 bytes of the message, NUL included, at the user's address and reports 22,
  also when fewer bytes were requested; a second read gives the same again.
\<close>

lemma store_bytes_before:
  "i < j \<Longrightarrow> j + length cs \<le> 2 ^ 64 \<Longrightarrow> store_bytes (a + of_nat j) cs m (a + of_nat i) = m (a + of_nat i)"
proof (induction cs arbitrary: j m)
  case Nil
  then show ?case by simp
next
  case (Cons c cs)
  have ne: "(of_nat i :: ptr) \<noteq> of_nat j"
    using Cons.prems by (simp add: word_of_nat_eq_iff take_bit_eq_mod)
  have "store_bytes (a + of_nat (Suc j)) cs (m(a + of_nat j := c)) (a + of_nat i) = m (a + of_nat i)"
    using Cons.prems ne by (subst Cons.IH) auto
  then show ?case by (simp add: ac_simps)
qed

lemma store_bytes_nth:
  "i < length cs \<Longrightarrow> length cs \<le> 2 ^ 64 \<Longrightarrow> store_bytes a cs m (a + of_nat i) = cs ! i"
proof (induction cs arbitrary: a i m)
  case Nil
  then show ?case by simp
next
  case (Cons c cs)
  show ?case
  proof (cases i)
    case 0
    then show ?thesis using store_bytes_before [of 0 1 cs a] Cons.prems by simp
  next
    case (Suc j)
    then show ?thesis using Cons.IH [of j "a + 1"] Cons.prems by (simp add: ac_simps)
  qed
qed

theorem scull_read_ignores_count:
  "\<exists>s'. scull_read K filp buf cnt f_pos s =
     (if k_u64 K (klog s) (Memc (Copy_to_user buf (scull_msg @ [CHR 0x00]))) = 0
      then Some (22, s') else Some (- 14, s')) \<and>
   (k_u64 K (klog s) (Memc (Copy_to_user buf (scull_msg @ [CHR 0x00]))) = 0 \<longrightarrow>
     (\<forall>i<22. umem s' (buf + of_nat i) = (scull_msg @ [CHR 0x00]) ! i))"
proof -
  have len: "length scull_msg = 21" by (simp add: scull_msg_def)
  show ?thesis
    using store_bytes_nth [of _ "scull_msg @ [CHR 0x00]" buf "umem s"]
    by (auto simp: scull_read_def len Let_def)
qed

abbreviation copying_kernel :: linux where
  "copying_kernel \<equiv> good_kernel\<lparr>k_u64 := \<lambda>l c. 0\<rparr>"

theorem scull_read_ignores_count_witness:
  "\<exists>s'. scull_read copying_kernel 99 4096 1 0 scull_blank = Some (22, s') \<and>
     umem s' (4096 + of_nat 20) = CHR 0x0A"
  using scull_read_ignores_count [of copying_kernel 99 4096 1 0 scull_blank]
  by (auto simp: scull_msg_def dest: spec [of _ 20])

end
