(* ===== verification/Session.thy ===== *)
theory Session
  imports Prelude
begin

text \<open>
  Clients of a driver as state machines. A client (the virtual file system, the network
  stack, an application) makes calls one after the other; \<open>may e s\<close> says which call it
  is entitled to make in a state, \<open>step e s\<close> is what the driver does with it, \<open>None\<close> where
  the driver runs into undefined behaviour. A \<open>session\<close> is a sequence of such calls.

  The locales are the promises of a driver to such a client. In \<open>preserved\<close> an invariant that may
  depend on the calls made so far is kept by every call the client is entitled to, if the call
  has an outcome; in \<open>served\<close> every such call has one. Their lemmas follow whole sessions by rule
  induction.
\<close>

section \<open>Sessions\<close>

inductive client_step ::
    "('e \<Rightarrow> 's \<Rightarrow> bool) \<Rightarrow> ('e \<Rightarrow> 's \<Rightarrow> 's option) \<Rightarrow> 's \<Rightarrow> 'e \<Rightarrow> 's \<Rightarrow> bool"
  for may step
where
  client_call: "may e s \<Longrightarrow> step e s = Some s' \<Longrightarrow> client_step may step s e s'"

inductive_simps client_step_iff: "client_step may step s e s'"

inductive session ::
    "('e \<Rightarrow> 's \<Rightarrow> bool) \<Rightarrow> ('e \<Rightarrow> 's \<Rightarrow> 's option) \<Rightarrow> 's \<Rightarrow> 'e list \<Rightarrow> 's \<Rightarrow> bool"
  for may step
where
  session_start: "session may step s [] s"
| session_call: "session may step s es t \<Longrightarrow> client_step may step t e u \<Longrightarrow>
    session may step s (es @ [e]) u"

inductive_cases session_snocE: "session may step s (es @ [e]) u"

text \<open>The executable form: run the calls, stop at the first one that is not entitled or undefined.\<close>

primrec run_session ::
    "('e \<Rightarrow> 's \<Rightarrow> bool) \<Rightarrow> ('e \<Rightarrow> 's \<Rightarrow> 's option) \<Rightarrow> 'e list \<Rightarrow> 's \<Rightarrow> 's option" where
  "run_session may step [] s = Some s"
| "run_session may step (e # es) s =
     (if may e s then (case step e s of None \<Rightarrow> None | Some s' \<Rightarrow> run_session may step es s') else None)"

lemma run_session_append:
  "run_session may step (es @ fs) s =
     (case run_session may step es s of None \<Rightarrow> None | Some t \<Rightarrow> run_session may step fs t)"
  by (induction es arbitrary: s) (auto split: option.split)

lemma session_iff_run: "session may step s es t \<longleftrightarrow> run_session may step es s = Some t"
proof
  assume "session may step s es t"
  then show "run_session may step es s = Some t"
    by induction (auto simp: run_session_append client_step_iff)
next
  show "run_session may step es s = Some t \<Longrightarrow> session may step s es t"
  proof (induction es arbitrary: t rule: rev_induct)
    case Nil
    then show ?case by (simp add: session_start)
  next
    case (snoc e es)
    then obtain u where "run_session may step es s = Some u" "may e u" "step e u = Some t"
      by (auto simp: run_session_append split: option.splits if_splits)
    with snoc.IH show ?case by (blast intro: session.intros client_call)
  qed
qed

section \<open>The contract\<close>

text \<open>
  \<open>preserved\<close> promises the invariant after every call that has an outcome; it says nothing of
  calls that have none. \<open>served\<close> promises an outcome too.
\<close>

locale preserved =
  fixes may :: "'e \<Rightarrow> 's \<Rightarrow> bool"
    and step :: "'e \<Rightarrow> 's \<Rightarrow> 's option"
    and inv :: "'e list \<Rightarrow> 's \<Rightarrow> bool"
  assumes call_keeps: "inv es s \<Longrightarrow> may e s \<Longrightarrow> step e s = Some s' \<Longrightarrow> inv (es @ [e]) s'"
begin

lemma session_inv: "session may step s es t \<Longrightarrow> inv [] s \<Longrightarrow> inv es t"
proof (induction rule: session.induct)
  case (session_start s)
  then show ?case .
next
  case (session_call s es t e u)
  then show ?case using call_keeps [of es t e u] by (auto simp: client_step_iff)
qed

end

locale served =
  fixes may :: "'e \<Rightarrow> 's \<Rightarrow> bool"
    and step :: "'e \<Rightarrow> 's \<Rightarrow> 's option"
    and inv :: "'e list \<Rightarrow> 's \<Rightarrow> bool"
  assumes call_ok: "inv es s \<Longrightarrow> may e s \<Longrightarrow> \<exists>s'. step e s = Some s' \<and> inv (es @ [e]) s'"

sublocale served \<subseteq> preserved may step inv
  by unfold_locales (auto dest: call_ok)

context served
begin

lemma never_stuck: "session may step s es t \<Longrightarrow> inv [] s \<Longrightarrow> may e t \<Longrightarrow> \<exists>u. step e t = Some u"
  using session_inv call_ok by blast

end

end
