(* ===== verification/Scull_Session.thy ===== *)
theory Scull_Session
  imports Scull Session
begin

text \<open>
  The SCULL driver in use: the operation table \<open>scull_fops\<close> of \<open>main.h\<close>, the virtual file
  system as its client, and the memory of the four devices through whole sessions of opens,
  reads, writes and releases, from loading the module to unloading it.

  The type invariant \<open>scull_ok\<close> says that the four devices are live and distinct, that each
  has a well-formed chain of quantum sets, that no two chains share an object, and that the
  kernel's ledger holds exactly these objects for the driver.
\<close>

unbundle bit_operations_syntax

section \<open>main.h: the operation table\<close>

record file_operations =
  fop_owner :: string
  fop_read :: "ptr \<Rightarrow> ptr \<Rightarrow> u64 \<Rightarrow> u64 \<Rightarrow> scull_state \<Rightarrow> (int \<times> scull_state) option"
  fop_write :: "ptr \<Rightarrow> ptr \<Rightarrow> u64 \<Rightarrow> u64 \<Rightarrow> scull_state \<Rightarrow> (int \<times> scull_state) option"
  fop_open :: "ptr \<Rightarrow> ptr \<Rightarrow> u32 \<Rightarrow> scull_state \<Rightarrow> (int \<times> scull_state) option"
  fop_release :: "ptr \<Rightarrow> ptr \<Rightarrow> scull_state \<Rightarrow> (int \<times> scull_state) option"

definition scull_fops :: "linux \<Rightarrow> file_operations" where
  "scull_fops K = \<lparr>fop_owner = ''THIS_MODULE'', fop_read = scull_read K, fop_write = scull_write,
     fop_open = scull_open K, fop_release = scull_release\<rparr>"

section \<open>The virtual file system as a client\<close>

text \<open>
  \<open>files\<close> maps an open file to the \<open>cdev\<close> of its inode. A file is opened on one of the
  registered devices, and read, written and released only while it is open.
\<close>

datatype vfs_call =
    Vfs_open ptr ptr u32
  | Vfs_read ptr ptr u64 u64
  | Vfs_write ptr ptr u64 u64
  | Vfs_release ptr

type_synonym vfs_state = "(ptr \<rightharpoonup> ptr) \<times> scull_state"

fun vfs_may :: "linux \<Rightarrow> vfs_call \<Rightarrow> vfs_state \<Rightarrow> bool" where
  "vfs_may K (Vfs_open c f flags) (files, s) \<longleftrightarrow>
     files f = None \<and> c \<in> cdev_ptr K ` set (scull_devices s)"
| "vfs_may K (Vfs_read f buf cnt pos) (files, s) \<longleftrightarrow> files f \<noteq> None"
| "vfs_may K (Vfs_write f buf cnt pos) (files, s) \<longleftrightarrow> files f \<noteq> None"
| "vfs_may K (Vfs_release f) (files, s) \<longleftrightarrow> files f \<noteq> None"

fun vfs_step :: "file_operations \<Rightarrow> vfs_call \<Rightarrow> vfs_state \<Rightarrow> vfs_state option" where
  "vfs_step ops (Vfs_open c f flags) (files, s) = (case fop_open ops c f flags s of
     None \<Rightarrow> None | Some (r, s') \<Rightarrow> Some (if r = 0 then files(f \<mapsto> c) else files, s'))"
| "vfs_step ops (Vfs_read f buf cnt pos) (files, s) = (case fop_read ops f buf cnt pos s of
     None \<Rightarrow> None | Some (r, s') \<Rightarrow> Some (files, s'))"
| "vfs_step ops (Vfs_write f buf cnt pos) (files, s) = (case fop_write ops f buf cnt pos s of
     None \<Rightarrow> None | Some (r, s') \<Rightarrow> Some (files, s'))"
| "vfs_step ops (Vfs_release f) (files, s) = (case fop_release ops (the (files f)) f s of
     None \<Rightarrow> None | Some (r, s') \<Rightarrow> Some (files(f := None), s'))"

section \<open>The type invariant\<close>

definition chain_mem :: "chain \<Rightarrow> res multiset" where
  "chain_mem xs = image_mset Mem (mset (footprint xs))"

definition scull_ok ::
    "linux \<Rightarrow> res multiset \<Rightarrow> ptr list \<Rightarrow> (ptr \<Rightarrow> chain) \<Rightarrow> scull_state \<Rightarrow> bool" where
  "scull_ok K M as C s \<longleftrightarrow> scull_devices s = as \<and> length as = NUM_DEVICES \<and>
     NULL \<notin> set as \<and> distinct as \<and>
     (\<forall>a\<in>set as. \<exists>d. heap s a = Some (DevObj d) \<and> qchain (heap s) (qset d) (data d) (C a)) \<and>
     distinct (concat (map (\<lambda>a. footprint (C a)) as)) \<and>
     held K s = Some (add_mset (ChrRegion (devno s) NUM_DEVICES) M +
       (\<Sum>a\<leftarrow>as. dev_res K a + chain_mem (C a)))"

lemma qchain_upd_dev:
  "qchain h qs p xs \<Longrightarrow> h a = Some (DevObj d) \<Longrightarrow> qchain (h(a \<mapsto> DevObj d')) qs p xs"
  by (induction xs arbitrary: p) (fastforce split: if_splits)+

lemma distinct_concat_disjoint:
  "distinct (concat (map f as)) \<Longrightarrow> distinct as \<Longrightarrow> a \<in> set as \<Longrightarrow> b \<in> set as \<Longrightarrow> a \<noteq> b \<Longrightarrow>
   set (f a) \<inter> set (f b) = {}"
  by (induction as) fastforce+

lemma distinct_concat_elem:
  "distinct (concat (map f as)) \<Longrightarrow> a \<in> set as \<Longrightarrow> distinct (f a)"
  by (induction as) auto

lemma distinct_concat_clear:
  "distinct (concat (map f as)) \<Longrightarrow> distinct (concat (map (f(a := [])) as))"
  by (induction as) fastforce+

text \<open>Freeing a list of pointers, null pointers among them, gives back their memory.\<close>

lemma ledger_freed:
  "ledger_from (keff K) (Some (M + image_mset Mem (mset (live ps)))) (freed ps) = Some M"
  by (induction ps) (auto simp: freed_def)

lemma chain_frees_footprint:
  "qchain h qs p xs \<Longrightarrow> mset (live (concat (map entry_frees xs))) = mset (footprint xs)"
  by (induction xs arbitrary: p) (auto simp: footprint_def split: if_splits)

section \<open>Every operation keeps it\<close>

lemma sum_list_remove:
  "distinct as \<Longrightarrow> a \<in> set as \<Longrightarrow>
   (\<Sum>x\<leftarrow>as. f x) = f a + (\<Sum>x\<leftarrow>as. (f(a := (0 :: 'm :: comm_monoid_add))) x)"
proof (induction as)
  case Nil
  then show ?case by simp
next
  case (Cons b as)
  show ?case
  proof (cases "a = b")
    case True
    with Cons.prems have "(\<Sum>x\<leftarrow>as. (f(a := 0)) x) = (\<Sum>x\<leftarrow>as. f x)"
      by (intro arg_cong [where f = sum_list] map_cong) auto
    with True show ?thesis by simp
  next
    case False
    with Cons show ?thesis by (simp add: ac_simps)
  qed
qed

lemma scull_ok_private:
  "scull_ok K M as C (s\<lparr>private_data := P\<rparr>) = scull_ok K M as C s"
  by (simp add: scull_ok_def)

text \<open>Emptying one device does not disturb the others, and gives back exactly its memory.\<close>

lemma trim_keeps_devices:
  assumes ok: "scull_ok K M as C s" and a: "a \<in> set as" "heap s a = Some (DevObj d)"
    and chain: "qchain (heap s) (qset d) (data d) (C a)" and b: "b \<in> set as"
    and h: "h = (removed (heap s) (set (footprint (C a))))(a \<mapsto> DevObj (reset_dev d))"
  shows "\<exists>d. h b = Some (DevObj d) \<and> qchain h (qset d) (data d) ((C(a := [])) b)"
proof (cases "b = a")
  case True
  then show ?thesis by (simp add: h reset_dev_def)
next
  case False
  from ok b obtain e where e: "heap s b = Some (DevObj e)"
    and ch: "qchain (heap s) (qset e) (data e) (C b)" by (auto simp: scull_ok_def)
  have "set (footprint (C a)) \<inter> set (footprint (C b)) = {}"
    using distinct_concat_disjoint [of "\<lambda>a. footprint (C a)" as a b] ok a b False
    by (simp add: scull_ok_def)
  from qchain_removed [OF ch this] have "qchain h (qset e) (data e) (C b)"
    unfolding h using a(2) qchain_not_dev [OF chain a(2)] by (intro qchain_upd_dev [of _ _ _ _ a d]) simp_all
  with False e qchain_not_dev [OF chain e] show ?thesis by (simp add: h)
qed

lemma trim_keeps_ledger:
  assumes ok: "scull_ok K M as C s" and a: "a \<in> set as"
    and chain: "qchain h qs p (C a)"
  shows "ledger_from (keff K) (held K s) (freed (concat (map entry_frees (C a)))) =
    Some (add_mset (ChrRegion (devno s) NUM_DEVICES) M +
      (\<Sum>b\<leftarrow>as. dev_res K b + chain_mem ((C(a := [])) b)))"
proof -
  let ?f = "\<lambda>b. chain_mem (C b)"
  let ?R = "add_mset (ChrRegion (devno s) NUM_DEVICES) M +
    (\<Sum>b\<leftarrow>as. dev_res K b + chain_mem ((C(a := [])) b))"
  have "(\<Sum>b\<leftarrow>as. ?f b) = ?f a + (\<Sum>b\<leftarrow>as. (?f(a := {#})) b)"
    using ok by (intro sum_list_remove [OF _ a]) (simp add: scull_ok_def)
  also have "?f(a := {#}) = (\<lambda>b. chain_mem ((C(a := [])) b))"
    by (auto simp: chain_mem_def footprint_def)
  also have "?f a = image_mset Mem (mset (live (concat (map entry_frees (C a)))))"
    using chain_frees_footprint [OF chain] by (simp add: chain_mem_def)
  finally have "held K s = Some (?R + image_mset Mem (mset (live (concat (map entry_frees (C a))))))"
    using ok by (simp add: scull_ok_def sum_list_addf ac_simps)
  then show ?thesis using ledger_freed [of K ?R "concat (map entry_frees (C a))"] by simp
qed

lemma trim_keeps_ok:
  assumes ok: "scull_ok K M as C s" and a: "a \<in> set as"
  shows "\<exists>s'. scull_trim a s = Some (0, s') \<and> scull_ok K M as (C(a := [])) s' \<and>
    private_data s' = private_data s"
proof -
  from ok a obtain d where d: "heap s a = Some (DevObj d)"
    and chain: "qchain (heap s) (qset d) (data d) (C a)" by (auto simp: scull_ok_def)
  let ?s = "s\<lparr>klog := klog s @ freed (concat (map entry_frees (C a))),
    heap := (removed (heap s) (set (footprint (C a))))(a \<mapsto> DevObj (reset_dev d))\<rparr>"
  have dist: "distinct (concat (map (\<lambda>a. footprint (C a)) as))" using ok by (simp add: scull_ok_def)
  have run: "scull_trim a s = Some (0, ?s)"
    using scull_trim_frees [OF d chain _ qchain_not_dev [OF chain d]] distinct_concat_elem [OF dist a]
    by simp
  have "\<forall>b\<in>set as. \<exists>d. heap ?s b = Some (DevObj d) \<and> qchain (heap ?s) (qset d) (data d) ((C(a := [])) b)"
    using trim_keeps_devices [OF ok a d chain] by simp
  moreover have "distinct (concat (map (\<lambda>b. footprint ((C(a := [])) b)) as))"
    using distinct_concat_clear [OF dist, of a]
    by (simp add: fun_upd_def if_distrib footprint_def cong: if_cong)
  ultimately have "scull_ok K M as (C(a := [])) ?s"
    using ok trim_keeps_ledger [OF ok a chain] unfolding scull_ok_def by simp
  with run show ?thesis by simp
qed

text \<open>A device that the session has opened write-only has been emptied; the others are as before.\<close>

definition emptied :: "linux \<Rightarrow> vfs_call list \<Rightarrow> ptr \<Rightarrow> bool" where
  "emptied K es a = list_ex (\<lambda>e. case e of
     Vfs_open c f flags \<Rightarrow> c = cdev_ptr K a \<and> flags AND O_ACCMODE = O_WRONLY | _ \<Rightarrow> False) es"

definition chains_after :: "linux \<Rightarrow> (ptr \<Rightarrow> chain) \<Rightarrow> vfs_call list \<Rightarrow> ptr \<Rightarrow> chain" where
  "chains_after K C es = (\<lambda>a. if emptied K es a then [] else C a)"

text \<open>Every open file knows its device.\<close>

definition files_ok :: "linux \<Rightarrow> ptr list \<Rightarrow> vfs_state \<Rightarrow> bool" where
  "files_ok K as x \<longleftrightarrow> (case x of (files, s) \<Rightarrow>
     \<forall>f c. files f = Some c \<longrightarrow> (\<exists>a\<in>set as. c = cdev_ptr K a \<and> private_data s f = Some a))"

definition vfs_ok ::
    "linux \<Rightarrow> res multiset \<Rightarrow> ptr list \<Rightarrow> (ptr \<Rightarrow> chain) \<Rightarrow> vfs_call list \<Rightarrow> vfs_state \<Rightarrow> bool" where
  "vfs_ok K M as C es x \<longleftrightarrow> scull_ok K M as (chains_after K C es) (snd x) \<and> files_ok K as x"

lemma cdev_ptr_inj [simp]: "cdev_ptr K a = cdev_ptr K b \<longleftrightarrow> a = b"
  by (simp add: cdev_ptr_def)

lemma container_of_cdev_ptr [simp]: "container_of_cdev K (cdev_ptr K a) = a"
  by (simp add: container_of_cdev_def cdev_ptr_def)

lemma chains_after_open:
  "chains_after K C (es @ [Vfs_open (cdev_ptr K a) f flags]) =
     (if flags AND O_ACCMODE = O_WRONLY then (chains_after K C es)(a := []) else chains_after K C es)"
  by (auto simp: chains_after_def emptied_def)

lemma chains_after_other [simp]:
  "chains_after K C (es @ [Vfs_read f b n p]) = chains_after K C es"
  "chains_after K C (es @ [Vfs_write f b n p]) = chains_after K C es"
  "chains_after K C (es @ [Vfs_release f]) = chains_after K C es"
  "chains_after K C [] = C"
  by (auto simp: chains_after_def emptied_def)

lemma open_keeps_ok:
  assumes "vfs_ok K M as C es (files, s)" and "files f = None" and a: "a \<in> set as"
  shows "\<exists>s'. scull_open K (cdev_ptr K a) f flags s = Some (0, s') \<and>
    vfs_ok K M as C (es @ [Vfs_open (cdev_ptr K a) f flags]) (files(f \<mapsto> cdev_ptr K a), s')"
proof -
  let ?s = "s\<lparr>private_data := (private_data s)(f \<mapsto> a)\<rparr>"
  have ok: "scull_ok K M as (chains_after K C es) ?s" and fs: "files_ok K as (files(f \<mapsto> cdev_ptr K a), ?s)"
    using assms by (auto simp: vfs_ok_def files_ok_def scull_ok_private)
  show ?thesis
  proof (cases "flags AND O_ACCMODE = O_WRONLY")
    case True
    from trim_keeps_ok [OF ok a] obtain s' where "scull_trim a ?s = Some (0, s')"
      "scull_ok K M as ((chains_after K C es)(a := [])) s'" "private_data s' = private_data ?s" by blast
    with True fs show ?thesis
      by (simp add: scull_open_def vfs_ok_def files_ok_def chains_after_open)
  next
    case False
    with ok fs show ?thesis by (simp add: scull_open_def vfs_ok_def chains_after_open)
  qed
qed

lemma read_keeps_ok:
  assumes "vfs_ok K M as C es (files, s)"
  shows "\<exists>r s'. scull_read K f buf cnt pos s = Some (r, s') \<and> vfs_ok K M as C (es @ [Vfs_read f buf cnt pos]) (files, s')"
  using assms by (auto simp: scull_read_def vfs_ok_def files_ok_def scull_ok_def Let_def)

interpretation scull_vfs: served "vfs_may K" "vfs_step (scull_fops K)" "vfs_ok K M as C"
  for K M as C
proof (unfold_locales, goal_cases)
  case (1 es x e)
  obtain files s where x: "x = (files, s)" by (cases x)
  have devs: "scull_devices s = as" using 1(1) by (simp add: x vfs_ok_def scull_ok_def)
  show ?case
  proof (cases e)
    case (Vfs_open c f flags)
    with 1(2) x devs obtain a where a: "a \<in> set as" "c = cdev_ptr K a" "files f = None" by auto
    with open_keeps_ok [OF 1(1) [unfolded x] a(3,1), of flags] Vfs_open x show ?thesis
      by (auto simp: scull_fops_def)
  next
    case (Vfs_read f buf cnt pos)
    with read_keeps_ok [OF 1(1) [unfolded x], of f buf cnt pos] x show ?thesis
      by (auto simp: scull_fops_def)
  next
    case (Vfs_write f buf cnt pos)
    with 1(1) x show ?thesis by (simp add: scull_fops_def scull_write_def vfs_ok_def)
  next
    case (Vfs_release f)
    with 1(1) x show ?thesis
      by (auto simp: scull_fops_def scull_release_def vfs_ok_def files_ok_def)
  qed
qed

section \<open>From load to unload\<close>

lemma concat_map_Nil: "concat (map (\<lambda>x. []) xs) = []"
  by (induction xs) simp_all

text \<open>A module loaded into zeroed memory, with every \<open>cdev_add\<close> successful, has four empty devices.\<close>

lemma loaded_ok:
  assumes inv: "init_inv K G M l0 NUM_DEVICES as rs s" and "\<And>l. data (G l) = NULL"
    and "klog s = l0 @ es" and "cdevs_added es" and "ledger (keff K) l0 = Some M"
  shows "scull_ok K M as (\<lambda>a. []) s"
proof -
  have "qchain (heap s) (qset d) (data d) []" if "d = (G l)\<lparr>cdev_owner := ''THIS_MODULE''\<rparr>" for d l
    using assms(2) that by simp
  with inv init_inv_held [OF inv assms(3-5)] show ?thesis
    by (auto simp: concat_map_Nil init_inv_def scull_ok_def chain_mem_def footprint_def simp del: qchain.simps)
qed

text \<open>Unloading frees the devices and leaves their chains.\<close>

lemma exit_leaves_chains:
  assumes "scull_ok K M as C s"
  shows "\<exists>s'. scull_exit K s = Some s' \<and> held K s' = Some (M + (\<Sum>a\<leftarrow>as. chain_mem (C a))) \<and>
    heap s' = removed (heap s) (set as)"
proof -
  let ?s1 = "exec (call_void (Chr (Unregister_chrdev_region (devno s) NUM_DEVICES))) s"
  have live: "live (scull_devices ?s1) = as" using assms by (simp add: scull_ok_def live_id)
  moreover have "\<forall>a\<in>set as. heap ?s1 a \<noteq> None" using assms by (auto simp: scull_ok_def)
  moreover have "held K ?s1 = Some ((M + (\<Sum>a\<leftarrow>as. chain_mem (C a))) + (\<Sum>a\<leftarrow>as. dev_res K a))"
    using assms by (simp add: scull_ok_def sum_list_addf ac_simps)
  moreover have "distinct as" using assms by (simp add: scull_ok_def)
  ultimately show ?thesis
    using free_devices_ok [of K ?s1 "M + (\<Sum>a\<leftarrow>as. chain_mem (C a))" "scull_devices ?s1", unfolded live]
    by (auto simp: scull_exit_def)
qed

section \<open>Properties\<close>

text \<open>
  C2: the driver keeps its devices well-formed and never runs into undefined behaviour. From
  any well-formed state, after any sequence of opens, reads, writes and releases that the
  virtual file system may make on the four devices, every device is live, the chains are
  well-formed and disjoint and account for all memory held; the devices opened write-only
  are empty and the others have kept their contents; every open file's private data is the
  device of its inode; and the next call, whichever it is, has a defined outcome again.
\<close>

theorem scull_session_sound:
  assumes "scull_ok K M as C s"
    and "session (vfs_may K) (vfs_step (scull_fops K)) (Map.empty, s) es (files, t)"
  shows "scull_ok K M as (chains_after K C es) t \<and> files_ok K as (files, t) \<and>
    (vfs_may K e (files, t) \<longrightarrow> (\<exists>y. vfs_step (scull_fops K) e (files, t) = Some y))"
proof -
  have start: "vfs_ok K M as C [] (Map.empty, s)"
    using assms(1) by (simp add: vfs_ok_def files_ok_def)
  from scull_vfs.session_inv [OF assms(2) start] scull_vfs.never_stuck [OF assms(2) start]
  show ?thesis by (auto simp: vfs_ok_def)
qed

text \<open>Four devices, the first with one quantum set of two slots, one of them filled.\<close>

definition four_devices :: "ptr list" where
  "four_devices = [8, 80, 160, 240]"

definition used_chains :: "ptr \<Rightarrow> chain" where
  "used_chains = (\<lambda>a. [])(8 := small_chain)"

definition used_state :: scull_state where
  "used_state = \<lparr>klog = (Chr (Alloc_chrdev_region 0 4 ''scull''), RIntOut 0 0) #
       concat (map (\<lambda>a. [(Memc (Kmalloc ''scull_dev''), RU64 a), (Chr (Cdev_add (a + 64) 0 1), RInt 0)]) four_devices) @
       map (\<lambda>a. (Memc (Kmalloc ''data''), RU64 a)) [16, 32, 48],
     devno = 0, scull_devices = four_devices,
     heap = [8 \<mapsto> DevObj small_dev, 16 \<mapsto> QsetObj \<lparr>qdata = 32, qnext = 0\<rparr>,
       32 \<mapsto> PtrArray [0, 48], 48 \<mapsto> Quantum, 80 \<mapsto> DevObj (reset_dev small_dev),
       160 \<mapsto> DevObj (reset_dev small_dev), 240 \<mapsto> DevObj (reset_dev small_dev)],
     private_data = Map.empty, umem = (\<lambda>a. CHR ''x'')\<rparr>"

lemma used_state_ok: "scull_ok copying_kernel {#} four_devices used_chains used_state"
  by (simp add: scull_ok_def used_state_def four_devices_def used_chains_def small_dev_def reset_dev_def
    footprint_def chain_mem_def dev_res_def cdev_ptr_def
    ledger_def)

text \<open>Device 8 is opened for reading, read, and opened write-only by a second file.\<close>

abbreviation sample_session :: "vfs_call list" where
  "sample_session \<equiv> [Vfs_open 72 1000 0, Vfs_read 1000 4096 22 0, Vfs_open 72 1001 1, Vfs_release 1000]"

lemma sample_session_runs:
  "\<exists>t. session (vfs_may copying_kernel) (vfs_step (scull_fops copying_kernel)) (Map.empty, used_state)
     sample_session ([1001 \<mapsto> 72], t)"
  by (simp add: session_iff_run scull_fops_def scull_open_def scull_read_def scull_release_def Let_def
    used_state_def four_devices_def cdev_ptr_def container_of_cdev_def scull_trim_def get_dev_def
    trim_list.simps trim_node_def trim_quanta.simps get_qset_def get_elem_def kfree_def upd_qset_def
    upd_dev_def small_dev_def)

theorem scull_session_sound_witness:
  "\<exists>t. session (vfs_may copying_kernel) (vfs_step (scull_fops copying_kernel)) (Map.empty, used_state)
     sample_session ([1001 \<mapsto> 72], t) \<and> private_data t 1001 = Some 8 \<and>
     scull_ok copying_kernel {#} four_devices (\<lambda>a. []) t"
proof -
  obtain t where t: "session (vfs_may copying_kernel) (vfs_step (scull_fops copying_kernel))
      (Map.empty, used_state) sample_session ([1001 \<mapsto> 72], t)"
    using sample_session_runs by blast
  have "chains_after copying_kernel used_chains sample_session = (\<lambda>a. [])"
    by (auto simp: chains_after_def emptied_def used_chains_def cdev_ptr_def)
  with scull_session_sound [OF used_state_ok t, of "Vfs_release 1001"]
  have ok: "scull_ok copying_kernel {#} four_devices (\<lambda>a. []) t"
    and "files_ok copying_kernel four_devices ([1001 \<mapsto> 72], t)" by simp_all
  then have "private_data t 1001 = Some 8"
    by (simp add: files_ok_def cdev_ptr_def four_devices_def split: if_splits)
  with t ok show ?thesis by blast
qed

text \<open>
  C20: from a well-formed state of the loaded module (\<open>scull_ok\<close>), after any session of file operations,
  \<open>scull_exit\<close> frees the devices without trimming them: whatever quantum sets,
  arrays and quanta a device still has at unloading, that is if the session never opened it
  write-only, stay allocated with nothing left pointing to them.
\<close>

theorem scull_exit_leaks_data:
  assumes "scull_ok K M as C s"
    and "session (vfs_may K) (vfs_step (scull_fops K)) (Map.empty, s) es (files, t)"
  shows "\<exists>t'. scull_exit K t = Some t' \<and>
    held K t' = Some (M + (\<Sum>a\<leftarrow>as. if emptied K es a then {#} else chain_mem (C a)))"
proof -
  have "vfs_ok K M as C [] (Map.empty, s)" using assms(1) by (simp add: vfs_ok_def files_ok_def)
  from scull_vfs.session_inv [OF assms(2) this] have "scull_ok K M as (chains_after K C es) t"
    by (simp add: vfs_ok_def)
  moreover have "(\<lambda>a. chain_mem (chains_after K C es a)) = (\<lambda>a. if emptied K es a then {#} else chain_mem (C a))"
    by (auto simp: chains_after_def chain_mem_def footprint_def)
  ultimately show ?thesis using exit_leaves_chains [of K M as "chains_after K C es" t] by auto
qed

theorem scull_exit_leaks_data_witness:
  "\<exists>t'. scull_exit copying_kernel used_state = Some t' \<and>
     held copying_kernel t' = Some {#Mem 48, Mem 32, Mem 16#}"
  using scull_exit_leaks_data [OF used_state_ok session_start]
  by (simp add: emptied_def four_devices_def used_chains_def chain_mem_def footprint_def)

end
