(* ===== verification/Threads.thy ===== *)
theory Threads
  imports Prelude
begin

text \<open>
  Several threads on a shared state, interleaved at every step. \<open>step p s\<close> is the next step of
  a thread at \<open>p\<close>, \<open>None\<close> where the thread has finished or runs into undefined behaviour; a
  schedule is the list of the threads that step.

  The locale \<open>sharing_threads\<close> is for threads that work on the same memory under a common
  invariant. The locale \<open>local_steps\<close> is the separation argument: a step reads and writes only memory
  that exists, and allocates none, so that a thread that runs to its end on its own part of
  the memory runs the same way in company, as long as the parts are disjoint.
\<close>

section \<open>Schedules\<close>

inductive sched ::
    "('p \<Rightarrow> 's \<Rightarrow> ('p \<times> 's) option) \<Rightarrow> 'p list \<times> 's \<Rightarrow> nat list \<Rightarrow> 'p list \<times> 's \<Rightarrow> bool"
  for step
where
  sched_start: "sched step c [] c"
| sched_step: "sched step c is (ps, s) \<Longrightarrow> i < length ps \<Longrightarrow> step (ps ! i) s = Some (p', s') \<Longrightarrow>
    sched step c (is @ [i]) (ps[i := p'], s')"

lemma sched_length: "sched step c is c' \<Longrightarrow> length (fst c') = length (fst c)"
  by (induction rule: sched.induct) simp_all

lemma sched_threads: "sched step c is c' \<Longrightarrow> set is \<subseteq> {..<length (fst c)}"
proof (induction rule: sched.induct)
  case (sched_start c)
  then show ?case by simp
next
  case (sched_step c "is" ps s i p' s')
  then show ?case using sched_length [OF sched_step.hyps(1)] by simp
qed

lemma sched_append:
  "sched step c is c1 \<Longrightarrow> sched step c1 js c2 \<Longrightarrow> sched step c (is @ js) c2"
proof (rotate_tac, induction rule: sched.induct)
  case (sched_start c')
  then show ?case by simp
next
  case (sched_step c' js ps s i p' s')
  then have "sched step c ((is @ js) @ [i]) (ps[i := p'], s')" by (blast intro: sched.sched_step)
  then show ?case by simp
qed

text \<open>A thread that has not finished and cannot step has run into undefined behaviour.\<close>

definition crashed ::
    "('p \<Rightarrow> 's \<Rightarrow> ('p \<times> 's) option) \<Rightarrow> ('p \<Rightarrow> bool) \<Rightarrow> 'p list \<times> 's \<Rightarrow> bool" where
  "crashed step fin c \<longleftrightarrow> (\<exists>p\<in>set (fst c). \<not> fin p \<and> step p (snd c) = None)"

text \<open>One thread alone.\<close>

primrec alone :: "('p \<Rightarrow> 's \<Rightarrow> ('p \<times> 's) option) \<Rightarrow> nat \<Rightarrow> 'p \<times> 's \<Rightarrow> ('p \<times> 's) option" where
  "alone step 0 c = Some c"
| "alone step (Suc n) c = (case step (fst c) (snd c) of None \<Rightarrow> None | Some c' \<Rightarrow> alone step n c')"

lemma alone_add: "alone step (m + n) c = (case alone step m c of None \<Rightarrow> None | Some c' \<Rightarrow> alone step n c')"
  by (induction m arbitrary: c) (auto split: option.split)

lemma alone_sched:
  "alone step n (p, s) = Some (p', s') \<Longrightarrow> i < length ps \<Longrightarrow> ps ! i = p \<Longrightarrow>
   sched step (ps, s) (replicate n i) (ps[i := p'], s')"
proof (induction n arbitrary: p' s')
  case 0
  then show ?case using sched_start by (metis alone.simps(1) list_update_id old.prod.inject option.inject replicate_0)
next
  case (Suc n)
  from Suc.prems(1) alone_add [of step n 1 "(p, s)"] obtain q t where
    q: "alone step n (p, s) = Some (q, t)" "step q t = Some (p', s')"
    by (auto simp: option.case_eq_if split: if_splits)
  from sched_step [OF Suc.IH [OF q(1) Suc.prems(2,3)], of i p' s'] q(2) Suc.prems(2)
  show ?case by (simp add: replicate_append_same flip: replicate_Suc)
qed

text \<open>The steps of a thread alone lead to a configuration, or to undefined behaviour.\<close>

definition leads :: "('p \<Rightarrow> 's \<Rightarrow> ('p \<times> 's) option) \<Rightarrow> ('p \<Rightarrow> bool) \<Rightarrow>
    'p \<times> 's \<Rightarrow> ('p \<times> 's) option \<Rightarrow> bool" where
  "leads step fin c r \<longleftrightarrow> (\<exists>n c'. alone step n c = Some c' \<and>
     (case r of None \<Rightarrow> \<not> fin (fst c') \<and> step (fst c') (snd c') = None | Some c'' \<Rightarrow> c' = c''))"

lemma leads_refl: "leads step fin c (Some c)"
  unfolding leads_def by (rule exI [of _ 0]) simp

lemma leads_trans: "leads step fin c (Some c1) \<Longrightarrow> leads step fin c1 r \<Longrightarrow> leads step fin c r"
  unfolding leads_def by (clarsimp, metis alone_add option.simps(5))

lemma leads_stuck: "step p s = None \<Longrightarrow> \<not> fin p \<Longrightarrow> leads step fin (p, s) None"
  unfolding leads_def by (intro exI [of _ 0]) simp

lemma leads_next:
  assumes "step p s = Some c" and "leads step fin c r"
  shows "leads step fin (p, s) r"
proof (rule leads_trans [OF _ assms(2)])
  have "alone step (Suc 0) (p, s) = Some c" using assms(1) by simp
  then show "leads step fin (p, s) (Some c)" unfolding leads_def by (metis option.simps(5))
qed

text \<open>A step that may fail, and then the rest.\<close>

lemma leads_bind:
  assumes "step p s = do { x \<leftarrow> m; Some (f x) }"
    and "\<not> fin p" and "\<And>x. m = Some x \<Longrightarrow> leads step fin (f x) (g x)"
  shows "leads step fin (p, s) (do { x \<leftarrow> m; g x })"
proof (cases m)
  case None
  with assms(1,2) leads_stuck [of step p s fin] show ?thesis by simp
next
  case (Some x)
  with assms(1) have "step p s = Some (f x)" by simp
  from leads_next [OF this assms(3) [OF Some]] Some show ?thesis by simp
qed

lemma leads_Some: "leads step fin c (Some c') \<longleftrightarrow> (\<exists>n. alone step n c = Some c')"
  by (cases c') (simp add: leads_def)

lemma leads_None:
  "leads step fin c None \<longleftrightarrow> (\<exists>n p t. alone step n c = Some (p, t) \<and> crashed step fin ([p], t))"
  by (auto simp: leads_def crashed_def)

lemma leads_sched:
  assumes "leads step fin (p, s) (Some (p', s'))" and "i < length ps" and "ps ! i = p"
  shows "\<exists>is. sched step (ps, s) is (ps[i := p'], s')"
  using assms alone_sched unfolding leads_Some by metis

section \<open>Threads that share memory\<close>

text \<open>
  Every thread has an assertion that depends on nothing the others change, all keep one invariant
  of the memory, and every step makes a thread lighter. \<open>J i\<close> is the assertion of thread \<open>i\<close>.
\<close>

locale sharing_threads =
  fixes step :: "'p \<Rightarrow> 's \<Rightarrow> ('p \<times> 's) option"
    and fin :: "'p \<Rightarrow> bool"
    and I :: "'s \<Rightarrow> bool"
    and J :: "nat \<Rightarrow> 'p \<Rightarrow> bool"
    and weight :: "'p \<Rightarrow> nat"
  assumes progress: "I s \<Longrightarrow> J i p \<Longrightarrow> \<not> fin p \<Longrightarrow>
      \<exists>p' s'. step p s = Some (p', s') \<and> I s' \<and> J i p' \<and> weight p' < weight p"
    and fin_stops: "fin p \<Longrightarrow> step p s = None"
begin

lemma schedules_keep:
  assumes "sched step c is c'" and "I (snd c)" and "\<And>i. i < length (fst c) \<Longrightarrow> J i (fst c ! i)"
  shows "I (snd c') \<and> (\<forall>i<length (fst c'). J i (fst c' ! i)) \<and>
    length is + sum_list (map weight (fst c')) \<le> sum_list (map weight (fst c))"
  using assms
proof (induction rule: sched.induct)
  case (sched_start c)
  then show ?case by simp
next
  case (sched_step c "is" ps s i p' s')
  then have IH: "I s" "\<forall>j<length ps. J j (ps ! j)"
    "length is + sum_list (map weight ps) \<le> sum_list (map weight (fst c))" by auto
  have "\<not> fin (ps ! i)" using sched_step.hyps(3) fin_stops by fastforce
  with progress [of s i "ps ! i"] IH sched_step.hyps(2,3)
  have new: "I s'" "J i p'" "weight p' < weight (ps ! i)" by auto
  have "sum_list (map weight (ps[i := p'])) < sum_list (map weight ps)"
    using sched_step.hyps(2) new(3) elem_le_sum_list [of i "map weight ps"]
    by (simp add: map_update sum_list_update)
  moreover have "J j (ps[i := p'] ! j)" if "j < length ps" for j
    using that new(2) IH(2) by (cases "j = i") auto
  ultimately show ?case using new(1) IH by auto
qed

lemma schedules_never_crash:
  assumes "sched step (ps0, s0) is (ps, s)" and "I s0" and "\<And>i. i < length ps0 \<Longrightarrow> J i (ps0 ! i)"
  shows "\<not> crashed step fin (ps, s)"
proof
  assume "crashed step fin (ps, s)"
  then obtain i where "i < length ps" "\<not> fin (ps ! i)" "step (ps ! i) s = None"
    by (auto simp: crashed_def in_set_conv_nth)
  with schedules_keep [OF assms(1)] assms(2,3) progress show False by fastforce
qed

end

section \<open>Separation\<close>

locale local_steps =
  fixes step :: "'p \<Rightarrow> 's \<Rightarrow> ('p \<times> 's) option"
    and fin :: "'p \<Rightarrow> bool"
    and mem :: "'s \<Rightarrow> 'a \<rightharpoonup> 'b"
    and out :: "'s \<Rightarrow> 'e list"
    and lstep :: "'p \<Rightarrow> ('a \<rightharpoonup> 'b) \<Rightarrow> ('p \<times> ('a \<rightharpoonup> 'b) \<times> 'e list) option"
  assumes step_local: "(case step p s of None \<Rightarrow> lstep p (mem s) = None
      | Some (p', s') \<Rightarrow> \<exists>es. lstep p (mem s) = Some (p', mem s', es) \<and> out s' = out s @ es)"
    and frame: "lstep p h = Some (p', h', es) \<Longrightarrow> dom h \<inter> dom g = {} \<Longrightarrow>
      lstep p (h ++ g) = Some (p', h' ++ g, es)"
    and shrinks: "lstep p h = Some (p', h', es) \<Longrightarrow> dom h' \<subseteq> dom h"
    and fin_stops: "fin p \<Longrightarrow> lstep p h = None"
begin

primrec lrun :: "nat \<Rightarrow> 'p \<Rightarrow> ('a \<rightharpoonup> 'b) \<Rightarrow> ('p \<times> ('a \<rightharpoonup> 'b) \<times> 'e list) option" where
  "lrun 0 p h = Some (p, h, [])"
| "lrun (Suc n) p h = (case lrun n p h of None \<Rightarrow> None | Some (q, g, es) \<Rightarrow>
     (case lstep q g of None \<Rightarrow> None | Some (q', g', es') \<Rightarrow> Some (q', g', es @ es')))"

definition finishes :: "'p \<Rightarrow> ('a \<rightharpoonup> 'b) \<Rightarrow> nat \<Rightarrow> ('a \<rightharpoonup> 'b) \<Rightarrow> 'e list \<Rightarrow> bool" where
  "finishes p h L h' es \<longleftrightarrow> (\<exists>q. lrun L p h = Some (q, h', es) \<and> fin q)"

lemma lrun_prefix: "lrun n p h \<noteq> None \<Longrightarrow> k \<le> n \<Longrightarrow> lrun k p h \<noteq> None"
  by (induction n) (auto simp: le_Suc_eq split: option.splits)

lemma finishes_le:
  assumes "finishes p h L h' es" and "lrun k p h = Some x"
  shows "k \<le> L"
proof (rule ccontr)
  assume "\<not> k \<le> L"
  then have "lrun (Suc L) p h \<noteq> None" using assms(2) lrun_prefix [of k p h "Suc L"] by simp
  then show False using assms(1) by (auto simp: finishes_def fin_stops split: option.splits)
qed

lemma alone_lrun:
  "alone step n (p, s) = Some (p', s') \<Longrightarrow>
   \<exists>es. lrun n p (mem s) = Some (p', mem s', es) \<and> out s' = out s @ es"
proof (induction n arbitrary: p' s')
  case 0
  then show ?case by simp
next
  case (Suc n)
  from Suc.prems alone_add [of step n 1 "(p, s)"] obtain q t where
    q: "alone step n (p, s) = Some (q, t)" "step q t = Some (p', s')"
    by (auto simp: option.case_eq_if split: if_splits)
  with Suc.IH [OF q(1)] step_local [of q t] show ?case by auto
qed

text \<open>A thread whose local run goes on has a next step, locally and on the whole memory.\<close>

lemma next_step:
  assumes "finishes p h L h' es" and "lrun k p h = Some (q, mem s |` A, es1)" and "\<not> fin q"
  obtains q' g es' t where "lrun (Suc k) p h = Some (q', g, es1 @ es')" "step q s = Some (q', t)"
    "mem t |` A = g" "\<And>B. B \<inter> A = {} \<Longrightarrow> mem t |` B = mem s |` B" "out t = out s @ es'"
proof -
  have "k \<noteq> L" using assms by (auto simp: finishes_def)
  with finishes_le [OF assms(1,2)] have "lrun (Suc k) p h \<noteq> None"
    using lrun_prefix [of L p h "Suc k"] assms(1) by (auto simp: finishes_def)
  with assms(2) obtain q' g es' where l: "lstep q (mem s |` A) = Some (q', g, es')"
    "lrun (Suc k) p h = Some (q', g, es1 @ es')" by (auto split: option.splits)
  have split: "mem s = mem s |` A ++ mem s |` (- A)" by (auto simp: map_add_def restrict_map_def split: option.split)
  have "lstep q (mem s) = Some (q', g ++ mem s |` (- A), es')"
    by (subst split, rule frame [OF l(1)]) auto
  then obtain t where t: "step q s = Some (q', t)" "mem t = g ++ mem s |` (- A)" "out t = out s @ es'"
    using step_local [of q s] by (auto split: option.splits)
  have "g x = None" if "x \<notin> A" for x using shrinks [OF l(1)] that by (auto simp: dom_def restrict_map_def)
  then have "mem t |` A = g" "\<And>B. B \<inter> A = {} \<Longrightarrow> mem t |` B = mem s |` B"
    by (auto simp: t(2) fun_eq_iff restrict_map_def map_add_def split: option.split)
  with that l t show thesis by blast
qed

text \<open>Every schedule is, for each thread, a prefix of its own run on its own memory.\<close>

definition lout :: "nat \<Rightarrow> 'p \<Rightarrow> ('a \<rightharpoonup> 'b) \<Rightarrow> 'e list" where
  "lout k p h = (case lrun k p h of None \<Rightarrow> [] | Some (q, g, es) \<Rightarrow> es)"

definition projects ::
    "'p list \<Rightarrow> 's \<Rightarrow> (nat \<Rightarrow> 'a set) \<Rightarrow> nat list \<Rightarrow> 'p list \<Rightarrow> 's \<Rightarrow> bool" where
  "projects ps0 s0 A is ps s \<longleftrightarrow> length ps = length ps0 \<and>
     (\<forall>i<length ps0. \<exists>es. lrun (count_list is i) (ps0 ! i) (mem s0 |` A i) = Some (ps ! i, mem s |` A i, es)) \<and>
     (\<forall>B. (\<forall>i<length ps0. B \<inter> A i = {}) \<longrightarrow> mem s |` B = mem s0 |` B) \<and>
     mset (out s) = mset (out s0) +
       (\<Sum>i<length ps0. mset (lout (count_list is i) (ps0 ! i) (mem s0 |` A i)))"

lemma schedule_projects:
  assumes "sched step (ps0, s0) is (ps, s)"
    and disj: "\<And>i j. i < length ps0 \<Longrightarrow> j < length ps0 \<Longrightarrow> i \<noteq> j \<Longrightarrow> A i \<inter> A j = {}"
    and ends: "\<And>i. i < length ps0 \<Longrightarrow> \<exists>L h es. finishes (ps0 ! i) (mem s0 |` A i) L h es"
  shows "projects ps0 s0 A is ps s"
  using assms(1)
proof (induction "(ps0, s0)" "is" "(ps, s)" arbitrary: ps s rule: sched.induct)
  case sched_start
  then show ?case by (simp add: projects_def lout_def)
next
  case (sched_step "is" ps s i p' s')
  let ?n = "length ps0"
  note IH = sched_step.hyps(2) [unfolded projects_def]
  have i: "i < ?n" using IH sched_step.hyps(3) by simp
  then obtain es1 where run: "lrun (count_list is i) (ps0 ! i) (mem s0 |` A i) = Some (ps ! i, mem s |` A i, es1)"
    using IH by blast
  obtain L h es where L: "finishes (ps0 ! i) (mem s0 |` A i) L h es" using ends [OF i] by blast
  have "lstep (ps ! i) (mem s) \<noteq> None" using step_local [of "ps ! i" s] sched_step.hyps(4) by auto
  then have "\<not> fin (ps ! i)" using fin_stops [of "ps ! i" "mem s"] by auto
  from next_step [OF L run this] sched_step.hyps(4) obtain g es' where
    run': "lrun (Suc (count_list is i)) (ps0 ! i) (mem s0 |` A i) = Some (p', g, es1 @ es')"
    and g: "mem s' |` A i = g" and other: "\<And>B. B \<inter> A i = {} \<Longrightarrow> mem s' |` B = mem s |` B"
    and out: "out s' = out s @ es'" by (metis option.inject prod.inject)
  have "(\<Sum>j<?n. mset (lout (count_list (is @ [i]) j) (ps0 ! j) (mem s0 |` A j))) =
      mset es' + (\<Sum>j<?n. mset (lout (count_list is j) (ps0 ! j) (mem s0 |` A j)))"
    using i run run' by (simp add: sum.remove [of "{..<?n}" i] lout_def)
  then have "mset (out s') = mset (out s0) +
      (\<Sum>j<?n. mset (lout (count_list (is @ [i]) j) (ps0 ! j) (mem s0 |` A j)))"
    using IH out by (simp add: ac_simps)
  moreover have "\<exists>es. lrun (count_list (is @ [i]) j) (ps0 ! j) (mem s0 |` A j) =
      Some (ps[i := p'] ! j, mem s' |` A j, es)" if j: "j < ?n" for j
  proof (cases "j = i")
    case True
    with run' g i IH show ?thesis by simp
  next
    case False
    with IH j other [of "A j"] disj [OF j i] show ?thesis by simp
  qed
  moreover have "mem s' |` B = mem s0 |` B" if "\<forall>j<?n. B \<inter> A j = {}" for B
    using IH other [of B] that i by simp
  ultimately show ?case using IH by (simp add: projects_def)
qed

text \<open>No schedule crashes; none is longer than the runs of the threads together; all that finish end alike.\<close>

lemma schedules_safe:
  assumes run: "sched step (ps0, s0) is (ps, s)"
    and disj: "\<And>i j. i < length ps0 \<Longrightarrow> j < length ps0 \<Longrightarrow> i \<noteq> j \<Longrightarrow> A i \<inter> A j = {}"
    and ends: "\<And>i. i < length ps0 \<Longrightarrow> finishes (ps0 ! i) (mem s0 |` A i) (L i) (h i) (es i)"
  shows "\<not> crashed step fin (ps, s)"
    and "\<And>i. i < length ps0 \<Longrightarrow> count_list is i \<le> L i"
    and "list_all fin ps \<Longrightarrow> i < length ps0 \<Longrightarrow> mem s |` A i = h i"
    and "(\<And>i. i < length ps0 \<Longrightarrow> B \<inter> A i = {}) \<Longrightarrow> mem s |` B = mem s0 |` B"
    and "list_all fin ps \<Longrightarrow> mset (out s) = mset (out s0) + (\<Sum>i<length ps0. mset (es i))"
proof -
  have pr: "projects ps0 s0 A is ps s" by (rule schedule_projects [OF run disj]) (use ends in blast)+
  note pr' = pr [unfolded projects_def]
  show "\<not> crashed step fin (ps, s)"
  proof
    assume "crashed step fin (ps, s)"
    then obtain i where i: "i < length ps" "\<not> fin (ps ! i)" "step (ps ! i) s = None"
      by (auto simp: crashed_def in_set_conv_nth)
    then obtain es1 where "lrun (count_list is i) (ps0 ! i) (mem s0 |` A i) = Some (ps ! i, mem s |` A i, es1)"
      using pr' by auto
    from next_step [OF ends this i(2)] i pr' show False by (metis option.distinct(1))
  qed
  have run_i: "\<exists>es1. lrun (count_list is i) (ps0 ! i) (mem s0 |` A i) = Some (ps ! i, mem s |` A i, es1)"
    if "i < length ps0" for i using pr' that by blast
  show le: "count_list is i \<le> L i" if "i < length ps0" for i
    using finishes_le [OF ends [OF that]] run_i [OF that] by blast
  have same: "mem s |` A i = h i \<and> lout (count_list is i) (ps0 ! i) (mem s0 |` A i) = es i"
    if all: "list_all fin ps" and i: "i < length ps0" for i
  proof -
    from run_i [OF i] obtain es1 where r: "lrun (count_list is i) (ps0 ! i) (mem s0 |` A i) = Some (ps ! i, mem s |` A i, es1)"
      by blast
    have "fin (ps ! i)" using all i pr' by (auto simp: list_all_length)
    with r have f: "finishes (ps0 ! i) (mem s0 |` A i) (count_list is i) (mem s |` A i) es1"
      by (simp add: finishes_def)
    from ends [OF i] obtain q where q: "lrun (L i) (ps0 ! i) (mem s0 |` A i) = Some (q, h i, es i)"
      by (auto simp: finishes_def)
    from finishes_le [OF f q] le [OF i] r q show ?thesis by (simp add: lout_def)
  qed
  then show "list_all fin ps \<Longrightarrow> i < length ps0 \<Longrightarrow> mem s |` A i = h i" by blast
  show "mem s |` B = mem s0 |` B" if "\<And>i. i < length ps0 \<Longrightarrow> B \<inter> A i = {}" using pr' that by blast
  show "mset (out s) = mset (out s0) + (\<Sum>i<length ps0. mset (es i))" if "list_all fin ps"
    using pr' same [OF that] by simp
qed

end

end
