(* ===== verification/Scull_Threads.thy ===== *)
theory Scull_Threads
  imports Scull_Session Threads
begin

text \<open>
  Several processes in \<open>scull_open\<close> at once. \<open>struct scull_dev\<close> has a semaphore for mutual
  exclusion that no function of the driver takes, so calls of \<open>scull_open\<close>, and the calls of
  \<open>scull_trim\<close> in them, interleave at every memory access.

  \<open>open_step\<close> is \<open>scull_open\<close> one access at a time, \<open>open_pc\<close> the place in the code with the
  local variables alive there. Shown: run alone the steps are \<open>scull_open\<close>, undefined
  behaviour included; opens that empty different devices do not disturb each other in any
  interleaving; two opens that empty the same device can.
\<close>

unbundle bit_operations_syntax

section \<open>scull\_open step by step\<close>

text \<open>
  The arguments after \<open>dev\<close> are the locals \<open>qset\<close>, \<open>dptr\<close>, \<open>i\<close> and \<open>next\<close> of \<open>scull_trim\<close>, and the pointer
  just read for \<open>kfree\<close>. Every step reads, writes or frees at most one object.
\<close>

datatype open_pc =
    Open ptr ptr u32
  | Read_qset ptr
  | Read_data ptr int
  | Loop ptr int ptr
  | Quanta ptr int ptr int
  | Read_quantum ptr int ptr int ptr
  | Free_quantum ptr int ptr int ptr
  | Read_array ptr int ptr
  | Free_array ptr int ptr ptr
  | Clear_data ptr int ptr
  | Read_next ptr int ptr
  | Free_node ptr int ptr ptr
  | Set_size ptr
  | Set_quantum ptr
  | Set_qset ptr
  | Set_data ptr
  | Return

fun open_step :: "linux \<Rightarrow> open_pc \<Rightarrow> scull_state \<Rightarrow> (open_pc \<times> scull_state) option" where
  "open_step K (Open i_cdev filp f_flags) s =
     (let dev = container_of_cdev K i_cdev in
      Some (if f_flags AND O_ACCMODE = O_WRONLY then Read_qset dev else Return,
        s\<lparr>private_data := (private_data s)(filp \<mapsto> dev)\<rparr>))"
| "open_step K (Read_qset dev) s = do {
     d \<leftarrow> get_dev s dev;
     Some (Read_data dev (qset d), s)
   }"
| "open_step K (Read_data dev qs) s = do {
     d \<leftarrow> get_dev s dev;
     Some (Loop dev qs (data d), s)
   }"
| "open_step K (Loop dev qs dptr) s =
     (if dptr = NULL then Some (Set_size dev, s)
      else do {
        node \<leftarrow> get_qset s dptr;
        Some (if qdata node \<noteq> NULL then Quanta dev qs dptr 0 else Read_next dev qs dptr, s)
      })"
| "open_step K (Quanta dev qs dptr i) s =
     (if i < qs then do {
        node \<leftarrow> get_qset s dptr;
        Some (Read_quantum dev qs dptr i (qdata node), s)
      } else Some (Read_array dev qs dptr, s))"
| "open_step K (Read_quantum dev qs dptr i arr) s = do {
     p \<leftarrow> get_elem s arr i;
     Some (Free_quantum dev qs dptr i p, s)
   }"
| "open_step K (Free_quantum dev qs dptr i p) s = do {
     s \<leftarrow> kfree p s;
     Some (Quanta dev qs dptr (i + 1), s)
   }"
| "open_step K (Read_array dev qs dptr) s = do {
     node \<leftarrow> get_qset s dptr;
     Some (Free_array dev qs dptr (qdata node), s)
   }"
| "open_step K (Free_array dev qs dptr arr) s = do {
     s \<leftarrow> kfree arr s;
     Some (Clear_data dev qs dptr, s)
   }"
| "open_step K (Clear_data dev qs dptr) s = do {
     s \<leftarrow> upd_qset dptr (\<lambda>n. n\<lparr>qdata := NULL\<rparr>) s;
     Some (Read_next dev qs dptr, s)
   }"
| "open_step K (Read_next dev qs dptr) s = do {
     node \<leftarrow> get_qset s dptr;
     Some (Free_node dev qs dptr (qnext node), s)
   }"
| "open_step K (Free_node dev qs dptr nxt) s = do {
     s \<leftarrow> kfree dptr s;
     Some (Loop dev qs nxt, s)
   }"
| "open_step K (Set_size dev) s = do {
     s \<leftarrow> upd_dev dev (\<lambda>d. d\<lparr>size := 0\<rparr>) s;
     Some (Set_quantum dev, s)
   }"
| "open_step K (Set_quantum dev) s = do {
     s \<leftarrow> upd_dev dev (\<lambda>d. d\<lparr>quantum := SCULL_QUANTUM_SIZE\<rparr>) s;
     Some (Set_qset dev, s)
   }"
| "open_step K (Set_qset dev) s = do {
     s \<leftarrow> upd_dev dev (\<lambda>d. d\<lparr>qset := SCULL_QSET_SIZE\<rparr>) s;
     Some (Set_data dev, s)
   }"
| "open_step K (Set_data dev) s = do {
     s \<leftarrow> upd_dev dev (\<lambda>d. d\<lparr>data := NULL\<rparr>) s;
     Some (Return, s)
   }"
| "open_step K Return s = None"

abbreviation (input) returned :: "open_pc \<Rightarrow> bool" where "returned p \<equiv> p = Return"

section \<open>One call alone\<close>

abbreviation (input) open_leads ::
    "linux \<Rightarrow> open_pc \<times> scull_state \<Rightarrow> (open_pc \<times> scull_state) option \<Rightarrow> bool" where
  "open_leads K \<equiv> leads (open_step K) (\<lambda>p. p = Return)"

lemmas open_next = leads_next [where step = "open_step K" and fin = "\<lambda>p. p = Return" for K]

lemmas open_stuck = leads_stuck [where step = "open_step K" and fin = "\<lambda>p. p = Return" for K]

lemma leads_quanta:
  "open_leads K (Quanta dev qs p i, s) (map_option (Pair (Read_array dev qs p)) (trim_quanta p i qs s))"
proof (induction p i qs s rule: trim_quanta.induct)
  case (1 p i qs s)
  show ?case
  proof (cases "i < qs")
    case True
    let ?out = "map_option (Pair (Read_array dev qs p))"
    have "open_leads K (Quanta dev qs p i, s) (do { node \<leftarrow> get_qset s p; q \<leftarrow> get_elem s (qdata node) i;
        t \<leftarrow> kfree q s; ?out (trim_quanta p (i + 1) qs t) })"
      by ((rule leads_bind, simp add: True, simp)+) (rule "1.IH" [OF True])
    then show ?thesis using True by (simp add: trim_quanta.simps [of p i qs s] map_option_bind comp_def)
  next
    case False
    then have "open_step K (Quanta dev qs p i) s = Some (Read_array dev qs p, s)" by simp
    from open_next [OF this leads_refl] False show ?thesis by (simp add: trim_quanta.simps [of p i qs s])
  qed
qed

text \<open>The part of the loop body after \<open>if (dptr->data)\<close>, and the part inside it after the loop.\<close>

lemma leads_next_node:
  "open_leads K (Read_next dev qs p, s) (do {
     node \<leftarrow> get_qset s p; s \<leftarrow> kfree p s; Some (Loop dev qs (qnext node), s) })"
  by ((rule leads_bind, simp, simp)+) (rule leads_refl)

lemma leads_read_array:
  "open_leads K (Read_array dev qs p, s) (do {
     node \<leftarrow> get_qset s p; s \<leftarrow> kfree (qdata node) s; s \<leftarrow> upd_qset p (\<lambda>n. n\<lparr>qdata := NULL\<rparr>) s;
     node \<leftarrow> get_qset s p; s \<leftarrow> kfree p s; Some (Loop dev qs (qnext node), s) })"
  by ((rule leads_bind, simp, simp)+) (rule leads_refl)

lemma leads_node:
  assumes "p \<noteq> NULL"
  shows "open_leads K (Loop dev qs p, s) (map_option (\<lambda>(nxt, s'). (Loop dev qs nxt, s')) (trim_node p qs s))"
proof (cases "get_qset s p")
  case None
  with assms show ?thesis using open_stuck [of K "Loop dev qs p" s] by (simp add: trim_node_def map_option_bind comp_def)
next
  case (Some node)
  show ?thesis
  proof (cases "qdata node = NULL")
    case True
    with Some assms have "open_step K (Loop dev qs p) s = Some (Read_next dev qs p, s)" by simp
    from open_next [OF this leads_next_node] Some True show ?thesis by (simp add: trim_node_def map_option_bind comp_def)
  next
    case False
    with Some assms have go: "open_step K (Loop dev qs p) s = Some (Quanta dev qs p 0, s)" by simp
    show ?thesis
    proof (cases "trim_quanta p 0 qs s")
      case None
      with open_next [OF go leads_quanta] False Some show ?thesis by (simp add: trim_node_def map_option_bind comp_def)
    next
      case t: (Some t)
      from leads_quanta [of K dev qs p 0 s] t
      have "open_leads K (Quanta dev qs p 0, s) (Some (Read_array dev qs p, t))" by simp
      from open_next [OF go leads_trans [OF this leads_read_array]] False Some t
      show ?thesis by (simp add: trim_node_def map_option_bind comp_def Option.bind_assoc)
    qed
  qed
qed

lemma leads_list:
  "open_leads K (Loop dev qs p, s) (map_option (Pair (Set_size dev)) (trim_list p qs s))"
proof (induction p qs s rule: trim_list.induct)
  case (1 p qs s)
  show ?case
  proof (cases "p = NULL")
    case True
    then have "open_step K (Loop dev qs p) s = Some (Set_size dev, s)" by simp
    from open_next [OF this leads_refl] True show ?thesis by simp
  next
    case False
    show ?thesis
    proof (cases "trim_node p qs s")
      case None
      with leads_node [OF False, of K dev qs s] False show ?thesis by (simp add: trim_list.simps [of p])
    next
      case (Some x)
      obtain nxt t where x: "x = (nxt, t)" by (cases x)
      with leads_node [OF False, of K dev qs s] Some
      have "open_leads K (Loop dev qs p, s) (Some (Loop dev qs nxt, t))" by simp
      from leads_trans [OF this "1.IH" [OF False Some x [symmetric]]] Some False x
      show ?thesis by (simp add: trim_list.simps [of p])
    qed
  qed
qed

lemma leads_reset:
  "open_leads K (Set_size dev, s) (map_option (Pair Return) (upd_dev dev
     (\<lambda>d. d\<lparr>size := 0, quantum := SCULL_QUANTUM_SIZE, qset := SCULL_QSET_SIZE, data := NULL\<rparr>) s))"
proof (cases "get_dev s dev")
  case None
  then show ?thesis using open_stuck [of K "Set_size dev" s] by (simp add: upd_dev_def)
next
  case (Some d)
  then have "alone (open_step K) 4 (Set_size dev, s) = Some (Return, s\<lparr>heap := (heap s)(dev \<mapsto>
      DevObj (d\<lparr>size := 0, quantum := SCULL_QUANTUM_SIZE, qset := SCULL_QSET_SIZE, data := NULL\<rparr>))\<rparr>)"
    by (simp add: eval_nat_numeral upd_dev_def get_dev_def)
  with Some show ?thesis unfolding leads_def by (auto simp: upd_dev_def)
qed

lemma leads_trim:
  "open_leads K (Read_qset dev, s) (map_option (\<lambda>(r, s'). (Return, s')) (scull_trim dev s))"
proof (cases "get_dev s dev")
  case None
  then show ?thesis using open_stuck [of K "Read_qset dev" s] by (simp add: scull_trim_def)
next
  case (Some d)
  then have "open_step K (Read_qset dev) s = Some (Read_data dev (qset d), s)"
    "open_step K (Read_data dev (qset d)) s = Some (Loop dev (qset d) (data d), s)" by simp_all
  note go = open_next [OF this(1) open_next [OF this(2) leads_refl]]
  note list = leads_trans [OF go leads_list]
  show ?thesis
  proof (cases "trim_list (data d) (qset d) s")
    case None
    with list Some show ?thesis by (simp add: scull_trim_def)
  next
    case (Some t)
    with list have "open_leads K (Read_qset dev, s) (Some (Set_size dev, t))" by simp
    from leads_trans [OF this leads_reset] Some \<open>get_dev s dev = Some d\<close> show ?thesis
      by (auto simp: scull_trim_def option.map_comp comp_def split: bind_splits)
  qed
qed

lemma leads_open:
  "open_leads K (Open c f flags, s) (map_option (\<lambda>(r, s'). (Return, s')) (scull_open K c f flags s))"
proof -
  let ?dev = "container_of_cdev K c"
  let ?s = "s\<lparr>private_data := (private_data s)(f \<mapsto> ?dev)\<rparr>"
  show ?thesis
  proof (cases "flags AND O_ACCMODE = O_WRONLY")
    case True
    then have "open_step K (Open c f flags) s = Some (Read_qset ?dev, ?s)" by (simp add: Let_def)
    from open_next [OF this leads_trim] True show ?thesis
      by (auto simp: scull_open_def Let_def split: bind_splits)
  next
    case False
    then have "open_step K (Open c f flags) s = Some (Return, ?s)" by (simp add: Let_def)
    from open_next [OF this leads_refl] False show ?thesis by (simp add: scull_open_def Let_def)
  qed
qed

section \<open>Steps are local\<close>

text \<open>A step as a function of the heap: the heap after it and the kernel calls it makes.\<close>

definition bare :: "heap \<Rightarrow> scull_state" where
  "bare h = \<lparr>klog = [], devno = 0, scull_devices = [], heap = h, private_data = Map.empty, umem = (\<lambda>a. CHR 0x00)\<rparr>"

definition open_local :: "linux \<Rightarrow> open_pc \<Rightarrow> heap \<Rightarrow> (open_pc \<times> heap \<times> kcall klog) option" where
  "open_local K p h = map_option (\<lambda>(p', s). (p', heap s, klog s)) (open_step K p (bare h))"

lemma bare_sel [simp]: "heap (bare h) = h" "klog (bare h) = []"
  by (simp_all add: bare_def)

lemmas access_defs = get_dev_def get_qset_def get_elem_def upd_dev_def upd_qset_def kfree_def Let_def

lemma open_step_local:
  "case open_step K p s of None \<Rightarrow> open_local K p (heap s) = None
   | Some (p', s') \<Rightarrow> \<exists>es. open_local K p (heap s) = Some (p', heap s', es) \<and> klog s' = klog s @ es"
  by (cases p) (simp_all add: open_local_def access_defs split: option.splits obj.splits if_splits)

lemma map_add_left: "dom h \<inter> dom g = {} \<Longrightarrow> h x = Some y \<Longrightarrow> (h ++ g) x = Some y"
  by (auto simp: map_add_def dom_def split: option.split)

lemma map_add_upd_left:
  "dom h \<inter> dom g = {} \<Longrightarrow> h x = Some y \<Longrightarrow> (h ++ g)(x := v) = h(x := v) ++ g"
  by (auto simp: fun_eq_iff map_add_def split: option.split)

lemma open_local_frame:
  assumes "open_local K p h = Some (p', h', es)" and "dom h \<inter> dom g = {}"
  shows "open_local K p (h ++ g) = Some (p', h' ++ g, es)"
  using assms
  by (cases p) (auto simp: open_local_def access_defs map_add_left map_add_upd_left
    split: option.splits obj.splits if_splits)

lemma open_local_shrinks: "open_local K p h = Some (p', h', es) \<Longrightarrow> dom h' \<subseteq> dom h"
  by (cases p) (auto simp: open_local_def access_defs split: option.splits obj.splits if_splits)

interpretation opens: local_steps "open_step K" returned heap klog "open_local K" for K
proof (unfold_locales, goal_cases)
  case (1 p s)
  show ?case by (rule open_step_local)
next
  case (2 p h p' h' es g)
  then show ?case by (rule open_local_frame)
next
  case (3 p h p' h' es)
  then show ?case by (rule open_local_shrinks)
next
  case (4 p h)
  then show ?case by (simp add: open_local_def)
qed

section \<open>Opens in parallel\<close>

text \<open>
  A call is given by the device, the file and its flags. A write-only open works on the device and
  its chain, any other open on no memory of the driver at all.
\<close>

type_synonym open_call = "ptr \<times> ptr \<times> u32"

definition wronly :: "open_call \<Rightarrow> bool" where
  "wronly x = (snd (snd x) AND O_ACCMODE = O_WRONLY)"

definition written :: "open_call list \<Rightarrow> ptr list" where
  "written xs = map fst (filter wronly xs)"

definition open_thread :: "linux \<Rightarrow> open_call \<Rightarrow> open_pc" where
  "open_thread K x = (case x of (a, f, flags) \<Rightarrow> Open (cdev_ptr K a) f flags)"

definition own :: "(ptr \<Rightarrow> chain) \<Rightarrow> open_call \<Rightarrow> ptr set" where
  "own C x = (if wronly x then insert (fst x) (set (footprint (C (fst x)))) else {})"

fun reset_obj :: "obj \<Rightarrow> obj" where
  "reset_obj (DevObj d) = DevObj (reset_dev d)"
| "reset_obj x = x"

definition emptied_heap :: "(ptr \<Rightarrow> chain) \<Rightarrow> ptr set \<Rightarrow> heap \<Rightarrow> heap" where
  "emptied_heap C W h = (\<lambda>x. if \<exists>a\<in>W. x \<in> set (footprint (C a)) then None
     else if x \<in> W then map_option reset_obj (h x) else h x)"

definition trim_events :: "chain \<Rightarrow> kcall klog" where
  "trim_events xs = freed (concat (map entry_frees xs))"

lemma filter_map_distinct_nth:
  "distinct (map f (filter P xs)) \<Longrightarrow> i < length xs \<Longrightarrow> j < length xs \<Longrightarrow> i \<noteq> j \<Longrightarrow>
   P (xs ! i) \<Longrightarrow> P (xs ! j) \<Longrightarrow> f (xs ! i) \<noteq> f (xs ! j)"
proof (induction xs arbitrary: i j)
  case Nil
  then show ?case by simp
next
  case (Cons x xs)
  have out: "f x \<noteq> f (xs ! k)" if "P x" "k < length xs" "P (xs ! k)" for k
    using Cons.prems(1) that by auto
  show ?case
    using Cons.prems Cons.IH [of "i - 1" "j - 1"] out [of "j - 1"] out [of "i - 1"]
    by (cases i; cases j) (auto split: if_splits)
qed

text \<open>What the invariant says of one device and of two.\<close>

lemma scull_ok_dev:
  assumes "scull_ok K M as C s" and "a \<in> set as"
  obtains d where "heap s a = Some (DevObj d)" "qchain (heap s) (qset d) (data d) (C a)"
    "distinct (footprint (C a))"
  using assms distinct_concat_elem [of "\<lambda>a. footprint (C a)" as a] by (auto simp: scull_ok_def)

lemma scull_ok_not_dev:
  "scull_ok K M as C s \<Longrightarrow> a \<in> set as \<Longrightarrow> b \<in> set as \<Longrightarrow> b \<notin> set (footprint (C a))"
  by (metis scull_ok_dev qchain_not_dev)

lemma scull_ok_disjoint:
  assumes "scull_ok K M as C s" and "a \<in> set as" and "b \<in> set as" and "a \<noteq> b"
  shows "set (footprint (C a)) \<inter> set (footprint (C b)) = {}"
  using assms distinct_concat_disjoint [of "\<lambda>a. footprint (C a)" as a b] by (simp add: scull_ok_def)

lemma own_disjoint:
  assumes ok: "scull_ok K M as C s" and as: "fst ` set xs \<subseteq> set as" and dist: "distinct (written xs)"
    and ij: "i < length xs" "j < length xs" "i \<noteq> j"
  shows "own C (xs ! i) \<inter> own C (xs ! j) = {}"
proof (cases "wronly (xs ! i) \<and> wronly (xs ! j)")
  case True
  let ?a = "fst (xs ! i)" and ?b = "fst (xs ! j)"
  have "?a \<in> set as" "?b \<in> set as" using as ij by (auto intro: nth_mem)
  moreover have "?a \<noteq> ?b" using filter_map_distinct_nth [OF dist [unfolded written_def] ij] True by simp
  ultimately show ?thesis
    using scull_ok_disjoint [OF ok] scull_ok_not_dev [OF ok] by (auto simp: own_def)
next
  case False
  then show ?thesis by (auto simp: own_def)
qed

text \<open>A call on its own memory runs to its end, and what it leaves there.\<close>

lemma open_finishes:
  assumes ok: "scull_ok K M as C s" and a: "fst x \<in> set as"
  shows "\<exists>L. opens.finishes K (open_thread K x) (heap s |` own C x) L
    (emptied_heap C (set (written [x])) (heap s) |` own C x) (if wronly x then trim_events (C (fst x)) else [])"
proof -
  obtain b f flags where x: "x = (b, f, flags)" by (cases x)
  obtain d where d: "heap s b = Some (DevObj d)" "qchain (heap s) (qset d) (data d) (C b)"
    "distinct (footprint (C b))" using scull_ok_dev [OF ok a] x by auto
  have nb: "b \<notin> set (footprint (C b))" using qchain_not_dev [OF d(2,1)] .
  let ?u = "s\<lparr>heap := heap s |` own C x\<rparr>"
  have "\<exists>u'. scull_open K (cdev_ptr K b) f flags ?u = Some (0, u') \<and>
    heap u' = emptied_heap C (set (written [x])) (heap s) |` own C x \<and>
    klog u' = klog s @ (if wronly x then trim_events (C b) else [])"
  proof (cases "wronly x")
    case True
    let ?v = "?u\<lparr>private_data := (private_data s)(f \<mapsto> b)\<rparr>"
    have own: "heap s |` own C x = removed (heap s) (- insert b (set (footprint (C b))))"
      using True by (auto simp: x own_def restrict_map_def removed_def)
    have "heap ?v b = Some (DevObj d)" "qchain (heap ?v) (qset d) (data d) (C b)"
      using d qchain_removed [OF d(2), of "- insert b (set (footprint (C b)))"] by (auto simp: own)
    from scull_trim_frees [OF this d(3) nb] True show ?thesis
      using d nb by (auto simp: x scull_open_def wronly_def trim_events_def emptied_heap_def written_def own
        removed_def restrict_map_def own_def fun_eq_iff)
  next
    case False
    then show ?thesis by (simp add: x scull_open_def wronly_def own_def)
  qed
  then obtain u' where u': "scull_open K (cdev_ptr K b) f flags ?u = Some (0, u')"
    "heap u' = emptied_heap C (set (written [x])) (heap s) |` own C x"
    "klog u' = klog s @ (if wronly x then trim_events (C b) else [])" by blast
  from leads_open [of K "cdev_ptr K b" f flags ?u] u'(1) obtain n where
    "alone (open_step K) n (open_thread K x, ?u) = Some (Return, u')"
    by (auto simp: leads_def open_thread_def x)
  from opens.alone_lrun [OF this] u' show ?thesis by (auto simp: opens.finishes_def x)
qed

text \<open>The same devices emptied one after the other.\<close>

lemma trims_in_sequence:
  assumes "scull_ok K M as C s" and "set W \<subseteq> set as" and "distinct W"
  shows "\<exists>s'. scull_ok K M as (\<lambda>a. if a \<in> set W then [] else C a) s' \<and> devno s' = devno s \<and>
    klog s' = klog s @ concat (map (\<lambda>a. trim_events (C a)) W) \<and> heap s' = emptied_heap C (set W) (heap s)"
  using assms
proof (induction W arbitrary: s C)
  case Nil
  then show ?case by (intro exI [of _ s]) (simp add: emptied_heap_def)
next
  case (Cons a W)
  note ok = Cons.prems(1)
  have a: "a \<in> set as" using Cons.prems(2) by simp
  obtain d where d: "heap s a = Some (DevObj d)" "qchain (heap s) (qset d) (data d) (C a)"
    "distinct (footprint (C a))" using scull_ok_dev [OF ok a] .
  from scull_trim_frees [OF d qchain_not_dev [OF d(2,1)]] trim_keeps_ok [OF ok a]
  obtain s1 where s1: "scull_ok K M as (C(a := [])) s1" "devno s1 = devno s"
    "klog s1 = klog s @ trim_events (C a)"
    "heap s1 = (removed (heap s) (set (footprint (C a))))(a \<mapsto> DevObj (reset_dev d))"
    by (auto simp: trim_events_def)
  have "set W \<subseteq> set as" "distinct W" using Cons.prems by auto
  from Cons.IH [OF s1(1) this] obtain s' where
    s': "scull_ok K M as (\<lambda>b. if b \<in> set W then [] else (C(a := [])) b) s'" "devno s' = devno s1"
    "klog s' = klog s1 @ concat (map (\<lambda>b. trim_events ((C(a := [])) b)) W)"
    "heap s' = emptied_heap (C(a := [])) (set W) (heap s1)" by blast
  have chains: "(\<lambda>b. if b \<in> set W then [] else (C(a := [])) b) = (\<lambda>b. if b \<in> set (a # W) then [] else C b)"
    by auto
  have events: "map (\<lambda>b. trim_events ((C(a := [])) b)) W = map (\<lambda>b. trim_events (C b)) W"
    using Cons.prems(3) by (intro map_cong) auto
  have apart: "a \<notin> set (footprint (C b))" "b \<notin> set (footprint (C a))" if "b \<in> set (a # W)" for b
    using that Cons.prems(2) scull_ok_not_dev [OF ok] by auto
  have "heap s' x = emptied_heap C (set (a # W)) (heap s) x" for x
    using apart d(1) Cons.prems(3) by (auto simp: s'(4) s1(4) emptied_heap_def removed_def)
  moreover have "klog s' = klog s @ concat (map (\<lambda>b. trim_events (C b)) (a # W))"
    unfolding s'(3) events s1(3) by simp
  ultimately show ?case
    using s'(1,2) s1(2) unfolding chains by (intro exI [of _ s']) auto
qed

text \<open>Frees count the same in any order.\<close>

lemma frees_taken:
  "ledger_from (keff K) (Some N) (freed ps) = Some M \<Longrightarrow> N = M + image_mset Mem (mset (live ps))"
proof (induction ps arbitrary: N)
  case Nil
  then show ?case by (simp add: freed_def)
next
  case (Cons p ps)
  then show ?case by (auto simp: freed_def split: if_splits)
qed

lemma frees_permute:
  assumes "ledger_from (keff K) N (freed ps) = Some M" and "mset es = mset (freed ps)"
  shows "ledger_from (keff K) N es = Some M"
proof -
  let ?f = "\<lambda>p. (Memc (Kfree p), RVoid)"
  have "\<forall>e\<in>set es. \<exists>p. e = ?f p" using mset_eq_setD [OF assms(2)] by (auto simp: freed_def)
  then obtain qs where qs: "es = freed qs" unfolding freed_def using ex_map_conv [of es ?f] by blast
  have "inj (image_mset ?f)" by (rule multiset.inj_map) (simp add: inj_def)
  then have "mset qs = mset ps" using assms(2) by (simp add: qs freed_def inj_eq)
  then have "mset (live qs) = mset (live ps)" by simp
  moreover obtain N' where "N = Some N'" using assms(1) by (cases N) auto
  ultimately show ?thesis
    using frees_taken [of K N' ps M] ledger_freed [of K M qs] assms(1) qs by simp
qed

text \<open>What a step does to the rest of the state.\<close>

lemma open_step_rest:
  assumes "open_step K p s = Some (p', s')"
  shows "devno s' = devno s \<and> scull_devices s' = scull_devices s \<and> (\<exists>es. klog s' = klog s @ es) \<and>
    private_data s' = (case p of Open c f fl \<Rightarrow> (private_data s)(f \<mapsto> container_of_cdev K c) | _ \<Rightarrow> private_data s) \<and>
    (\<forall>c f fl. p' \<noteq> Open c f fl)"
  using assms by (cases p) (auto simp: access_defs split: option.splits obj.splits if_splits)

lemma sched_rest:
  "sched (open_step K) c is c' \<Longrightarrow> devno (snd c') = devno (snd c) \<and>
   scull_devices (snd c') = scull_devices (snd c) \<and> (\<exists>es. klog (snd c') = klog (snd c) @ es)"
proof (induction rule: sched.induct)
  case (sched_start c)
  then show ?case by simp
next
  case (sched_step c "is" ps s i p' s')
  then show ?case using open_step_rest [OF sched_step.hyps(3)] by auto
qed

lemma sched_files:
  assumes "sched (open_step K) (map (open_thread K) xs, s) is (ps, t)"
    and dist: "distinct (map (\<lambda>x. fst (snd x)) xs)"
  shows "length ps = length xs \<and> (\<forall>i<length xs. ps ! i = open_thread K (xs ! i) \<or>
    private_data t (fst (snd (xs ! i))) = Some (fst (xs ! i)) \<and> (\<forall>c f fl. ps ! i \<noteq> Open c f fl))"
  using assms(1)
proof (induction "(map (open_thread K) xs, s)" "is" "(ps, t)" arbitrary: ps t rule: sched.induct)
  case sched_start
  then show ?case by simp
next
  case (sched_step "is" ps t i p' t')
  note IH = sched_step.hyps(2) and rest = open_step_rest [OF sched_step.hyps(4)]
  have i: "i < length xs" using IH sched_step.hyps(3) by simp
  have pd: "private_data t' (fst (snd (xs ! j))) = (if j = i \<and> ps ! i = open_thread K (xs ! i)
      then Some (fst (xs ! i)) else private_data t (fst (snd (xs ! j))))" if j: "j < length xs" for j
  proof (cases "ps ! i = open_thread K (xs ! i)")
    case True
    have "fst (snd (xs ! j)) = fst (snd (xs ! i)) \<longleftrightarrow> j = i"
      using nth_eq_iff_index_eq [OF dist, of j i] i j by simp
    with True rest show ?thesis by (auto simp: open_thread_def split: prod.splits)
  next
    case False
    with IH i have "\<forall>c f fl. ps ! i \<noteq> Open c f fl" by blast
    with False rest show ?thesis by (auto split: open_pc.splits)
  qed
  show ?case
  proof (intro conjI allI impI)
    show "length (ps[i := p']) = length xs" using IH by simp
    fix j assume j: "j < length xs"
    show "ps[i := p'] ! j = open_thread K (xs ! j) \<or>
      private_data t' (fst (snd (xs ! j))) = Some (fst (xs ! j)) \<and> (\<forall>c f fl. ps[i := p'] ! j \<noteq> Open c f fl)"
      using IH rest pd [OF j] j i by (cases "j = i") auto
  qed
qed

lemma emptied_own:
  assumes ok: "scull_ok K M as C s" and as: "fst ` set xs \<subseteq> set as" and x: "x \<in> set xs"
  shows "emptied_heap C (set (written [x])) (heap s) |` own C x = emptied_heap C (set (written xs)) (heap s) |` own C x"
proof (cases "wronly x")
  case True
  let ?a = "fst x" and ?W = "set (written xs)"
  have W: "?a \<in> ?W" and one: "set (written [x]) = {?a}" and own: "own C x = insert ?a (set (footprint (C ?a)))"
    using True x by (auto simp: written_def own_def)
  have "?a \<notin> set (footprint (C b))" if "b \<in> ?W" for b
    using that scull_ok_not_dev [OF ok, of b "?a"] as x by (auto simp: written_def)
  then show ?thesis
    unfolding one own using W by (auto simp: emptied_heap_def restrict_map_def fun_eq_iff)
next
  case False
  then show ?thesis by (simp add: own_def)
qed

lemma sum_written:
  "(\<Sum>i<length xs. mset (if wronly (xs ! i) then trim_events (C (fst (xs ! i))) else [])) =
   mset (concat (map (\<lambda>a. trim_events (C a)) (written xs)))"
proof -
  have "(\<Sum>i<length xs. mset (if wronly (xs ! i) then trim_events (C (fst (xs ! i))) else [])) =
      (\<Sum>x\<leftarrow>xs. mset (if wronly x then trim_events (C (fst x)) else []))"
    by (simp add: sum_list_sum_nth atLeast0LessThan)
  also have "\<dots> = mset (concat (map (\<lambda>a. trim_events (C a)) (written xs)))"
    by (induction xs) (simp_all add: written_def)
  finally show ?thesis .
qed

lemma concat_freed: "concat (map (\<lambda>a. trim_events (C a)) W) = freed (concat (map (\<lambda>a. concat (map entry_frees (C a))) W))"
  by (induction W) (simp_all add: trim_events_def freed_def)

text \<open>The state in which all calls have returned.\<close>

lemma opens_end:
  assumes ok: "scull_ok K M as C s" and as: "fst ` set xs \<subseteq> set as" and dist: "distinct (written xs)"
    and run: "sched (open_step K) (map (open_thread K) xs, s) is (ps, t)"
    and own: "\<And>i. i < length xs \<Longrightarrow> heap t |` own C (xs ! i) = emptied_heap C (set (written [xs ! i])) (heap s) |` own C (xs ! i)"
    and rest: "\<And>B. (\<And>i. i < length xs \<Longrightarrow> B \<inter> own C (xs ! i) = {}) \<Longrightarrow> heap t |` B = heap s |` B"
    and events: "mset (klog t) = mset (klog s) + mset (concat (map (\<lambda>a. trim_events (C a)) (written xs)))"
  shows "scull_ok K M as (\<lambda>a. if a \<in> set (written xs) then [] else C a) t"
proof -
  have "set (written xs) \<subseteq> set as" using as by (auto simp: written_def)
  from trims_in_sequence [OF ok this dist] obtain s' where
    s': "scull_ok K M as (\<lambda>a. if a \<in> set (written xs) then [] else C a) s'" "devno s' = devno s"
    "klog s' = klog s @ concat (map (\<lambda>a. trim_events (C a)) (written xs))"
    "heap s' = emptied_heap C (set (written xs)) (heap s)" by blast
  have "heap t y = emptied_heap C (set (written xs)) (heap s) y" for y
  proof (cases "\<exists>i<length xs. y \<in> own C (xs ! i)")
    case True
    then obtain i where i: "i < length xs" "y \<in> own C (xs ! i)" by blast
    have "(heap t |` own C (xs ! i)) y = (emptied_heap C (set (written xs)) (heap s) |` own C (xs ! i)) y"
      using own [OF i(1)] emptied_own [OF ok as, of "xs ! i"] i(1) by simp
    with i(2) show ?thesis by simp
  next
    case False
    then have "heap t |` {y} = heap s |` {y}" by (intro rest) auto
    then have "heap t y = heap s y" by (metis restrict_in singletonI)
    moreover have "y \<noteq> a \<and> y \<notin> set (footprint (C a))" if "a \<in> set (written xs)" for a
    proof -
      from that obtain x where "x \<in> set xs" "wronly x" "a = fst x" by (auto simp: written_def)
      moreover from this(1) False have "y \<notin> own C x" by (auto simp: in_set_conv_nth)
      ultimately show ?thesis by (simp add: own_def)
    qed
    ultimately show ?thesis by (auto simp: emptied_heap_def)
  qed
  then have heap: "heap t = heap s'" using s'(4) by auto
  obtain es where es: "klog t = klog s @ es" "devno t = devno s" "scull_devices t = scull_devices s"
    using sched_rest [OF run] by auto
  with events have "mset es = mset (concat (map (\<lambda>a. trim_events (C a)) (written xs)))" by simp
  moreover obtain N where N: "held K s' = Some N" using s'(1) by (auto simp: scull_ok_def)
  ultimately have "held K t = Some N"
    using frees_permute [of K "held K s" "concat (map (\<lambda>a. concat (map entry_frees (C a))) (written xs))" N es]
    by (simp add: s'(3) es(1) concat_freed ledger_append)
  then show ?thesis
    using s'(1,2) ok heap es N by (simp add: scull_ok_def)
qed

section \<open>Properties\<close>

text \<open>
  The steps are the function. A call run alone reaches its return in the state \<open>scull_open\<close>
  computes, with the result 0, and where \<open>scull_open\<close> is undefined the steps reach an access
  outside live memory.
\<close>

theorem scull_open_step_by_step:
  "case scull_open K c f flags s of
     Some (r, s') \<Rightarrow> r = 0 \<and> (\<exists>n. alone (open_step K) n (Open c f flags, s) = Some (Return, s'))
   | None \<Rightarrow> \<exists>n p t. alone (open_step K) n (Open c f flags, s) = Some (p, t) \<and>
       crashed (open_step K) returned ([p], t)"
proof (cases "scull_open K c f flags s")
  case None
  with leads_open [of K c f flags s] show ?thesis by (auto simp: leads_def crashed_def)
next
  case (Some x)
  obtain r s' where x: "x = (r, s')" by (cases x)
  with Some have "r = 0" by (auto simp: scull_open_def Let_def bind_eq_Some_conv split: if_splits)
  with leads_open [of K c f flags s] Some x show ?thesis by (auto simp: leads_def)
qed

text \<open>
  C4: start from well-formed devices (\<open>scull_ok\<close>: every chain in live memory of its own and every field
  set; the freshly loaded module, whose \<open>data\<close> fields hold garbage, is not such a state). Any number of
  processes may then be in \<open>scull_open\<close> at once, each on one of these devices with a file of its
  own, as long as no two of them empty the same device. No interleaving of their memory accesses, however long, reaches undefined
  behaviour; none goes on for ever; and when all calls have returned, the devices are
  well-formed, those opened write-only are empty, the others unchanged, the memory held is exactly what is
  left, and every file has its device.
\<close>

theorem scull_opens_in_parallel:
  assumes ok: "scull_ok K M as C s" and as: "fst ` set xs \<subseteq> set as" and dist: "distinct (written xs)"
    and files: "distinct (map (\<lambda>x. fst (snd x)) xs)"
  shows "\<exists>N. \<forall>is ps t. sched (open_step K) (map (open_thread K) xs, s) is (ps, t) \<longrightarrow>
    length is \<le> N \<and> \<not> crashed (open_step K) returned (ps, t) \<and>
    (list_all returned ps \<longrightarrow> scull_ok K M as (\<lambda>a. if a \<in> set (written xs) then [] else C a) t \<and>
      (\<forall>x\<in>set xs. private_data t (fst (snd x)) = Some (fst x)))"
proof -
  let ?n = "length xs" and ?ps = "map (open_thread K) xs" and ?A = "\<lambda>i. own C (xs ! i)"
  let ?h = "\<lambda>i. emptied_heap C (set (written [xs ! i])) (heap s) |` own C (xs ! i)"
  let ?es = "\<lambda>i. if wronly (xs ! i) then trim_events (C (fst (xs ! i))) else []"
  have "\<exists>L. i < ?n \<longrightarrow> opens.finishes K (?ps ! i) (heap s |` ?A i) L (?h i) (?es i)" for i
  proof (cases "i < ?n")
    case True
    then have "fst (xs ! i) \<in> set as" using as by (auto intro: nth_mem)
    from open_finishes [OF ok this] True show ?thesis by simp
  qed simp
  then obtain L where L: "\<And>i. i < ?n \<Longrightarrow> opens.finishes K (?ps ! i) (heap s |` ?A i) (L i) (?h i) (?es i)"
    by metis
  show ?thesis
  proof (intro exI [of _ "\<Sum>i<?n. L i"] allI impI)
    fix "is" ps t assume run: "sched (open_step K) (?ps, s) is (ps, t)"
    have disj: "?A i \<inter> ?A j = {}" if "i < length ?ps" "j < length ?ps" "i \<noteq> j" for i j
      using own_disjoint [OF ok as dist, of i j] that by simp
    have ends: "opens.finishes K (?ps ! i) (heap s |` ?A i) (L i) (?h i) (?es i)" if "i < length ?ps" for i
      using L that by simp
    note safe = opens.schedules_safe [OF run disj ends, unfolded length_map sum_written]
    have "set is \<subseteq> {..<?n}" using sched_threads [OF run] by simp
    then have "length is = (\<Sum>i<?n. count_list is i)" by (simp add: sum_count_set)
    also have "\<dots> \<le> (\<Sum>i<?n. L i)" using safe(2) by (intro sum_mono) simp
    finally have len: "length is \<le> (\<Sum>i<?n. L i)" .
    moreover note safe(1)
    moreover have "scull_ok K M as (\<lambda>a. if a \<in> set (written xs) then [] else C a) t"
      if "list_all returned ps"
      using safe(3-5) that by (intro opens_end [OF ok as dist run]) blast+
    moreover have "\<forall>x\<in>set xs. private_data t (fst (snd x)) = Some (fst x)" if "list_all returned ps"
      using sched_files [OF run files] that
      by (fastforce simp: in_set_conv_nth list_all_length open_thread_def split: prod.splits)
    ultimately show "length is \<le> (\<Sum>i<?n. L i) \<and> \<not> crashed (open_step K) returned (ps, t) \<and>
      (list_all returned ps \<longrightarrow> scull_ok K M as (\<lambda>a. if a \<in> set (written xs) then [] else C a) t \<and>
        (\<forall>x\<in>set xs. private_data t (fst (snd x)) = Some (fst x)))" by blast
  qed
qed

text \<open>
  C18: two processes that open the same non-empty device write-only can bring the driver down. The
  first has read \<open>dev->data\<close> when the second empties the device; the first then follows a
  pointer to freed memory. The semaphore in \<open>struct scull_dev\<close> is there to prevent this and is never taken.
\<close>

theorem scull_open_race:
  assumes ok: "scull_ok K M as C s" and a: "a \<in> set as" and "C a \<noteq> []"
    and w: "wronly (a, f, fl)" "wronly (a, g, gl)"
  shows "\<exists>is c. sched (open_step K) ([Open (cdev_ptr K a) f fl, Open (cdev_ptr K a) g gl], s) is c \<and>
    crashed (open_step K) returned c"
proof -
  obtain d where d: "heap s a = Some (DevObj d)" "qchain (heap s) (qset d) (data d) (C a)"
    "distinct (footprint (C a))" using scull_ok_dev [OF ok a] .
  let ?s1 = "s\<lparr>private_data := (private_data s)(f \<mapsto> a)\<rparr>"
  let ?p0 = "Open (cdev_ptr K a) f fl" and ?p1 = "Open (cdev_ptr K a) g gl"
  let ?q = "Loop a (qset d) (data d)"
  have "alone (open_step K) 3 (?p0, s) = Some (?q, ?s1)"
    using d(1) w(1) by (simp add: eval_nat_numeral wronly_def get_dev_def Let_def)
  from alone_sched [OF this, of 0 "[?p0, ?p1]"]
  have first: "sched (open_step K) ([?p0, ?p1], s) (replicate 3 0) ([?q, ?p1], ?s1)" by simp
  have "\<exists>t. scull_open K (cdev_ptr K a) g gl ?s1 = Some (0, t) \<and>
      heap t = (removed (heap s) (set (footprint (C a))))(a \<mapsto> DevObj (reset_dev d))"
    using scull_trim_frees [of "?s1\<lparr>private_data := (private_data ?s1)(g \<mapsto> a)\<rparr>" a d "C a"] d w(2) qchain_not_dev [OF d(2,1)]
    by (simp add: scull_open_def Let_def wronly_def)
  then obtain t where t: "scull_open K (cdev_ptr K a) g gl ?s1 = Some (0, t)"
    "heap t = (removed (heap s) (set (footprint (C a))))(a \<mapsto> DevObj (reset_dev d))" by blast
  from leads_open [of K "cdev_ptr K a" g gl ?s1] t(1) obtain n where
    "alone (open_step K) n (?p1, ?s1) = Some (Return, t)" by (auto simp: leads_def)
  from alone_sched [OF this, of 1 "[?q, ?p1]"]
  have second: "sched (open_step K) ([?q, ?p1], ?s1) (replicate n 1) ([?q, Return], t)" by simp
  obtain x xs where x: "C a = x # xs" using assms(3) by (cases "C a") auto
  obtain node arr ps where "x = (node, arr, ps)" by (cases x)
  with d(2) x have "data d \<noteq> NULL" "data d \<in> set (footprint (C a))" by (auto simp: footprint_def)
  moreover from this(2) have "data d \<noteq> a" using qchain_not_dev [OF d(2,1)] by auto
  ultimately have "crashed (open_step K) returned ([?q, Return], t)"
    by (simp add: crashed_def get_qset_def t(2) removed_def)
  with sched_append [OF first second] show ?thesis by blast
qed

abbreviation sample_opens :: "open_call list" where
  "sample_opens \<equiv> [(8, 1000, 1), (four_devices ! 1, 1001, 1), (8, 1002, 0)]"

theorem scull_opens_in_parallel_witness:
  "\<exists>N. \<forall>is ps t. sched (open_step copying_kernel) (map (open_thread copying_kernel) sample_opens, used_state) is (ps, t) \<longrightarrow>
     length is \<le> N \<and> \<not> crashed (open_step copying_kernel) returned (ps, t) \<and>
     (list_all returned ps \<longrightarrow> private_data t 1002 = Some 8)"
proof -
  have "fst ` set sample_opens \<subseteq> set four_devices" "distinct (written sample_opens)"
    "distinct (map (\<lambda>x. fst (snd x)) sample_opens)"
    by (simp_all add: four_devices_def written_def wronly_def)
  from scull_opens_in_parallel [OF used_state_ok this] show ?thesis
    by (elim ex_forward) (simp del: list.map)
qed

theorem scull_open_race_witness:
  "\<exists>is c. sched (open_step copying_kernel) ([Open 72 1000 1, Open 72 1001 1], used_state) is c \<and>
     crashed (open_step copying_kernel) returned c"
  using scull_open_race [OF used_state_ok, of 8 1000 1 1001 1]
  by (simp add: four_devices_def used_chains_def wronly_def cdev_ptr_def)

end
