(* ===== verification/Simple_Dma.thy ===== *)
theory Simple_Dma
  imports Module_Contract
begin

text \<open>
  The character device with a DMA buffer, \<open>dma_user/simple_dma_module.c\<close>.

  The file-scope variables are the fields of \<open>sdma_state\<close>; \<open>dma_mem\<close> holds the bytes of
  the coherent buffer. Indexing the buffer out of range is \<open>None\<close>.

  Shown: the transfer reverses the buffer and is its own inverse; the answers of \<open>mmap\<close> and
  \<open>ioctl\<close> on every branch; load and unload against the ledger on every path, with the
  buffer that a failed load leaves behind; and that a fresh device class has no device, so
  the buffer is never allocated at all.
\<close>

section \<open>State\<close>

record sdma_state = "kcall kstate" +
  simple_dma_dev_t :: u64
  simple_dma_cdev :: ptr
  simple_dma_class :: ptr
  dma_buffer_virt :: ptr
  dma_buffer_phys :: u64
  dma_device :: ptr
  dma_mem :: "u8 list"

definition DMA_BUFFER_SIZE :: "linux \<Rightarrow> nat" where
  "DMA_BUFFER_SIZE K = 4 * PAGE_SIZE K"

definition SIMPLE_DMA_START_TRANSFER :: "linux \<Rightarrow> u32" where
  "SIMPLE_DMA_START_TRANSFER K = IO_CMD K 115 1"

text \<open>Conversion of a \<open>long\<close> or \<open>unsigned long\<close> value to \<open>int\<close>.\<close>

definition to_int32 :: "int \<Rightarrow> int" where
  "to_int32 x = signed_take_bit 31 x"

section \<open>File operations\<close>

definition simple_dma_open :: "sdma_state \<Rightarrow> int \<times> sdma_state" where
  "simple_dma_open s = (0, s)"

definition simple_dma_release :: "sdma_state \<Rightarrow> int \<times> sdma_state" where
  "simple_dma_release s = (0, s)"

record vm_area =
  vm_start :: u64
  vm_end :: u64
  vm_pgoff :: u64

definition simple_dma_mmap :: "linux \<Rightarrow> vm_area \<Rightarrow> (sdma_state, int) state" where
  "simple_dma_mmap K vma = (let size = vm_end vma - vm_start vma in
     if unat size > DMA_BUFFER_SIZE K then ret (- EINVAL)
     else if vm_pgoff vma \<noteq> 0 then ret (- EINVAL)
     else do {
       dev \<leftarrow> gets dma_device;
       virt \<leftarrow> gets dma_buffer_virt;
       phys \<leftarrow> gets dma_buffer_phys;
       r \<leftarrow> call_int K (Memc (Dma_mmap_coherent dev virt phys size));
       if r < 0 then ret r else ret 0
     })"

definition buf_get :: "u8 list \<Rightarrow> int \<Rightarrow> u8 option" where
  "buf_get buf i = (if 0 \<le> i \<and> i < int (length buf) then Some (buf ! nat i) else None)"

definition buf_set :: "u8 list \<Rightarrow> int \<Rightarrow> u8 \<Rightarrow> u8 list option" where
  "buf_set buf i v = (if 0 \<le> i \<and> i < int (length buf) then Some (buf[nat i := v]) else None)"

function reverse_loop :: "int \<Rightarrow> int \<Rightarrow> u8 list \<Rightarrow> u8 list option" where
  "reverse_loop i j buf =
     (if i < j then do {
        temp \<leftarrow> buf_get buf i;
        bj \<leftarrow> buf_get buf j;
        buf \<leftarrow> buf_set buf i bj;
        buf \<leftarrow> buf_set buf j temp;
        reverse_loop (i + 1) (j - 1) buf
      } else Some buf)"
  by pat_completeness auto
termination
  by (relation "measure (\<lambda>(i, j, buf). nat (j - i))") auto

declare reverse_loop.simps [simp del]

definition simple_dma_ioctl :: "linux \<Rightarrow> u32 \<Rightarrow> sdma_state \<Rightarrow> (int \<times> sdma_state) option" where
  "simple_dma_ioctl K cmd s =
     (if cmd = SIMPLE_DMA_START_TRANSFER K then
        if dma_buffer_virt s \<noteq> NULL then do {
          buf \<leftarrow> reverse_loop 0 (to_int32 (int (DMA_BUFFER_SIZE K) - 1)) (dma_mem s);
          Some (0, s\<lparr>dma_mem := buf\<rparr>)
        } else Some (- EFAULT, s)
      else Some (- ENOTTY, s))"

section \<open>Module initialisation and exit\<close>

definition unregister_chrdev :: "int \<Rightarrow> (sdma_state, int) state" where
  "unregister_chrdev r = do {
     d \<leftarrow> gets simple_dma_dev_t;
     call_void (Chr (Unregister_chrdev_region d 1));
     ret r
   }"

definition destroy_class :: "int \<Rightarrow> (sdma_state, int) state" where
  "destroy_class r = do {
     c \<leftarrow> gets simple_dma_class;
     call_void (Chr (Class_destroy c));
     unregister_chrdev r
   }"

definition del_cdev :: "int \<Rightarrow> (sdma_state, int) state" where
  "del_cdev r = do {
     c \<leftarrow> gets simple_dma_cdev;
     call_void (Chr (Cdev_del c));
     destroy_class r
   }"

text \<open>Steps 3 and 4: find a device and allocate the coherent buffer for it.\<close>

definition init_buffer :: "linux \<Rightarrow> (sdma_state, unit) state" where
  "init_buffer K = do {
     cls \<leftarrow> gets simple_dma_class;
     dev \<leftarrow> call_u64 K (Chr (Class_find_device cls));
     modify (\<lambda>s. s\<lparr>dma_device := dev\<rparr>);
     if dev = NULL then modify (\<lambda>s. s\<lparr>dma_device := NULL\<rparr>)
     else do {
       (virt, phys) \<leftarrow> call_u64_out K (Memc (Dma_alloc_coherent dev (of_nat (DMA_BUFFER_SIZE K))));
       modify (\<lambda>s. s\<lparr>dma_buffer_virt := virt, dma_buffer_phys := phys\<rparr>);
       if virt = NULL then ret ()
       else modify (\<lambda>s. s\<lparr>dma_mem := replicate (DMA_BUFFER_SIZE K) 0\<rparr>)
     }
   }"

text \<open>Steps 5 and 6: the character device and its node.\<close>

definition init_cdev :: "linux \<Rightarrow> (sdma_state, int) state" where
  "init_cdev K = do {
     c \<leftarrow> gets simple_dma_cdev;
     d \<leftarrow> gets simple_dma_dev_t;
     call_void (Chr (Cdev_init c ''simple_dma_fops''));
     r \<leftarrow> call_int K (Chr (Cdev_add c d 1));
     if r < 0 then destroy_class r
     else do {
       cls \<leftarrow> gets simple_dma_class;
       node \<leftarrow> call_u64 K (Chr (Device_create cls d ''simple_dma''));
       if IS_ERR K node then del_cdev (to_int32 (PTR_ERR K cls)) else ret 0
     }
   }"

definition simple_dma_init :: "linux \<Rightarrow> (sdma_state, int) state" where
  "simple_dma_init K = do {
     (r, d) \<leftarrow> call_int_out K (Chr (Alloc_chrdev_region 0 1 ''simple_dma''));
     modify (\<lambda>s. s\<lparr>simple_dma_dev_t := d\<rparr>);
     if r < 0 then ret r
     else do {
       cls \<leftarrow> call_u64 K (Chr (Class_create ''simple_dma''));
       modify (\<lambda>s. s\<lparr>simple_dma_class := cls\<rparr>);
       if IS_ERR K cls then unregister_chrdev (to_int32 (PTR_ERR K cls))
       else do {
         init_buffer K;
         init_cdev K
       }
     }
   }"

definition simple_dma_exit :: "linux \<Rightarrow> (sdma_state, unit) state" where
  "simple_dma_exit K = do {
     cls \<leftarrow> gets simple_dma_class;
     d \<leftarrow> gets simple_dma_dev_t;
     call_void (Chr (Device_destroy cls d));
     c \<leftarrow> gets simple_dma_cdev;
     call_void (Chr (Cdev_del c));
     call_void (Chr (Class_destroy cls));
     call_void (Chr (Unregister_chrdev_region d 1));
     virt \<leftarrow> gets dma_buffer_virt;
     phys \<leftarrow> gets dma_buffer_phys;
     dev \<leftarrow> gets dma_device;
     if virt \<noteq> NULL \<and> dev \<noteq> NULL then
       call_void (Memc (Dma_free_coherent dev (of_nat (DMA_BUFFER_SIZE K)) virt phys))
     else if virt \<noteq> NULL then
       call_void (Memc (Dma_free_coherent NULL (of_nat (DMA_BUFFER_SIZE K)) virt phys))
     else ret ()
   }"

section \<open>The transfer reverses the buffer\<close>

lemma reverse_loop_pointwise:
  assumes "0 \<le> i" and "j < int (length buf)"
  shows "\<exists>buf'. reverse_loop i j buf = Some buf' \<and> length buf' = length buf \<and>
    (\<forall>k. 0 \<le> k \<and> k < int (length buf) \<longrightarrow>
       buf' ! nat k = (if i \<le> k \<and> k \<le> j then buf ! nat (i + j - k) else buf ! nat k))"
  using assms
proof (induction i j buf rule: reverse_loop.induct)
  case (1 i j buf)
  show ?case
  proof (cases "i < j")
    case True
    define buf1 where "buf1 = buf[nat i := buf ! nat j, nat j := buf ! nat i]"
    have step: "reverse_loop i j buf = reverse_loop (i + 1) (j - 1) buf1"
      using True "1.prems"
      by (subst reverse_loop.simps) (simp add: buf_get_def buf_set_def buf1_def)
    obtain buf' where b: "reverse_loop (i + 1) (j - 1) buf1 = Some buf'"
      "length buf' = length buf1"
      "\<forall>k. 0 \<le> k \<and> k < int (length buf1) \<longrightarrow>
        buf' ! nat k = (if i + 1 \<le> k \<and> k \<le> j - 1 then buf1 ! nat (i + j - k) else buf1 ! nat k)"
      using "1.IH" [OF True, of "buf ! nat i" "buf ! nat j" "buf[nat i := buf ! nat j]" buf1]
        True "1.prems"
      by (auto simp: buf_get_def buf_set_def buf1_def)
    have "buf1 ! nat k = (if k = i then buf ! nat j else if k = j then buf ! nat i else buf ! nat k)"
      if "0 \<le> k" "k < int (length buf)" for k
      using that True "1.prems" by (auto simp: buf1_def nth_list_update nat_eq_iff)
    then have "buf' ! nat k = (if i \<le> k \<and> k \<le> j then buf ! nat (i + j - k) else buf ! nat k)"
      if "0 \<le> k" "k < int (length buf)" for k
      using that b(2,3) True "1.prems" by (auto simp: buf1_def)
    then show ?thesis using b step by (auto simp: buf1_def)
  next
    case False
    have mid: "i + j - k = k" if "i \<le> k" "k \<le> j" for k using that False by simp
    from False show ?thesis by (simp add: mid reverse_loop.simps [of i j buf])
  qed
qed

lemma reverse_loop_rev: "reverse_loop 0 (int (length buf) - 1) buf = Some (rev buf)"
proof -
  obtain buf' where b: "reverse_loop 0 (int (length buf) - 1) buf = Some buf'"
    "length buf' = length buf"
    and nth: "\<And>k. 0 \<le> k \<Longrightarrow> k < int (length buf) \<Longrightarrow>
      buf' ! nat k = buf ! nat (int (length buf) - 1 - k)"
    using reverse_loop_pointwise [of 0 "int (length buf) - 1" buf] by auto
  have "buf' = rev buf"
  proof (rule nth_equalityI)
    fix n assume n: "n < length buf'"
    with b nth [of "int n"] have "buf' ! n = buf ! nat (int (length buf) - 1 - int n)" by simp
    also have "nat (int (length buf) - 1 - int n) = length buf - Suc n" by simp
    finally show "buf' ! n = rev buf ! n" using n b by (simp add: rev_nth)
  qed (simp add: b)
  with b show ?thesis by simp
qed

section \<open>Load and unload against the ledger\<close>

text \<open>
  What the module relies on: the character device functions report an error by a negative
  number and success by 0; error pointers encode the numbers -4095 to -1.
\<close>

definition status_nonpos :: "linux \<Rightarrow> bool" where
  "status_nonpos K \<longleftrightarrow> (\<forall>l c. k_int K l (Chr c) \<le> 0)"

definition err_ptrs :: "linux \<Rightarrow> bool" where
  "err_ptrs K \<longleftrightarrow> (\<forall>p. IS_ERR K p \<longrightarrow> - 4095 \<le> PTR_ERR K p \<and> PTR_ERR K p \<le> - 1)"

text \<open>A class that has just been created has no device.\<close>

definition new_class_empty :: "linux \<Rightarrow> bool" where
  "new_class_empty K \<longleftrightarrow> (\<forall>l n c.
     k_u64 K (l @ [(Chr (Class_create n), RU64 c)]) (Chr (Class_find_device c)) = NULL)"

text \<open>No \<open>device_create\<close> has failed in a history.\<close>

definition nodes_created :: "linux \<Rightarrow> kevent list \<Rightarrow> bool" where
  "nodes_created K es \<longleftrightarrow>
     list_all (\<lambda>e. case fst e of Chr (Device_create c d n) \<Rightarrow> \<not> IS_ERR K (value_of (snd e)) | _ \<Rightarrow> True) es"

lemma nodes_created_simps [simp]:
  "nodes_created K []" "nodes_created K (es @ fs) \<longleftrightarrow> nodes_created K es \<and> nodes_created K fs"
  "nodes_created K (e # es) \<longleftrightarrow>
     (case fst e of Chr (Device_create c d n) \<Rightarrow> \<not> IS_ERR K (value_of (snd e)) | _ \<Rightarrow> True) \<and> nodes_created K es"
  by (simp_all add: nodes_created_def)

definition sdma_owns :: "sdma_state \<Rightarrow> res multiset" where
  "sdma_owns s = {#ChrRegion (simple_dma_dev_t s) 1, DevClass (simple_dma_class s),
     Cdev (simple_dma_cdev s), DevNode (simple_dma_class s) (simple_dma_dev_t s)#}"

definition sdma_buffer :: "linux \<Rightarrow> sdma_state \<Rightarrow> res multiset" where
  "sdma_buffer K s = (if dma_buffer_virt s = NULL then {#}
     else {#DmaBuf (dma_device s) (of_nat (DMA_BUFFER_SIZE K)) (dma_buffer_virt s) (dma_buffer_phys s)#})"

lemma init_buffer_held:
  assumes "dma_buffer_virt s = NULL" and "run_state (init_buffer K) s = (u, s')"
  shows "(held K s = Some M \<longrightarrow> held K s' = Some (M + sdma_buffer K s')) \<and> simple_dma_class s' = simple_dma_class s \<and>
    simple_dma_cdev s' = simple_dma_cdev s \<and> simple_dma_dev_t s' = simple_dma_dev_t s \<and>
    (dma_buffer_virt s' \<noteq> NULL \<longrightarrow> dma_device s' \<noteq> NULL) \<and>
    (\<exists>es. klog s' = klog s @ es \<and> nodes_created K es)"
  using assms by (auto simp: init_buffer_def sdma_buffer_def split: if_splits)

text \<open>
  The character device and its node. A failure gives both back with the class and the device numbers; only the status
  of a failed \<open>device_create\<close> may be anything, since it is taken from the class pointer.
\<close>

lemma init_cdev_held:
  assumes "status_nonpos K" and "run_state (init_cdev K) s = (r, s')"
  shows "sdma_buffer K s' = sdma_buffer K s \<and> dma_device s' = dma_device s \<and> dma_buffer_virt s' = dma_buffer_virt s \<and>
    (\<exists>es. klog s' = klog s @ es \<and> (nodes_created K es \<longrightarrow> r \<le> 0) \<and>
      (held K s = Some (add_mset (ChrRegion (simple_dma_dev_t s) 1) (add_mset (DevClass (simple_dma_class s)) M)) \<longrightarrow>
        (r \<noteq> 0 \<longrightarrow> held K s' = Some M) \<and>
        (r = 0 \<longrightarrow> nodes_created K es \<longrightarrow> held K s' = Some (M + sdma_owns s'))))"
proof -
  let ?l = "klog s @ [(Chr (Cdev_init (simple_dma_cdev s) ''simple_dma_fops''), RVoid)]"
  have "k_int K ?l (Chr (Cdev_add (simple_dma_cdev s) (simple_dma_dev_t s) 1)) \<le> 0"
    using assms(1) by (simp add: status_nonpos_def)
  then show ?thesis
    using assms(2)
    by (auto simp: init_cdev_def destroy_class_def unregister_chrdev_def del_cdev_def sdma_owns_def
      sdma_buffer_def split: if_splits)
qed

text \<open>A load that fails keeps the buffer, if it had got that far; nothing else.\<close>

lemma to_int32_id: "- (2 ^ 31) \<le> x \<Longrightarrow> x < 2 ^ 31 \<Longrightarrow> to_int32 x = x"
  by (simp add: to_int32_def signed_take_bit_int_eq_self)

lemma to_int32_err: "err_ptrs K \<Longrightarrow> IS_ERR K p \<Longrightarrow> to_int32 (PTR_ERR K p) < 0"
  using to_int32_id [of "PTR_ERR K p"] by (fastforce simp: err_ptrs_def)

text \<open>The state in which steps 3 to 6 start, when the first two steps have succeeded.\<close>

definition init_prefix :: "linux \<Rightarrow> sdma_state \<Rightarrow> sdma_state" where
  "init_prefix K s = (let c1 = Chr (Alloc_chrdev_region 0 1 ''simple_dma'');
     d = k_out K (klog s) c1; l1 = klog s @ [(c1, RIntOut (k_int K (klog s) c1) d)];
     c2 = Chr (Class_create ''simple_dma''); cls = k_u64 K l1 c2
   in s\<lparr>simple_dma_dev_t := d, klog := l1 @ [(c2, RU64 cls)], simple_dma_class := cls\<rparr>)"

lemma init_prefix_log: "\<exists>es. klog (init_prefix K s) = klog s @ es \<and> nodes_created K es"
  by (simp add: init_prefix_def Let_def)

lemma simple_dma_init_prefix:
  assumes K: "status_nonpos K" "err_ptrs K"
    and run: "run_state (simple_dma_init K) s = (r, s')"
  obtains (fails) "r < 0" "held K s' = held K s" "dma_buffer_virt s' = dma_buffer_virt s" "\<exists>es. klog s' = klog s @ es"
  | (goes_on) "run_state (do { init_buffer K; init_cdev K }) (init_prefix K s) = (r, s')"
      "\<And>M. held K s = Some M \<Longrightarrow> held K (init_prefix K s) =
        Some (add_mset (ChrRegion (simple_dma_dev_t (init_prefix K s)) 1)
          (add_mset (DevClass (simple_dma_class (init_prefix K s))) M))"
proof -
  let ?c1 = "Chr (Alloc_chrdev_region 0 1 ''simple_dma'')"
  have r1: "k_int K (klog s) ?c1 \<le> 0" using K(1) by (simp add: status_nonpos_def)
  show thesis
  proof (cases "k_int K (klog s) ?c1 < 0 \<or> IS_ERR K (simple_dma_class (init_prefix K s))")
    case True
    then have "r < 0 \<and> held K s' = held K s \<and> dma_buffer_virt s' = dma_buffer_virt s \<and> (\<exists>es. klog s' = klog s @ es)"
      using run r1 to_int32_err [OF K(2)]
      by (cases "held K s") (auto simp: simple_dma_init_def unregister_chrdev_def init_prefix_def Let_def
        split: if_splits)
    then show thesis using fails by blast
  next
    case False
    with r1 have ok: "k_int K (klog s) ?c1 = 0" by simp
    show thesis
    proof (rule goes_on)
      show "run_state (do { init_buffer K; init_cdev K }) (init_prefix K s) = (r, s')"
        using False ok run by (simp add: simple_dma_init_def init_prefix_def Let_def)
    qed (use False ok in \<open>simp add: init_prefix_def Let_def\<close>)
  qed
qed

lemma simple_dma_init_held:
  assumes K: "status_nonpos K" "err_ptrs K" and s: "dma_buffer_virt s = NULL"
    and run: "run_state (simple_dma_init K) s = (r, s')"
  shows "\<exists>es. klog s' = klog s @ es \<and> (nodes_created K es \<longrightarrow> r \<le> 0) \<and>
    (dma_buffer_virt s' \<noteq> NULL \<longrightarrow> dma_device s' \<noteq> NULL) \<and>
    (held K s = Some M \<longrightarrow> (r \<noteq> 0 \<longrightarrow> held K s' = Some (M + sdma_buffer K s')) \<and>
      (r = 0 \<longrightarrow> nodes_created K es \<longrightarrow> held K s' = Some (M + sdma_buffer K s' + sdma_owns s')))"
  using K run
proof (cases rule: simple_dma_init_prefix)
  case fails
  then show ?thesis using s by (auto simp: sdma_buffer_def)
next
  case goes_on
  let ?p = "init_prefix K s"
  obtain u s1 where b: "run_state (init_buffer K) ?p = (u, s1)" by (cases "run_state (init_buffer K) ?p")
  have "dma_buffer_virt ?p = NULL" using s by (simp add: init_prefix_def Let_def)
  note buf = init_buffer_held [OF this b, of "add_mset (ChrRegion (simple_dma_dev_t ?p) 1)
    (add_mset (DevClass (simple_dma_class ?p)) M)"]
  then have h: "held K s = Some M \<longrightarrow> held K s1 = Some (add_mset (ChrRegion (simple_dma_dev_t s1) 1)
      (add_mset (DevClass (simple_dma_class s1)) (M + sdma_buffer K s1)))" using goes_on(2) by auto
  have "run_state (init_cdev K) s1 = (r, s')" using goes_on(1) b by simp
  note cdev = init_cdev_held [OF K(1) this, of "M + sdma_buffer K s1"]
  obtain es1 where es1: "klog ?p = klog s @ es1" "nodes_created K es1" using init_prefix_log by blast
  obtain es2 where es2: "klog s1 = klog ?p @ es2" "nodes_created K es2" using buf by blast
  from cdev obtain es3 where es3: "klog s' = klog s1 @ es3" "nodes_created K es3 \<longrightarrow> r \<le> 0"
    "held K s = Some M \<longrightarrow> (r \<noteq> 0 \<longrightarrow> held K s' = Some (M + sdma_buffer K s')) \<and>
      (r = 0 \<longrightarrow> nodes_created K es3 \<longrightarrow> held K s' = Some (M + sdma_buffer K s' + sdma_owns s'))"
    using h by metis
  have "klog s' = klog s @ (es1 @ es2 @ es3)" using es1(1) es2(1) es3(1) by simp
  moreover have "dma_buffer_virt s' \<noteq> NULL \<longrightarrow> dma_device s' \<noteq> NULL" using buf cdev by simp
  ultimately show ?thesis using es1(2) es2(2) es3(2,3) by (intro exI [of _ "es1 @ es2 @ es3"]) simp
qed

lemma simple_dma_exit_held:
  assumes "held K s = Some (M + sdma_buffer K s + sdma_owns s)"
    and "dma_buffer_virt s \<noteq> NULL \<longrightarrow> dma_device s \<noteq> NULL"
  shows "held K (exec (simple_dma_exit K) s) = Some M"
  using assms by (auto simp: simple_dma_exit_def sdma_owns_def sdma_buffer_def)

lemma simple_dma_exit_log: "dma_buffer_virt s = NULL \<Longrightarrow>
    \<exists>es. klog (exec (simple_dma_exit K) s) = klog s @ es \<and> nodes_created K es"
  by (simp add: simple_dma_exit_def)

text \<open>
  The module contract, under the documented behaviour of the functions used: no failing
  path of the load then leaves anything behind, because there is no buffer to leave.
\<close>

definition sdma_reset :: "sdma_state \<Rightarrow> sdma_state" where
  "sdma_reset s = s\<lparr>simple_dma_dev_t := 0, simple_dma_class := NULL, dma_buffer_virt := NULL,
     dma_buffer_phys := 0, dma_device := NULL, dma_mem := []\<rparr>"

lemma init_buffer_empty_class:
  assumes "new_class_empty K"
  shows "dma_buffer_virt (exec (init_buffer K) (init_prefix K s)) = dma_buffer_virt s"
proof -
  have "k_u64 K (klog (init_prefix K s)) (Chr (Class_find_device (simple_dma_class (init_prefix K s)))) = NULL"
    using assms unfolding new_class_empty_def init_prefix_def Let_def
    by (simp flip: append_assoc del: append.simps)
  then show ?thesis by (simp add: init_buffer_def init_prefix_def Let_def)
qed

definition sdma_kernel_ok :: "linux \<Rightarrow> bool" where
  "sdma_kernel_ok K \<longleftrightarrow> status_nonpos K \<and> err_ptrs K \<and> new_class_empty K"

lemma init_no_buffer:
  assumes K: "sdma_kernel_ok K" and s: "dma_buffer_virt s = NULL"
    and run: "run_state (simple_dma_init K) s = (r, s')"
  shows "dma_buffer_virt s' = NULL"
proof -
  have ok: "status_nonpos K" "err_ptrs K" "new_class_empty K" using K by (simp_all add: sdma_kernel_ok_def)
  show ?thesis
    using ok(1,2) run
  proof (cases rule: simple_dma_init_prefix)
    case fails
    then show ?thesis using s by simp
  next
    case goes_on
    let ?p = "init_prefix K s"
    obtain u s1 where b: "run_state (init_buffer K) ?p = (u, s1)" by (cases "run_state (init_buffer K) ?p")
    have "run_state (init_cdev K) s1 = (r, s')" using goes_on(1) b by simp
    from init_cdev_held [OF ok(1) this] init_buffer_empty_class [OF ok(3), of s] b s show ?thesis by simp
  qed
qed

text \<open>The account after a history that continues \<open>l0\<close>.\<close>

definition sdma_account :: "linux \<Rightarrow> res multiset \<Rightarrow> kevent list \<Rightarrow> sdma_state \<Rightarrow> bool" where
  "sdma_account K M l0 s \<longleftrightarrow> (\<exists>es. klog s = l0 @ es \<and> (nodes_created K es \<longrightarrow> held K s = Some M))"

definition sdma_loaded :: "linux \<Rightarrow> res multiset \<Rightarrow> kevent list \<Rightarrow> sdma_state \<Rightarrow> bool" where
  "sdma_loaded K M l0 s \<longleftrightarrow> dma_buffer_virt s = NULL \<and>
     (\<exists>es. klog s = l0 @ es \<and> (nodes_created K es \<longrightarrow> held K s = Some (M + sdma_owns s)))"

lemma sdma_load:
  assumes K: "sdma_kernel_ok K" and acct: "sdma_account K M l0 s"
    and run: "run_state (simple_dma_init K) (sdma_reset s) = (r, s')"
  shows "if r = 0 then sdma_loaded K M l0 s' else sdma_account K M l0 s'"
proof -
  have virt: "dma_buffer_virt (sdma_reset s) = NULL" "klog (sdma_reset s) = klog s" by (simp_all add: sdma_reset_def)
  have empty: "sdma_buffer K s' = {#}" "dma_buffer_virt s' = NULL"
    using init_no_buffer [OF K virt(1) run] by (simp_all add: sdma_buffer_def)
  have ok: "status_nonpos K" "err_ptrs K" using K by (simp_all add: sdma_kernel_ok_def)
  obtain es where es: "klog s = l0 @ es" "nodes_created K es \<longrightarrow> held K s = Some M"
    using acct by (auto simp: sdma_account_def)
  obtain fs where fs: "klog s' = klog s @ fs" "held K s = Some M \<longrightarrow> (r \<noteq> 0 \<longrightarrow> held K s' = Some (M + {#})) \<and>
      (r = 0 \<longrightarrow> nodes_created K fs \<longrightarrow> held K s' = Some (M + {#} + sdma_owns s'))"
    using simple_dma_init_held [OF ok virt(1) run, of M, unfolded virt(2) empty(1)] by blast
  from es fs have "klog s' = l0 @ (es @ fs)" by simp
  with es(2) fs(2) empty(2) show ?thesis
    unfolding sdma_account_def sdma_loaded_def add_0_right by (metis nodes_created_simps(2))
qed

lemma sdma_unload:
  assumes "sdma_loaded K M l0 s"
  shows "sdma_account K M l0 (exec (simple_dma_exit K) s)"
proof -
  obtain es where es: "klog s = l0 @ es" "nodes_created K es \<longrightarrow> held K s = Some (M + sdma_owns s)"
    and virt: "dma_buffer_virt s = NULL" using assms by (auto simp: sdma_loaded_def)
  obtain fs where fs: "klog (exec (simple_dma_exit K) s) = klog s @ fs" using simple_dma_exit_log [OF virt, of K] by blast
  have "nodes_created K (es @ fs) \<longrightarrow> held K (exec (simple_dma_exit K) s) = Some M"
    using es(2) simple_dma_exit_held [of K s M] virt by (simp add: sdma_buffer_def)
  moreover have "klog (exec (simple_dma_exit K) s) = l0 @ (es @ fs)" using es(1) fs by simp
  ultimately show ?thesis unfolding sdma_account_def by blast
qed

interpretation sdma: module_contract
  "\<lambda>s. Some (run_state (simple_dma_init K) s)" "\<lambda>s. Some (exec (simple_dma_exit K) s)"
  sdma_reset "\<lambda>M s. sdma_kernel_ok K \<and> sdma_account K M l0 s" "\<lambda>M s. sdma_kernel_ok K \<and> sdma_loaded K M l0 s"
  for K l0
proof (unfold_locales, goal_cases)
  case (1 M s)
  then show ?case by (metis surj_pair)
next
  case (2 M s r s')
  then show ?case using sdma_load [of K M l0 s r s'] by simp
next
  case (3 M s s')
  then show ?case using sdma_load [of K M l0 s 0 s'] by simp
next
  case (4 M s)
  then show ?case using sdma_unload [of K M l0 s] by simp
qed

section \<open>Properties\<close>

lemma ioctl_start:
  assumes "dma_buffer_virt s \<noteq> NULL" and "length (dma_mem s) = DMA_BUFFER_SIZE K"
    and "DMA_BUFFER_SIZE K \<le> 2 ^ 31"
  shows "simple_dma_ioctl K (SIMPLE_DMA_START_TRANSFER K) s = Some (0, s\<lparr>dma_mem := rev (dma_mem s)\<rparr>)"
proof -
  have "to_int32 (int (DMA_BUFFER_SIZE K) - 1) = int (length (dma_mem s)) - 1"
    using assms(2,3) by (subst to_int32_id) auto
  with assms reverse_loop_rev [of "dma_mem s"] show ?thesis by (simp add: simple_dma_ioctl_def)
qed

text \<open>
  The START_TRANSFER command reverses the whole buffer in place without leaving it, and
  issuing the command twice restores the contents.
\<close>

theorem sdma_transfer_reverses:
  assumes "dma_buffer_virt s \<noteq> NULL" and "length (dma_mem s) = DMA_BUFFER_SIZE K"
    and "DMA_BUFFER_SIZE K \<le> 2 ^ 31"
  shows "\<exists>s1. simple_dma_ioctl K (SIMPLE_DMA_START_TRANSFER K) s = Some (0, s1) \<and>
    dma_mem s1 = rev (dma_mem s) \<and>
    simple_dma_ioctl K (SIMPLE_DMA_START_TRANSFER K) s1 = Some (0, s)"
  using ioctl_start [OF assms] ioctl_start [of "s\<lparr>dma_mem := rev (dma_mem s)\<rparr>" K] assms
  by simp

abbreviation tiny_kernel :: linux where
  "tiny_kernel \<equiv> good_kernel\<lparr>PAGE_SIZE := 1\<rparr>"

abbreviation tiny_state :: sdma_state where
  "tiny_state \<equiv> \<lparr>klog = [], simple_dma_dev_t = 0, simple_dma_cdev = 64, simple_dma_class = 0,
     dma_buffer_virt = 4096, dma_buffer_phys = 1, dma_device = 2, dma_mem = [1, 2, 3, 4]\<rparr>"

theorem sdma_transfer_reverses_witness:
  "\<exists>s1. simple_dma_ioctl tiny_kernel (SIMPLE_DMA_START_TRANSFER tiny_kernel) tiny_state = Some (0, s1) \<and>
     dma_mem s1 = [4, 3, 2, 1]"
proof -
  have "dma_buffer_virt tiny_state \<noteq> NULL"
    and "length (dma_mem tiny_state) = DMA_BUFFER_SIZE tiny_kernel"
    and "DMA_BUFFER_SIZE tiny_kernel \<le> 2 ^ 31"
    by (simp_all add: DMA_BUFFER_SIZE_def)
  from sdma_transfer_reverses [OF this] show ?thesis by auto
qed

text \<open>
  \<open>mmap\<close> refuses, without calling the DMA API, a request that is longer than the buffer or
  has an offset; any other request is passed on with the buffer's own addresses and exactly
  the requested length, and an error of the DMA API is returned.
\<close>

theorem sdma_mmap_within_buffer:
  assumes "run_state (simple_dma_mmap K vma) s = (r, s')"
  shows "if DMA_BUFFER_SIZE K < unat (vm_end vma - vm_start vma) \<or> vm_pgoff vma \<noteq> 0
    then r = - 22 \<and> s' = s
    else \<exists>q. klog s' = klog s @ [(Memc (Dma_mmap_coherent (dma_device s) (dma_buffer_virt s)
        (dma_buffer_phys s) (vm_end vma - vm_start vma)), RInt q)] \<and> r = min q 0"
  using assms by (auto simp: simple_dma_mmap_def Let_def split: if_splits)

theorem sdma_mmap_within_buffer_witness:
  "result (simple_dma_mmap good_kernel \<lparr>vm_start = 4096, vm_end = 0, vm_pgoff = 0\<rparr>) tiny_state = - 22"
  using sdma_mmap_within_buffer [of good_kernel "\<lparr>vm_start = 4096, vm_end = 0, vm_pgoff = 0\<rparr>" tiny_state]
  by (simp add: prod_eq_iff DMA_BUFFER_SIZE_def)

text \<open>
  C32: let the functions behave as documented: those of character devices return 0 or a negative error number, error
  pointers encode -4095 to -1, and a new class has no devices. Then any number of load
  attempts and unloads runs through, whatever fails, and leaves the kernel holding what it held before, unless a \<open>device_create\<close> has
  failed on the way (its status is taken from the wrong pointer, so that the load may count as successful, see
  \<open>sdma_node_failure_not_reported\<close>).
\<close>

theorem sdma_load_unload_balanced:
  assumes "sdma_kernel_ok K" and "held K s = Some M"
  shows "\<exists>s' es. module_cycles (\<lambda>s. Some (run_state (simple_dma_init K) s))
      (\<lambda>s. Some (exec (simple_dma_exit K) s)) sdma_reset n s = Some s' \<and>
    klog s' = klog s @ es \<and> (nodes_created K es \<longrightarrow> held K s' = Some M)"
proof -
  have "sdma_account K M (klog s) s" using assms(2) by (auto simp: sdma_account_def)
  from sdma.cycles_keep_idle [of K M "klog s" s n] this assms(1) show ?thesis by (auto simp: sdma_account_def)
qed

abbreviation class_kernel :: "ptr \<Rightarrow> (kcall \<Rightarrow> int) \<Rightarrow> linux" where
  "class_kernel dev ints \<equiv> (sample_kernel ints)\<lparr>
     k_u64 := \<lambda>l c. case c of Chr (Class_find_device x) \<Rightarrow> dev | _ \<Rightarrow> 4096,
     IS_ERR := \<lambda>p. p = - 1, PTR_ERR := \<lambda>p. - 1\<rparr>"

lemma class_kernel_ok:
  assumes "\<forall>c. ints (Chr c) \<le> 0"
  shows "status_nonpos (class_kernel dev ints)" "err_ptrs (class_kernel dev ints)"
    "new_class_empty (class_kernel NULL ints)"
  using assms by (simp_all add: status_nonpos_def err_ptrs_def new_class_empty_def)

theorem sdma_load_unload_balanced_witness:
  "\<exists>s' es. module_cycles (\<lambda>s. Some (run_state (simple_dma_init (class_kernel NULL (\<lambda>c. 0))) s))
      (\<lambda>s. Some (exec (simple_dma_exit (class_kernel NULL (\<lambda>c. 0))) s)) sdma_reset 2 tiny_state = Some s' \<and>
    klog s' = klog tiny_state @ es \<and> (nodes_created (class_kernel NULL (\<lambda>c. 0)) es \<longrightarrow>
      held (class_kernel NULL (\<lambda>c. 0)) s' = Some {#})"
proof (rule sdma_load_unload_balanced)
  show "sdma_kernel_ok (class_kernel NULL (\<lambda>c. 0))"
    using class_kernel_ok [of "\<lambda>c. 0"] by (simp add: sdma_kernel_ok_def)
qed simp

text \<open>
  A load that fails after the buffer was allocated returns without freeing it; the exit
  function, which would free it, does not run after a failed load.
\<close>

theorem sdma_failed_load_leaks_buffer:
  assumes "status_nonpos K" and "err_ptrs K"
    and "held K s = Some M" and "dma_buffer_virt s = NULL"
    and "run_state (simple_dma_init K) s = (r, s')" and "r \<noteq> 0" and "dma_buffer_virt s' \<noteq> NULL"
  shows "held K s' = Some (add_mset (DmaBuf (dma_device s') (of_nat (DMA_BUFFER_SIZE K))
      (dma_buffer_virt s') (dma_buffer_phys s')) M)"
  using simple_dma_init_held [OF assms(1,2,4,5), of M] assms(3,6,7) by (auto simp: sdma_buffer_def)

abbreviation cdev_fails :: linux where
  "cdev_fails \<equiv> class_kernel 8192 (\<lambda>c. case c of Chr (Cdev_add x d n) \<Rightarrow> - 12 | _ \<Rightarrow> 0)"

theorem sdma_failed_load_leaks_buffer_witness:
  "result (simple_dma_init cdev_fails) (sdma_reset tiny_state) = - 12 \<and>
   held cdev_fails (exec (simple_dma_init cdev_fails) (sdma_reset tiny_state)) =
     Some {#DmaBuf 8192 16384 4096 0x40000000#}"
proof -
  let ?s = "sdma_reset tiny_state" and ?s' = "exec (simple_dma_init cdev_fails) (sdma_reset tiny_state)"
  have run: "run_state (simple_dma_init cdev_fails) ?s = (- 12, ?s')"
    and fields: "dma_buffer_virt ?s' = 4096" "dma_buffer_phys ?s' = 0x40000000" "dma_device ?s' = 8192"
    by (simp_all add: simple_dma_init_def init_buffer_def init_cdev_def destroy_class_def
      unregister_chrdev_def sdma_reset_def DMA_BUFFER_SIZE_def)
  have "\<forall>c. (case Chr c of Chr (Cdev_add x d n) \<Rightarrow> - 12 | _ \<Rightarrow> (0::int)) \<le> 0"
    by (simp split: chr_call.splits)
  note ok = class_kernel_ok [OF this]
  have "held cdev_fails ?s' = Some (add_mset (DmaBuf (dma_device ?s')
      (of_nat (DMA_BUFFER_SIZE cdev_fails)) (dma_buffer_virt ?s') (dma_buffer_phys ?s')) {#})"
    by (rule sdma_failed_load_leaks_buffer [OF ok(1,2) _ _ run])
      (simp_all add: fields, simp_all add: sdma_reset_def)
  moreover have "result (simple_dma_init cdev_fails) ?s = - 12" by (subst run) simp
  ultimately show ?thesis by (simp add: fields DMA_BUFFER_SIZE_def)
qed

text \<open>
  C33: the module looks for a DMA device in the class it has just created. Such a class is
  empty, so every successful load ends without a buffer and START_TRANSFER always answers
  \<open>-EFAULT\<close>.
\<close>

theorem sdma_buffer_never_allocated:
  assumes "sdma_kernel_ok K" and "dma_buffer_virt s = NULL"
    and "run_state (simple_dma_init K) s = (0, s')"
  shows "dma_buffer_virt s' = NULL \<and>
    simple_dma_ioctl K (SIMPLE_DMA_START_TRANSFER K) s' = Some (- 14, s')"
  using init_no_buffer [OF assms] by (simp add: simple_dma_ioctl_def)

theorem sdma_buffer_never_allocated_witness:
  "simple_dma_ioctl (class_kernel NULL (\<lambda>c. 0)) (SIMPLE_DMA_START_TRANSFER (class_kernel NULL (\<lambda>c. 0)))
     (exec (simple_dma_init (class_kernel NULL (\<lambda>c. 0))) (sdma_reset tiny_state)) =
   Some (- 14, exec (simple_dma_init (class_kernel NULL (\<lambda>c. 0))) (sdma_reset tiny_state))"
proof -
  let ?K = "class_kernel NULL (\<lambda>c. 0)" and ?s = "sdma_reset tiny_state"
  have ok: "sdma_kernel_ok ?K"
    using class_kernel_ok [of "\<lambda>c. 0"] by (simp add: sdma_kernel_ok_def)
  have run: "run_state (simple_dma_init ?K) ?s = (0, exec (simple_dma_init ?K) ?s)"
    by (simp add: simple_dma_init_def init_buffer_def init_cdev_def)
  show ?thesis
    using sdma_buffer_never_allocated [OF ok _ run] by (simp add: sdma_reset_def)
qed

text \<open>
  When \<open>device_create\<close> fails, the error number is taken from the class pointer, which is no
  error pointer, cut to 32 bits: with bit 31 of the class address clear, the load tears
  everything down and still returns a number that is no error.
\<close>

theorem sdma_node_failure_not_reported:
  assumes "held K s = Some (add_mset (ChrRegion (simple_dma_dev_t s) 1)
      (add_mset (DevClass (simple_dma_class s)) M))"
    and "\<And>l c d n. k_int K l (Chr (Cdev_add c d n)) = 0"
    and "\<And>l c d n. IS_ERR K (k_u64 K l (Chr (Device_create c d n)))"
    and "PTR_ERR K (simple_dma_class s) = sint (simple_dma_class s)"
    and "\<not> bit (simple_dma_class s) 31"
  shows "0 \<le> result (init_cdev K) s \<and> held K (exec (init_cdev K) s) = Some M"
proof -
  have "\<not> bit (sint (simple_dma_class s)) 31"
    using assms(5) by (simp add: bit_sint_iff)
  then have "0 \<le> to_int32 (PTR_ERR K (simple_dma_class s))"
    by (simp add: assms(4) to_int32_def)
  then show ?thesis
    using assms(1-3)
    by (simp add: init_cdev_def del_cdev_def destroy_class_def unregister_chrdev_def)
qed

abbreviation node_fails :: linux where
  "node_fails \<equiv> good_kernel\<lparr>k_u64 := \<lambda>l c. - 12\<rparr>"

abbreviation prepared :: sdma_state where
  "prepared \<equiv> tiny_state\<lparr>simple_dma_dev_t := 7, simple_dma_class := 0xFFFF888000001000,
     klog := [(Chr (Alloc_chrdev_region 0 1 ''simple_dma''), RIntOut 0 7),
       (Chr (Class_create ''simple_dma''), RU64 0xFFFF888000001000)]\<rparr>"

theorem sdma_node_failure_not_reported_witness:
  "result (init_cdev node_fails) prepared = 4096 \<and> held node_fails (exec (init_cdev node_fails) prepared) = Some {#}"
proof -
  have h: "held node_fails prepared = Some (add_mset (ChrRegion (simple_dma_dev_t prepared) 1)
      (add_mset (DevClass (simple_dma_class prepared)) {#}))"
    by (simp add: ledger_def)
  have "result (init_cdev node_fails) prepared = 4096"
    by (simp add: init_cdev_def del_cdev_def destroy_class_def unregister_chrdev_def to_int32_def)
  with sdma_node_failure_not_reported [OF h] show ?thesis by simp
qed

end
