(* ===== verification/User_App.thy ===== *)
theory User_App
  imports Simple_Dma
begin

text \<open>
  The user program of the DMA example, \<open>dma_user/user_app.c\<close>, against the interface it uses.

  \<open>'s os\<close> is what the program sees of the system: its system calls and the memory behind
  the pointer \<open>mmap\<close> returned. \<open>user_main\<close> is the program, on any such system. The locale
  \<open>dma_service\<close> states what the program expects from the device, and its lemma follows the
  program through; \<open>sdma_os\<close> is the system whose device is the kernel module of
  \<open>Simple_Dma\<close>, reached through \<open>simple_dma_fops\<close>, and is shown to be such a service.
\<close>

section \<open>The program\<close>

record 's os =
  os_open :: "string \<Rightarrow> 's \<Rightarrow> int \<times> 's"
  os_mmap :: "nat \<Rightarrow> int \<Rightarrow> 's \<Rightarrow> ptr option \<times> 's"
  os_ioctl :: "int \<Rightarrow> u32 \<Rightarrow> 's \<Rightarrow> (int \<times> 's) option"
  os_munmap :: "ptr \<Rightarrow> nat \<Rightarrow> 's \<Rightarrow> int \<times> 's"
  os_close :: "int \<Rightarrow> 's \<Rightarrow> int \<times> 's"
  os_load :: "ptr \<Rightarrow> nat \<Rightarrow> 's \<Rightarrow> u8 list"
  os_store :: "ptr \<Rightarrow> u8 list \<Rightarrow> 's \<Rightarrow> 's"

abbreviation (input) USER_BUFFER_SIZE :: nat where
  "USER_BUFFER_SIZE \<equiv> 4 * 4096"

definition message :: "u8 list" where
  "message = map (\<lambda>c. of_nat (of_char c)) ''Hello from user space!''"

text \<open>What \<open>printf("%s")\<close> shows of a buffer: the bytes before the first NUL.\<close>

definition c_string :: "u8 list \<Rightarrow> u8 list" where
  "c_string bs = takeWhile (\<lambda>b. b \<noteq> 0) bs"

definition unmap_close :: "'s os \<Rightarrow> ptr \<Rightarrow> int \<Rightarrow> 's \<Rightarrow> 's" where
  "unmap_close os p fd s = snd (os_close os fd (snd (os_munmap os p USER_BUFFER_SIZE s)))"

text \<open>
  \<open>main\<close>: the exit status, the strings printed from the buffer before and after the
  transfer, and the final state.
\<close>

definition user_main :: "'s os \<Rightarrow> u32 \<Rightarrow> 's \<Rightarrow> (int \<times> u8 list list \<times> 's) option" where
  "user_main os start s = (case os_open os ''/dev/simple_dma'' s of (fd, s) \<Rightarrow>
     if fd < 0 then Some (1, [], s)
     else (case os_mmap os USER_BUFFER_SIZE fd s of
       (None, s) \<Rightarrow> Some (1, [], snd (os_close os fd s))
     | (Some p, s) \<Rightarrow>
         let message_len = length message + 1 in
         if message_len > USER_BUFFER_SIZE then Some (1, [], unmap_close os p fd s)
         else
           let s = os_store os p (replicate USER_BUFFER_SIZE 0) s;
             s = os_store os p (message @ [0]) s;
             before = c_string (os_load os p USER_BUFFER_SIZE s)
           in do {
             (r, s) \<leftarrow> os_ioctl os fd start s;
             if r < 0 then Some (1, [before], unmap_close os p fd s)
             else
               let after = c_string (os_load os p USER_BUFFER_SIZE s)
               in Some (0, [before, after], unmap_close os p fd s)
           }))"

section \<open>The service it expects\<close>

locale dma_service =
  fixes os :: "'s os" and start :: u32
    and buf :: "'s \<Rightarrow> u8 list"
    and ready :: "'s \<Rightarrow> bool"
    and mapped :: "ptr \<Rightarrow> 's \<Rightarrow> bool"
  assumes open_ok: "ready s \<Longrightarrow> \<exists>fd s'. os_open os path s = (fd, s') \<and> 0 \<le> fd \<and> ready s'"
    and mmap_ok: "ready s \<Longrightarrow> \<exists>p s'. os_mmap os (4 * 4096) fd s = (Some p, s') \<and> mapped p s'"
    and buf_length: "mapped p s \<Longrightarrow> length (buf s) = 4 * 4096"
    and load_ok: "mapped p s \<Longrightarrow> os_load os p (4 * 4096) s = buf s"
    and store_ok: "mapped p s \<Longrightarrow> length bs \<le> 4 * 4096 \<Longrightarrow>
      mapped p (os_store os p bs s) \<and> buf (os_store os p bs s) = bs @ drop (length bs) (buf s)"
    and ioctl_ok: "mapped p s \<Longrightarrow>
      \<exists>s'. os_ioctl os fd start s = Some (0, s') \<and> mapped p s' \<and> buf s' = rev (buf s)"
    and release_ok: "buf (snd (os_munmap os p n s)) = buf s" "buf (snd (os_close os fd s)) = buf s"
begin

lemma main_on_service:
  assumes "ready s"
  shows "\<exists>s'. user_main os start s = Some (0, [message, []], s') \<and>
    buf s' = replicate (4 * 4096 - length message) 0 @ rev message"
proof -
  obtain fd s1 where o1: "os_open os ''/dev/simple_dma'' s = (fd, s1)" "0 \<le> fd" "ready s1"
    using open_ok [OF assms] by blast
  obtain p s2 where o2: "os_mmap os (4 * 4096) fd s1 = (Some p, s2)" "mapped p s2"
    using mmap_ok [OF o1(3)] by blast
  define s3 where "s3 = os_store os p (replicate (4 * 4096) 0) s2"
  have s3: "mapped p s3" "buf s3 = replicate (4 * 4096) 0"
    using store_ok [OF o2(2), of "replicate (4 * 4096) 0"] buf_length [OF o2(2)]
    by (simp_all add: s3_def)
  define s4 where "s4 = os_store os p (message @ [0]) s3"
  have len: "length message = 22" by (simp add: message_def)
  have nz: "\<forall>b\<in>set message. b \<noteq> 0" by (simp add: message_def)
  have s4: "mapped p s4" "buf s4 = message @ replicate (4 * 4096 - length message) 0"
    using store_ok [OF s3(1), of "message @ [0]"] len
    by (simp_all add: s4_def s3(2) replicate_Suc [symmetric] del: replicate_Suc)
  obtain s5 where s5: "os_ioctl os fd start s4 = Some (0, s5)" "mapped p s5" "buf s5 = rev (buf s4)"
    using ioctl_ok [OF s4(1)] by blast
  have before: "c_string (buf s4) = message"
    using nz by (simp add: c_string_def s4(2) takeWhile_append)
  have after: "c_string (buf s5) = []"
    by (simp add: c_string_def s5(3) s4(2) len)
  have stored: "os_store os p (message @ [0]) (os_store os p (replicate 16384 0) s2) = s4"
    by (simp add: s4_def s3_def)
  have "user_main os start s = Some (0, [message, []], unmap_close os p fd s5)"
    using o1 o2 s5(1) before after load_ok [OF s4(1)] load_ok [OF s5(2)] len
    by (simp add: user_main_def Let_def stored)
  moreover have "buf (unmap_close os p fd s5) = replicate (4 * 4096 - length message) 0 @ rev message"
    by (simp add: unmap_close_def release_ok s5(3) s4(2))
  ultimately show ?thesis by blast
qed

end

section \<open>The kernel module as the service\<close>

text \<open>
  The system calls dispatch to the module's file operations; \<open>fd\<close> and \<open>a\<close> are the
  descriptor and the address the kernel picks.
\<close>

definition sdma_os :: "linux \<Rightarrow> int \<Rightarrow> ptr \<Rightarrow> sdma_state os" where
  "sdma_os K fd a = \<lparr>
     os_open = (\<lambda>path s. (fd, snd (simple_dma_open s))),
     os_mmap = (\<lambda>n fd s. case run_state
        (simple_dma_mmap K \<lparr>vm_start = a, vm_end = a + of_nat n, vm_pgoff = 0\<rparr>) s of
        (r, s') \<Rightarrow> (if r = 0 then Some a else None, s')),
     os_ioctl = (\<lambda>fd cmd s. simple_dma_ioctl K cmd s),
     os_munmap = (\<lambda>p n s. (0, s)),
     os_close = (\<lambda>fd s. simple_dma_release s),
     os_load = (\<lambda>p n s. take n (dma_mem s)),
     os_store = (\<lambda>p bs s. s\<lparr>dma_mem := bs @ drop (length bs) (dma_mem s)\<rparr>)\<rparr>"

definition sdma_ready :: "linux \<Rightarrow> int \<Rightarrow> sdma_state \<Rightarrow> bool" where
  "sdma_ready K fd s \<longleftrightarrow> 0 \<le> fd \<and> PAGE_SIZE K = 4096 \<and> dma_buffer_virt s \<noteq> NULL \<and>
     length (dma_mem s) = DMA_BUFFER_SIZE K \<and>
     (\<forall>l d v h n. 0 \<le> k_int K l (Memc (Dma_mmap_coherent d v h n)))"

interpretation sdma_svc: dma_service
  "sdma_os K fd a" "SIMPLE_DMA_START_TRANSFER K" dma_mem "sdma_ready K fd"
  "\<lambda>p s. p = a \<and> sdma_ready K fd s"
  for K fd a
proof (unfold_locales, goal_cases)
  case (1 s path)
  then show ?case by (simp add: sdma_os_def simple_dma_open_def sdma_ready_def)
next
  case (2 s fd')
  then show ?case
    by (auto simp: sdma_os_def simple_dma_mmap_def sdma_ready_def Let_def DMA_BUFFER_SIZE_def
      leD split: if_splits)
next
  case (3 p s)
  then show ?case by (simp add: sdma_ready_def DMA_BUFFER_SIZE_def)
next
  case (4 p s)
  then show ?case by (simp add: sdma_os_def sdma_ready_def DMA_BUFFER_SIZE_def)
next
  case (5 p s bs)
  then show ?case by (simp add: sdma_os_def sdma_ready_def DMA_BUFFER_SIZE_def)
next
  case (6 p s fd')
  then show ?case
    using ioctl_start [of s K] by (simp add: sdma_os_def sdma_ready_def DMA_BUFFER_SIZE_def)
next
  case (7 p n s)
  then show ?case by (simp add: sdma_os_def)
next
  case (8 fd' s)
  then show ?case by (simp add: sdma_os_def simple_dma_release_def)
qed

text \<open>Without its buffer the module refuses the transfer, so that the program fails at the ioctl if it gets as far.\<close>

lemma main_without_buffer:
  "dma_buffer_virt s = NULL \<Longrightarrow>
   \<exists>out s'. user_main (sdma_os K fd a) (SIMPLE_DMA_START_TRANSFER K) s = Some (1, out, s')"
  by (auto simp: user_main_def sdma_os_def simple_dma_open_def simple_dma_mmap_def Let_def
    message_def simple_dma_ioctl_def split: prod.splits if_splits)

section \<open>Properties\<close>

text \<open>
  C12: on a system where the module has its buffer, pages have 4096 bytes and the device can be opened and
  mapped, the program runs through all its steps and exits successfully, the buffer ends with the
  reversed message, and the second \<open>printf\<close> shows the empty string, because the reversed
  buffer begins with the zero padding. The comment in the program expects the reversed text. Where
  the module has no buffer, which is how \<open>simple_dma_init\<close> leaves it on a fresh class, the program
  exits with status 1.
\<close>

theorem user_app_end_to_end:
  "(sdma_ready K fd s \<longrightarrow>
     (\<exists>s'. user_main (sdma_os K fd a) (SIMPLE_DMA_START_TRANSFER K) s = Some (0, [message, []], s') \<and>
       dma_mem s' = replicate (4 * 4096 - length message) 0 @ rev message)) \<and>
   (dma_buffer_virt s = NULL \<longrightarrow>
     (\<exists>out s'. user_main (sdma_os K fd a) (SIMPLE_DMA_START_TRANSFER K) s = Some (1, out, s')))"
  using sdma_svc.main_on_service [of K fd s a] main_without_buffer by blast

definition ready_state :: sdma_state where
  "ready_state = \<lparr>klog = [], simple_dma_dev_t = 0, simple_dma_cdev = 64, simple_dma_class = 0,
     dma_buffer_virt = 4096, dma_buffer_phys = 1, dma_device = 2, dma_mem = replicate 16384 0\<rparr>"

theorem user_app_end_to_end_witness:
  "(\<exists>s'. user_main (sdma_os good_kernel 3 4096) (SIMPLE_DMA_START_TRANSFER good_kernel) ready_state =
      Some (0, [message, []], s') \<and> length (dma_mem s') = 16384) \<and>
   (\<exists>out s'. user_main (sdma_os good_kernel 3 4096) (SIMPLE_DMA_START_TRANSFER good_kernel)
      (ready_state\<lparr>dma_buffer_virt := NULL\<rparr>) = Some (1, out, s'))"
proof
  have "sdma_ready good_kernel 3 ready_state"
    by (simp add: sdma_ready_def ready_state_def DMA_BUFFER_SIZE_def)
  with user_app_end_to_end [of good_kernel 3 ready_state 4096]
  show "\<exists>s'. user_main (sdma_os good_kernel 3 4096) (SIMPLE_DMA_START_TRANSFER good_kernel) ready_state =
      Some (0, [message, []], s') \<and> length (dma_mem s') = 16384" by (auto simp: message_def)
  show "\<exists>out s'. user_main (sdma_os good_kernel 3 4096) (SIMPLE_DMA_START_TRANSFER good_kernel)
      (ready_state\<lparr>dma_buffer_virt := NULL\<rparr>) = Some (1, out, s')"
    using user_app_end_to_end [of good_kernel 3 "ready_state\<lparr>dma_buffer_virt := NULL\<rparr>" 4096] by simp
qed

end
