(* ===== verification/Sdma_Session.thy ===== *)
theory Sdma_Session
  imports User_App Session
begin

text \<open>
  The DMA character device in use: its operation table \<open>simple_dma_fops\<close>, and any number of
  processes that open the device, map its buffer, store to and load from their mappings and
  start transfers, in any order.

  The abstract specification is one shared byte buffer, \<open>buffer_spec\<close>, without mappings, addresses
  or kernel calls. Shown: every session is a run of that specification, bytes loaded included, and
  no access through a mapping the driver has granted leaves the buffer.
\<close>

section \<open>The operation table\<close>

record dma_file_operations =
  dop_owner :: string
  dop_open :: "sdma_state \<Rightarrow> int \<times> sdma_state"
  dop_release :: "sdma_state \<Rightarrow> int \<times> sdma_state"
  dop_mmap :: "vm_area \<Rightarrow> (sdma_state, int) state"
  dop_unlocked_ioctl :: "u32 \<Rightarrow> sdma_state \<Rightarrow> (int \<times> sdma_state) option"

definition simple_dma_fops :: "linux \<Rightarrow> dma_file_operations" where
  "simple_dma_fops K = \<lparr>dop_owner = ''THIS_MODULE'', dop_open = simple_dma_open,
     dop_release = simple_dma_release, dop_mmap = simple_dma_mmap K,
     dop_unlocked_ioctl = simple_dma_ioctl K\<rparr>"

section \<open>Processes\<close>

text \<open>
  \<open>granted\<close> are the mappings in force, \<open>seen\<close> the bytes loaded so far, \<open>answers\<close> what the
  ioctls returned. A process may touch the bytes of a mapping it has been granted and no
  others. \<open>dma_mmap_coherent\<close> maps from page \<open>vm_pgoff\<close> of the buffer on, so that is where an access goes;
  whether it lies in the buffer is the driver's business, and one that does not is \<open>None\<close>.
\<close>

record dma_clients =
  drv :: sdma_state
  opened :: nat
  granted :: "vm_area list"
  seen :: "u8 list list"
  answers :: "int list"

datatype dma_call =
    Dma_open
  | Dma_close
  | Dma_mmap vm_area
  | Dma_munmap vm_area
  | Dma_store vm_area nat "u8 list"
  | Dma_load vm_area nat nat
  | Dma_ioctl u32

definition vm_length :: "vm_area \<Rightarrow> nat" where
  "vm_length v = unat (vm_end v - vm_start v)"

fun dma_may :: "dma_call \<Rightarrow> dma_clients \<Rightarrow> bool" where
  "dma_may Dma_open c \<longleftrightarrow> True"
| "dma_may (Dma_munmap v) c \<longleftrightarrow> v \<in> set (granted c)"
| "dma_may (Dma_store v off bs) c \<longleftrightarrow> v \<in> set (granted c) \<and> off + length bs \<le> vm_length v"
| "dma_may (Dma_load v off n) c \<longleftrightarrow> v \<in> set (granted c) \<and> off + n \<le> vm_length v"
| "dma_may _ c \<longleftrightarrow> 0 < opened c"

definition overwrite :: "nat \<Rightarrow> 'a list \<Rightarrow> 'a list \<Rightarrow> 'a list" where
  "overwrite off bs mem = take off mem @ bs @ drop (off + length bs) mem"

definition dma_place :: "linux \<Rightarrow> vm_area \<Rightarrow> nat \<Rightarrow> nat" where
  "dma_place K v off = unat (vm_pgoff v) * PAGE_SIZE K + off"

fun dma_step :: "linux \<Rightarrow> dma_file_operations \<Rightarrow> dma_call \<Rightarrow> dma_clients \<Rightarrow> dma_clients option" where
  "dma_step K ops Dma_open c = (case dop_open ops (drv c) of
     (r, s) \<Rightarrow> Some (c\<lparr>drv := s, opened := (if r = 0 then Suc (opened c) else opened c)\<rparr>))"
| "dma_step K ops Dma_close c = (case dop_release ops (drv c) of
     (r, s) \<Rightarrow> Some (c\<lparr>drv := s, opened := opened c - 1\<rparr>))"
| "dma_step K ops (Dma_mmap v) c = (case run_state (dop_mmap ops v) (drv c) of
     (r, s) \<Rightarrow> Some (c\<lparr>drv := s, granted := (if r = 0 then v # granted c else granted c)\<rparr>))"
| "dma_step K ops (Dma_munmap v) c = Some (c\<lparr>granted := remove1 v (granted c)\<rparr>)"
| "dma_step K ops (Dma_store v off bs) c =
     (if dma_place K v off + length bs \<le> length (dma_mem (drv c))
      then Some (c\<lparr>drv := (drv c)\<lparr>dma_mem := overwrite (dma_place K v off) bs (dma_mem (drv c))\<rparr>\<rparr>) else None)"
| "dma_step K ops (Dma_load v off n) c =
     (if dma_place K v off + n \<le> length (dma_mem (drv c))
      then Some (c\<lparr>seen := seen c @ [take n (drop (dma_place K v off) (dma_mem (drv c)))]\<rparr>) else None)"
| "dma_step K ops (Dma_ioctl cmd) c = (case dop_unlocked_ioctl ops cmd (drv c) of
     None \<Rightarrow> None
   | Some (r, s) \<Rightarrow> Some (c\<lparr>drv := s, answers := answers c @ [r]\<rparr>))"

section \<open>The abstract buffer\<close>

text \<open>A buffer, what has been read from it, and the answers to commands.\<close>

type_synonym buffer_view = "u8 list \<times> u8 list list \<times> int list"

fun buffer_call :: "u32 \<Rightarrow> dma_call \<Rightarrow> buffer_view \<Rightarrow> buffer_view" where
  "buffer_call start (Dma_store v off bs) (b, rd, an) = (overwrite off bs b, rd, an)"
| "buffer_call start (Dma_load v off n) (b, rd, an) = (b, rd @ [take n (drop off b)], an)"
| "buffer_call start (Dma_ioctl cmd) (b, rd, an) =
     (if cmd = start then (rev b, rd, an @ [0]) else (b, rd, an @ [- ENOTTY]))"
| "buffer_call start _ view = view"

definition buffer_spec :: "u32 \<Rightarrow> dma_call list \<Rightarrow> buffer_view \<Rightarrow> buffer_view" where
  "buffer_spec start es view = fold (buffer_call start) es view"

definition view :: "dma_clients \<Rightarrow> buffer_view" where
  "view c = (dma_mem (drv c), seen c, answers c)"

section \<open>Refinement\<close>

definition buffer_ready :: "linux \<Rightarrow> sdma_state \<Rightarrow> bool" where
  "buffer_ready K s \<longleftrightarrow> dma_buffer_virt s \<noteq> NULL \<and> length (dma_mem s) = DMA_BUFFER_SIZE K \<and>
     DMA_BUFFER_SIZE K \<le> 2 ^ 31"

definition grants_ok :: "linux \<Rightarrow> dma_clients \<Rightarrow> bool" where
  "grants_ok K c \<longleftrightarrow> (\<forall>v\<in>set (granted c). vm_length v \<le> DMA_BUFFER_SIZE K \<and> vm_pgoff v = 0)"

definition refines_buffer :: "linux \<Rightarrow> dma_clients \<Rightarrow> dma_call list \<Rightarrow> dma_clients \<Rightarrow> bool" where
  "refines_buffer K c0 es c \<longleftrightarrow> buffer_ready K (drv c) \<and> grants_ok K c \<and>
     held K (drv c) = held K (drv c0) \<and>
     view c = buffer_spec (SIMPLE_DMA_START_TRANSFER K) es (view c0)"

lemma overwrite_length [simp]: "off + length bs \<le> length mem \<Longrightarrow> length (overwrite off bs mem) = length mem"
  by (simp add: overwrite_def)

lemma mmap_grants:
  "\<exists>r s'. run_state (simple_dma_mmap K v) s = (r, s') \<and> dma_mem s' = dma_mem s \<and>
     dma_buffer_virt s' = dma_buffer_virt s \<and> held K s' = held K s \<and>
     (r = 0 \<longrightarrow> vm_length v \<le> DMA_BUFFER_SIZE K \<and> vm_pgoff v = 0)"
  by (auto simp: simple_dma_mmap_def Let_def vm_length_def)

lemma ioctl_other: "cmd \<noteq> SIMPLE_DMA_START_TRANSFER K \<Longrightarrow> simple_dma_ioctl K cmd s = Some (- ENOTTY, s)"
  by (simp add: simple_dma_ioctl_def)

text \<open>One call: the concrete step exists and commutes with the abstract one.\<close>

lemma dma_step_refines:
  assumes "buffer_ready K (drv c)" and "grants_ok K c" and "dma_may e c"
  shows "\<exists>c'. dma_step K (simple_dma_fops K) e c = Some c' \<and> buffer_ready K (drv c') \<and> grants_ok K c' \<and>
    held K (drv c') = held K (drv c) \<and>
    view c' = buffer_call (SIMPLE_DMA_START_TRANSFER K) e (view c)"
proof (cases e)
  case (Dma_mmap v)
  then show ?thesis
    using mmap_grants [of K v "drv c"] assms
    by (auto simp: simple_dma_fops_def buffer_ready_def grants_ok_def view_def)
next
  case (Dma_munmap v)
  then show ?thesis
    using assms by (auto simp: grants_ok_def view_def dest: notin_set_remove1)
next
  case (Dma_ioctl cmd)
  then show ?thesis
    using ioctl_start [of "drv c" K] ioctl_other [of cmd K "drv c"] assms
    by (cases "cmd = SIMPLE_DMA_START_TRANSFER K")
      (auto simp: simple_dma_fops_def buffer_ready_def grants_ok_def view_def)
qed (use assms in \<open>auto simp: simple_dma_fops_def simple_dma_open_def simple_dma_release_def
  buffer_ready_def grants_ok_def view_def dma_place_def\<close>)

interpretation sdma_clients: served dma_may "dma_step K (simple_dma_fops K)" "refines_buffer K c0"
  for K c0
proof (unfold_locales, goal_cases)
  case (1 es c e)
  then show ?case
    using dma_step_refines [of K c e] by (auto simp: refines_buffer_def buffer_spec_def)
qed

section \<open>Properties\<close>

text \<open>
  C8: let the module have its buffer (a load of the module on a fresh class does not allocate one,
  \<open>sdma_buffer_never_allocated\<close>). Any number of processes that open, map, store, load, start transfers, unmap and close in any
  order see exactly one shared buffer: its bytes, everything loaded from it and every answer to a
  command are those of the abstract buffer, a transfer reverses it as a whole, and the kernel's
  resources stay as they were. Every mapping in force, which begins at page \<open>vm_pgoff\<close> of the buffer, lies in the buffer,
  so that no call a process is entitled to make is an access outside it.
\<close>

theorem sdma_session_refines_buffer:
  assumes "buffer_ready K (drv c)" and "granted c = []"
    and "session dma_may (dma_step K (simple_dma_fops K)) c es t"
  shows "view t = buffer_spec (SIMPLE_DMA_START_TRANSFER K) es (view c) \<and>
    held K (drv t) = held K (drv c) \<and>
    (\<forall>v\<in>set (granted t). dma_place K v 0 + vm_length v \<le> length (dma_mem (drv t))) \<and>
    (\<forall>e. dma_may e t \<longrightarrow> (\<exists>u. dma_step K (simple_dma_fops K) e t = Some u))"
proof -
  have start: "refines_buffer K c [] c"
    using assms(1,2) by (simp add: refines_buffer_def buffer_spec_def grants_ok_def)
  from sdma_clients.session_inv [OF assms(3) start] sdma_clients.never_stuck [OF assms(3) start]
  show ?thesis by (auto simp: refines_buffer_def grants_ok_def buffer_ready_def dma_place_def)
qed

abbreviation tiny_clients :: dma_clients where
  "tiny_clients \<equiv> \<lparr>drv = tiny_state, opened = 0, granted = [], seen = [], answers = []\<rparr>"

abbreviation tiny_area :: vm_area where
  "tiny_area \<equiv> \<lparr>vm_start = 4096, vm_end = 4099, vm_pgoff = 0\<rparr>"

abbreviation tiny_calls :: "dma_call list" where
  "tiny_calls \<equiv> [Dma_open, Dma_mmap tiny_area, Dma_store tiny_area 1 [9],
     Dma_ioctl (SIMPLE_DMA_START_TRANSFER tiny_kernel), Dma_load tiny_area 0 3]"

theorem sdma_session_refines_buffer_witness:
  "\<exists>t. session dma_may (dma_step tiny_kernel (simple_dma_fops tiny_kernel)) tiny_clients tiny_calls t \<and>
     dma_mem (drv t) = [4, 3, 9, 1] \<and> seen t = [[4, 3, 9]]"
proof -
  have ready: "buffer_ready tiny_kernel (drv tiny_clients)"
    by (simp add: buffer_ready_def DMA_BUFFER_SIZE_def)
  have "\<exists>t. session dma_may (dma_step tiny_kernel (simple_dma_fops tiny_kernel)) tiny_clients tiny_calls t"
    by (simp add: session_iff_run simple_dma_fops_def simple_dma_open_def simple_dma_mmap_def Let_def
      DMA_BUFFER_SIZE_def vm_length_def overwrite_def dma_place_def ioctl_start [simplified])
  then obtain t where t: "session dma_may (dma_step tiny_kernel (simple_dma_fops tiny_kernel)) tiny_clients tiny_calls t"
    by blast
  from sdma_session_refines_buffer [OF ready _ t] t show ?thesis
    by (auto simp: view_def buffer_spec_def overwrite_def)
qed

end
