(* ===== verification/Sdma_Threads.thy ===== *)
theory Sdma_Threads
  imports Simple_Dma Threads
begin

text \<open>
  Several processes in \<open>simple_dma_ioctl\<close> at once. \<open>.unlocked_ioctl\<close> is called without a lock and the
  function takes none, so transfers interleave at every access to the buffer.

  \<open>ioctl_step\<close> is the function one access at a time. Shown: run alone the steps are
  \<open>simple_dma_ioctl\<close>; in any interleaving no access leaves the buffer, every call returns its
  result after a bounded number of steps, and a byte never moves further than to the place
  opposite its own; but two transfers at once can lose a byte.
\<close>

section \<open>simple\_dma\_ioctl step by step\<close>

text \<open>The arguments are the locals \<open>i\<close>, \<open>j\<close> and \<open>temp\<close>, and the byte read for \<open>buf[i] = buf[j]\<close>.\<close>

datatype ioctl_pc =
    Ioctl u32
  | Read_i int int
  | Read_j int int u8
  | Write_i int int u8 u8
  | Write_j int int u8
  | Answer int

fun ioctl_step :: "linux \<Rightarrow> ioctl_pc \<Rightarrow> sdma_state \<Rightarrow> (ioctl_pc \<times> sdma_state) option" where
  "ioctl_step K (Ioctl cmd) s = Some (
     (if cmd = SIMPLE_DMA_START_TRANSFER K then
        if dma_buffer_virt s \<noteq> NULL then Read_i 0 (to_int32 (int (DMA_BUFFER_SIZE K) - 1))
        else Answer (- EFAULT)
      else Answer (- ENOTTY)), s)"
| "ioctl_step K (Read_i i j) s =
     (if i < j then do {
        temp \<leftarrow> buf_get (dma_mem s) i;
        Some (Read_j i j temp, s)
      } else Some (Answer 0, s))"
| "ioctl_step K (Read_j i j temp) s = do {
     bj \<leftarrow> buf_get (dma_mem s) j;
     Some (Write_i i j temp bj, s)
   }"
| "ioctl_step K (Write_i i j temp bj) s = do {
     buf \<leftarrow> buf_set (dma_mem s) i bj;
     Some (Write_j i j temp, s\<lparr>dma_mem := buf\<rparr>)
   }"
| "ioctl_step K (Write_j i j temp) s = do {
     buf \<leftarrow> buf_set (dma_mem s) j temp;
     Some (Read_i (i + 1) (j - 1), s\<lparr>dma_mem := buf\<rparr>)
   }"
| "ioctl_step K (Answer r) s = None"

fun answered :: "ioctl_pc \<Rightarrow> bool" where
  "answered (Answer r) = True"
| "answered p = False"

section \<open>One call alone\<close>

lemmas ioctl_next = leads_next [where step = "ioctl_step K" and fin = answered for K]

lemma leads_transfer:
  "leads (ioctl_step K) answered (Read_i i j, s)
     (map_option (\<lambda>buf. (Answer 0, s\<lparr>dma_mem := buf\<rparr>)) (reverse_loop i j (dma_mem s)))"
proof (induction i j "dma_mem s" arbitrary: s rule: reverse_loop.induct)
  case (1 i j)
  show ?case
  proof (cases "i < j")
    case True
    let ?out = "\<lambda>s :: sdma_state. map_option (\<lambda>buf. (Answer 0, s\<lparr>dma_mem := buf\<rparr>))"
    have rest: "leads (ioctl_step K) answered (Read_i (i + 1) (j - 1), s\<lparr>dma_mem := b2\<rparr>)
        (?out s (reverse_loop (i + 1) (j - 1) b2))"
      if "buf_get (dma_mem s) i = Some t" "buf_get (dma_mem s) j = Some bj" "buf_set (dma_mem s) i bj = Some b1"
        "buf_set b1 j t = Some b2" for t bj b1 b2
      using "1.hyps" [OF True that(1-3), of "s\<lparr>dma_mem := b2\<rparr>"] that(4) by simp
    have "leads (ioctl_step K) answered (Read_i i j, s) (do { t \<leftarrow> buf_get (dma_mem s) i; bj \<leftarrow> buf_get (dma_mem s) j;
        b1 \<leftarrow> buf_set (dma_mem s) i bj; b2 \<leftarrow> buf_set b1 j t; ?out s (reverse_loop (i + 1) (j - 1) b2) })"
      by ((rule leads_bind, simp add: True, simp)+) (simp add: rest)
    then show ?thesis using True
      by (simp add: reverse_loop.simps [of i j "dma_mem s"] map_option_bind comp_def)
  next
    case False
    then have "ioctl_step K (Read_i i j) s = Some (Answer 0, s)" by simp
    from ioctl_next [OF this leads_refl] False show ?thesis by (simp add: reverse_loop.simps [of i j "dma_mem s"])
  qed
qed

lemma leads_ioctl:
  "leads (ioctl_step K) answered (Ioctl cmd, s)
     (map_option (\<lambda>(r, s'). (Answer r, s')) (simple_dma_ioctl K cmd s))"
proof -
  have go: "leads (ioctl_step K) answered (Ioctl cmd, s) r" if "leads (ioctl_step K) answered (p, s) r"
    "ioctl_step K (Ioctl cmd) s = Some (p, s)" for p r using ioctl_next [OF that(2,1)] .
  show ?thesis
    using go [OF leads_transfer] go [OF leads_refl]
    by (auto simp: simple_dma_ioctl_def map_option_bind comp_def map_conv_bind_option)
qed

section \<open>Transfers in parallel\<close>

text \<open>A byte of place \<open>k\<close> or of the place opposite.\<close>

definition of_pair :: "u8 list \<Rightarrow> int \<Rightarrow> u8 \<Rightarrow> bool" where
  "of_pair m k v \<longleftrightarrow> v = m ! nat k \<or> v = rev m ! nat k"

lemma of_pair_opposite:
  assumes "0 \<le> i" and "0 \<le> j" and "i + j = int (length m) - 1"
  shows "of_pair m j v \<longleftrightarrow> of_pair m i v"
proof -
  have "nat i < length m" "nat j < length m" "length m - Suc (nat i) = nat j" "length m - Suc (nat j) = nat i"
    using assms by auto
  then show ?thesis by (auto simp: of_pair_def rev_nth)
qed

definition buffer_inv :: "linux \<Rightarrow> u8 list \<Rightarrow> sdma_state \<Rightarrow> bool" where
  "buffer_inv K m s \<longleftrightarrow> dma_buffer_virt s \<noteq> NULL \<and> length (dma_mem s) = length m \<and>
     length m = DMA_BUFFER_SIZE K \<and> DMA_BUFFER_SIZE K \<le> 2 ^ 31 \<and>
     (\<forall>k<length m. of_pair m (int k) (dma_mem s ! k))"

definition swaps :: "u8 list \<Rightarrow> int \<Rightarrow> int \<Rightarrow> bool" where
  "swaps m i j \<longleftrightarrow> 0 \<le> i \<and> i < j \<and> i + j = int (length m) - 1"

fun call_ok :: "linux \<Rightarrow> u8 list \<Rightarrow> u32 \<Rightarrow> ioctl_pc \<Rightarrow> bool" where
  "call_ok K m cmd (Ioctl c) \<longleftrightarrow> c = cmd"
| "call_ok K m cmd (Read_i i j) \<longleftrightarrow> cmd = SIMPLE_DMA_START_TRANSFER K \<and> 0 \<le> i \<and> i + j = int (length m) - 1"
| "call_ok K m cmd (Read_j i j temp) \<longleftrightarrow> cmd = SIMPLE_DMA_START_TRANSFER K \<and> swaps m i j \<and> of_pair m i temp"
| "call_ok K m cmd (Write_i i j temp bj) \<longleftrightarrow>
     cmd = SIMPLE_DMA_START_TRANSFER K \<and> swaps m i j \<and> of_pair m i temp \<and> of_pair m i bj"
| "call_ok K m cmd (Write_j i j temp) \<longleftrightarrow> cmd = SIMPLE_DMA_START_TRANSFER K \<and> swaps m i j \<and> of_pair m i temp"
| "call_ok K m cmd (Answer r) \<longleftrightarrow> r = (if cmd = SIMPLE_DMA_START_TRANSFER K then 0 else - ENOTTY)"

text \<open>The steps a call still takes, at most.\<close>

fun steps_left :: "linux \<Rightarrow> ioctl_pc \<Rightarrow> nat" where
  "steps_left K (Ioctl c) = 2 * DMA_BUFFER_SIZE K + 2"
| "steps_left K (Read_i i j) = 2 * nat (j - i + 1) + 1"
| "steps_left K (Read_j i j temp) = 2 * nat (j - i + 1)"
| "steps_left K (Write_i i j temp bj) = 2 * nat (j - i + 1) - 1"
| "steps_left K (Write_j i j temp) = 2 * nat (j - i + 1) - 2"
| "steps_left K (Answer r) = 0"

lemma answer_ok:
  "call_ok K m cmd p \<Longrightarrow> answered p \<Longrightarrow> p = Answer (if cmd = SIMPLE_DMA_START_TRANSFER K then 0 else - ENOTTY)"
  by (cases p) auto

lemma buffer_get:
  assumes "buffer_inv K m s" and "swaps m i j"
  shows "\<exists>v. buf_get (dma_mem s) i = Some v \<and> of_pair m i v" and "\<exists>v. buf_get (dma_mem s) j = Some v \<and> of_pair m i v"
proof -
  have "of_pair m k (dma_mem s ! nat k)" if k: "0 \<le> k" "k < int (length m)" for k
  proof -
    have "nat k < length m" using k by simp
    with assms(1) have "of_pair m (int (nat k)) (dma_mem s ! nat k)" unfolding buffer_inv_def by blast
    with k show ?thesis by simp
  qed
  moreover have "0 \<le> i" "i < int (length m)" "0 \<le> j" "j < int (length m)" "of_pair m j = of_pair m i"
    using assms(2) of_pair_opposite [of i j m] by (auto simp: swaps_def)
  ultimately show "\<exists>v. buf_get (dma_mem s) i = Some v \<and> of_pair m i v" "\<exists>v. buf_get (dma_mem s) j = Some v \<and> of_pair m i v"
    using assms(1) by (force simp: buf_get_def buffer_inv_def)+
qed

lemma buffer_put:
  assumes "buffer_inv K m s" and "swaps m i j" and "of_pair m i v" and "k = i \<or> k = j"
  shows "\<exists>buf. buf_set (dma_mem s) k v = Some buf \<and> buffer_inv K m (s\<lparr>dma_mem := buf\<rparr>)"
proof -
  have k: "0 \<le> k" "k < int (length m)" "of_pair m k v"
    using assms(2-4) of_pair_opposite [of i j m v] by (auto simp: swaps_def)
  then show ?thesis
    using assms(1) by (auto simp: buf_set_def buffer_inv_def nth_list_update)
qed

lemma ioctl_progress:
  assumes "buffer_inv K m s" and "call_ok K m cmd p" and "\<not> answered p"
  shows "\<exists>p' s'. ioctl_step K p s = Some (p', s') \<and> buffer_inv K m s' \<and> call_ok K m cmd p' \<and>
    steps_left K p' < steps_left K p"
proof (cases p)
  case (Ioctl c)
  have "to_int32 (int (DMA_BUFFER_SIZE K) - 1) = int (DMA_BUFFER_SIZE K) - 1"
    using assms(1) by (intro to_int32_id) (auto simp: buffer_inv_def)
  with assms Ioctl show ?thesis by (auto simp: buffer_inv_def)
next
  case (Read_i i j)
  with assms show ?thesis using buffer_get(1) [OF assms(1), of i j] by (auto simp: swaps_def)
next
  case (Read_j i j temp)
  with assms show ?thesis using buffer_get(2) [OF assms(1), of i j] by (auto simp: swaps_def)
next
  case (Write_i i j temp bj)
  with assms show ?thesis using buffer_put [OF assms(1), of i j bj i] by (auto simp: swaps_def)
next
  case (Write_j i j temp)
  with assms show ?thesis using buffer_put [OF assms(1), of i j temp j] by (auto simp: swaps_def)
next
  case (Answer r)
  with assms(3) show ?thesis by simp
qed

interpretation ioctls: sharing_threads "ioctl_step K" answered "buffer_inv K m" "\<lambda>i. call_ok K m (cmds ! i)" "steps_left K"
  for K m cmds
proof (unfold_locales, goal_cases)
  case (1 s i p)
  then show ?case by (rule ioctl_progress)
next
  case (2 p s)
  then show ?case by (cases p) auto
qed

section \<open>A lost byte\<close>

lemma reverse_loop_twice:
  assumes "0 \<le> i" and "j < int (length buf)"
  obtains buf' where "reverse_loop i j buf = Some buf'" "reverse_loop i j buf' = Some buf"
proof -
  note swap = reverse_loop_pointwise [OF assms(1)]
  obtain b1 where b1: "reverse_loop i j buf = Some b1" "length b1 = length buf"
    "\<And>k. 0 \<le> k \<Longrightarrow> k < int (length buf) \<Longrightarrow> b1 ! nat k = (if i \<le> k \<and> k \<le> j then buf ! nat (i + j - k) else buf ! nat k)"
    using swap [OF assms(2)] by blast
  obtain b2 where b2: "reverse_loop i j b1 = Some b2" "length b2 = length buf"
    "\<And>k. 0 \<le> k \<Longrightarrow> k < int (length buf) \<Longrightarrow> b2 ! nat k = (if i \<le> k \<and> k \<le> j then b1 ! nat (i + j - k) else b1 ! nat k)"
    using swap [of j b1] assms(2) b1(2) by auto
  have "b2 ! k = buf ! k" if "k < length buf" for k
    using b2(3) [of "int k"] b1(3) [of "int k"] b1(3) [of "i + j - int k"] that assms by (simp split: if_splits)
  then have "b2 = buf" using b2(2) by (simp add: nth_equalityI)
  with b1 b2 that show thesis by blast
qed

lemma alone_transfer:
  assumes "reverse_loop i j (dma_mem s) = Some buf" and "k < length ps" and "ps ! k = Read_i i j"
  shows "\<exists>is. sched (ioctl_step K) (ps, s) is (ps[k := Answer 0], s\<lparr>dma_mem := buf\<rparr>)"
  using leads_sched [OF _ assms(2,3)] leads_transfer [of K i j s] assms(1) by simp

text \<open>A call up to its first write, and the step after it.\<close>

lemma first_write:
  assumes "dma_buffer_virt s \<noteq> NULL" and "length (dma_mem s) = DMA_BUFFER_SIZE K"
    and "1 < DMA_BUFFER_SIZE K" and "DMA_BUFFER_SIZE K \<le> 2 ^ 31"
  shows "alone (ioctl_step K) 4 (Ioctl (SIMPLE_DMA_START_TRANSFER K), s) =
    Some (Write_j 0 (int (length (dma_mem s)) - 1) (dma_mem s ! 0), s\<lparr>dma_mem := (dma_mem s)[0 := last (dma_mem s)]\<rparr>)"
proof -
  have "to_int32 (int (DMA_BUFFER_SIZE K) - 1) = int (DMA_BUFFER_SIZE K) - 1"
    using assms(4) by (intro to_int32_id) auto
  moreover have "dma_mem s \<noteq> []" using assms(2,3) by auto
  moreover have "nat (int (DMA_BUFFER_SIZE K) - 1) = DMA_BUFFER_SIZE K - 1" by simp
  ultimately show ?thesis
    using assms(1-3) by (simp add: eval_nat_numeral buf_get_def buf_set_def last_conv_nth)
qed

lemma last_write:
  assumes "dma_mem s \<noteq> []" and n: "n = length (dma_mem s)"
  shows "alone (ioctl_step K) 1 (Write_j 0 (int n - 1) v, s) =
    Some (Read_i 1 (int n - 2), s\<lparr>dma_mem := (dma_mem s)[n - 1 := v]\<rparr>)"
proof -
  have "nat (int n - 1) = n - 1" by simp
  then show ?thesis using assms by (simp add: buf_set_def)
qed

section \<open>Properties\<close>

text \<open>
  The steps are the function. A call run alone reaches its return with the result and in the
  state \<open>simple_dma_ioctl\<close> computes, and where that is undefined the steps reach an access
  outside the buffer.
\<close>

theorem sdma_ioctl_step_by_step:
  "case simple_dma_ioctl K cmd s of
     Some (r, s') \<Rightarrow> \<exists>n. alone (ioctl_step K) n (Ioctl cmd, s) = Some (Answer r, s')
   | None \<Rightarrow> \<exists>n p t. alone (ioctl_step K) n (Ioctl cmd, s) = Some (p, t) \<and>
       crashed (ioctl_step K) answered ([p], t)"
  using leads_ioctl [of K cmd s] by (auto simp: leads_Some leads_None split: option.split)

text \<open>
  C6: any number of processes in \<open>simple_dma_ioctl\<close> at once, with any commands. In every interleaving
  of their accesses no access leaves the buffer, a call takes at most two steps per byte of the buffer and
  two more, every call that returns has the result of its command, and each place of the
  buffer holds its own byte or the one of the place opposite.
\<close>

theorem sdma_ioctls_in_parallel:
  assumes "dma_buffer_virt s \<noteq> NULL" and "length (dma_mem s) = DMA_BUFFER_SIZE K"
    and "DMA_BUFFER_SIZE K \<le> 2 ^ 31"
    and run: "sched (ioctl_step K) (map Ioctl cmds, s) is (ps, t)"
  shows "\<not> crashed (ioctl_step K) answered (ps, t) \<and>
    length is \<le> length cmds * (2 * DMA_BUFFER_SIZE K + 2) \<and>
    (\<forall>i<length cmds. answered (ps ! i) \<longrightarrow>
       ps ! i = Answer (if cmds ! i = SIMPLE_DMA_START_TRANSFER K then 0 else - ENOTTY)) \<and>
    length (dma_mem t) = length (dma_mem s) \<and>
    (\<forall>k<length (dma_mem s). dma_mem t ! k \<in> {dma_mem s ! k, rev (dma_mem s) ! k})"
proof -
  let ?m = "dma_mem s"
  have inv: "buffer_inv K ?m s" using assms(1-3) by (simp add: buffer_inv_def of_pair_def)
  have ok: "call_ok K ?m (cmds ! i) (map Ioctl cmds ! i)" if "i < length (map Ioctl cmds)" for i
    using that by simp
  have keep: "buffer_inv K ?m t" "\<forall>i<length ps. call_ok K ?m (cmds ! i) (ps ! i)"
    "length is + sum_list (map (steps_left K) ps) \<le> sum_list (map (steps_left K) (map Ioctl cmds))"
    using ioctls.schedules_keep [OF run, of ?m cmds] inv ok by simp_all
  have "length ps = length cmds" using sched_length [OF run] by simp
  with keep(2) have "\<forall>i<length cmds. answered (ps ! i) \<longrightarrow>
      ps ! i = Answer (if cmds ! i = SIMPLE_DMA_START_TRANSFER K then 0 else - ENOTTY)"
    by (intro allI impI answer_ok [of K ?m]) simp_all
  moreover have "map (steps_left K) (map Ioctl cmds) = replicate (length cmds) (2 * DMA_BUFFER_SIZE K + 2)"
    by (induction cmds) simp_all
  then have "length is \<le> length cmds * (2 * DMA_BUFFER_SIZE K + 2)" using keep(3) by (simp add: sum_list_replicate)
  ultimately show ?thesis
    using ioctls.schedules_never_crash [OF run inv ok] keep(1) by (simp add: buffer_inv_def of_pair_def)
qed

theorem sdma_ioctls_in_parallel_witness:
  "\<exists>is t. sched (ioctl_step tiny_kernel) (map Ioctl [SIMPLE_DMA_START_TRANSFER tiny_kernel], tiny_state) is
       ([Answer 0], t) \<and> length is \<le> 10 \<and> dma_mem t ! 0 \<in> {1, 4}"
proof -
  let ?K = tiny_kernel and ?c = "SIMPLE_DMA_START_TRANSFER tiny_kernel"
  have pre: "dma_buffer_virt tiny_state \<noteq> NULL" "length (dma_mem tiny_state) = DMA_BUFFER_SIZE ?K"
    "DMA_BUFFER_SIZE ?K \<le> 2 ^ 31" by (simp_all add: DMA_BUFFER_SIZE_def)
  obtain t where "simple_dma_ioctl ?K ?c tiny_state = Some (0, t)" using ioctl_start [OF pre] by blast
  with leads_ioctl [of ?K ?c tiny_state]
  have "leads (ioctl_step ?K) answered (Ioctl ?c, tiny_state) (Some (Answer 0, t))" by simp
  from leads_sched [OF this, of 0 "[Ioctl ?c]"] obtain "is" where
    run: "sched (ioctl_step ?K) (map Ioctl [?c], tiny_state) is ([Answer 0], t)" by auto
  from sdma_ioctls_in_parallel [OF pre run] have "length is \<le> 10" "dma_mem t ! 0 \<in> {1, 4}"
    by (auto simp: DMA_BUFFER_SIZE_def)
  with run show ?thesis by blast
qed

text \<open>
  C19: two transfers at once can lose a byte. Both answer success, and the buffer, which two transfers
  one after the other leave as it was, has its last byte twice and its first byte not at all.
\<close>

theorem sdma_transfer_race:
  assumes "dma_buffer_virt s \<noteq> NULL" and len: "length (dma_mem s) = DMA_BUFFER_SIZE K"
    and "DMA_BUFFER_SIZE K \<le> 2 ^ 31" and "0 < DMA_BUFFER_SIZE K"
  shows "\<exists>is. sched (ioctl_step K)
    ([Ioctl (SIMPLE_DMA_START_TRANSFER K), Ioctl (SIMPLE_DMA_START_TRANSFER K)], s) is
    ([Answer 0, Answer 0], s\<lparr>dma_mem := (dma_mem s)[0 := last (dma_mem s)]\<rparr>)"
proof -
  let ?m = "dma_mem s" and ?n = "int (length (dma_mem s))" and ?c = "Ioctl (SIMPLE_DMA_START_TRANSFER K)"
  let ?w = "?m[0 := last ?m]" and ?i = "Read_i 1 (?n - 2)"
  have n: "1 < length ?m" using len assms(4) by (simp add: DMA_BUFFER_SIZE_def)
  then have "?m \<noteq> []" by auto
  with n have m: "last ?w = last ?m" by (subst last_list_update) auto
  have "alone (ioctl_step K) 4 (?c, s) = Some (Write_j 0 (?n - 1) (?m ! 0), s\<lparr>dma_mem := ?w\<rparr>)"
    using first_write [of s K] assms n by simp
  from alone_sched [OF this, of 0 "[?c, ?c]"]
  have a: "sched (ioctl_step K) ([?c, ?c], s) (replicate 4 0) ([Write_j 0 (?n - 1) (?m ! 0), ?c], s\<lparr>dma_mem := ?w\<rparr>)"
    by simp
  have "alone (ioctl_step K) 4 (?c, s\<lparr>dma_mem := ?w\<rparr>) = Some (Write_j 0 (?n - 1) (last ?m), s\<lparr>dma_mem := ?w\<rparr>)"
    using first_write [of "s\<lparr>dma_mem := ?w\<rparr>" K] assms n m by simp
  from alone_sched [OF this, of 1 "[Write_j 0 (?n - 1) (?m ! 0), ?c]"]
  have b: "sched (ioctl_step K) ([Write_j 0 (?n - 1) (?m ! 0), ?c], s\<lparr>dma_mem := ?w\<rparr>) (replicate 4 1)
      ([Write_j 0 (?n - 1) (?m ! 0), Write_j 0 (?n - 1) (last ?m)], s\<lparr>dma_mem := ?w\<rparr>)" by simp
  have "alone (ioctl_step K) 1 (Write_j 0 (?n - 1) (?m ! 0), s\<lparr>dma_mem := ?w\<rparr>) =
      Some (?i, s\<lparr>dma_mem := ?w[length ?m - 1 := ?m ! 0]\<rparr>)"
    using last_write [of "s\<lparr>dma_mem := ?w\<rparr>" "length ?m" K "?m ! 0"] \<open>?m \<noteq> []\<close> by simp
  from alone_sched [OF this, of 0 "[Write_j 0 (?n - 1) (?m ! 0), Write_j 0 (?n - 1) (last ?m)]"]
  have c: "sched (ioctl_step K) ([Write_j 0 (?n - 1) (?m ! 0), Write_j 0 (?n - 1) (last ?m)], s\<lparr>dma_mem := ?w\<rparr>) [0]
      ([?i, Write_j 0 (?n - 1) (last ?m)], s\<lparr>dma_mem := ?w[length ?m - 1 := ?m ! 0]\<rparr>)" by simp
  have "?w[length ?m - 1 := last ?m] = ?w"
    using \<open>?m \<noteq> []\<close> m by (metis last_conv_nth length_list_update list_update_id list_update_nonempty)
  then have "alone (ioctl_step K) 1 (Write_j 0 (?n - 1) (last ?m), s\<lparr>dma_mem := ?w[length ?m - 1 := ?m ! 0]\<rparr>) =
      Some (?i, s\<lparr>dma_mem := ?w\<rparr>)"
    using last_write [of "s\<lparr>dma_mem := ?w[length ?m - 1 := ?m ! 0]\<rparr>" "length ?m" K "last ?m"] \<open>?m \<noteq> []\<close> by simp
  from alone_sched [OF this, of 1 "[?i, Write_j 0 (?n - 1) (last ?m)]"]
  have d: "sched (ioctl_step K) ([?i, Write_j 0 (?n - 1) (last ?m)], s\<lparr>dma_mem := ?w[length ?m - 1 := ?m ! 0]\<rparr>) [1]
      ([?i, ?i], s\<lparr>dma_mem := ?w\<rparr>)" by simp
  obtain w' where w': "reverse_loop 1 (?n - 2) ?w = Some w'" "reverse_loop 1 (?n - 2) w' = Some ?w"
    using reverse_loop_twice [of 1 "?n - 2" ?w] by auto
  obtain js where e: "sched (ioctl_step K) ([?i, ?i], s\<lparr>dma_mem := ?w\<rparr>) js ([Answer 0, ?i], s\<lparr>dma_mem := w'\<rparr>)"
    using alone_transfer [of 1 "?n - 2" "s\<lparr>dma_mem := ?w\<rparr>" w' 0 "[?i, ?i]" K] w' by auto
  obtain ks where "sched (ioctl_step K) ([Answer 0, ?i], s\<lparr>dma_mem := w'\<rparr>) ks ([Answer 0, Answer 0], s\<lparr>dma_mem := ?w\<rparr>)"
    using alone_transfer [of 1 "?n - 2" "s\<lparr>dma_mem := w'\<rparr>" ?w 1 "[Answer 0, ?i]" K] w' by auto
  from sched_append [OF a sched_append [OF b sched_append [OF c sched_append [OF d sched_append [OF e this]]]]]
  show ?thesis by blast
qed

theorem sdma_transfer_race_witness:
  "\<exists>is. sched (ioctl_step tiny_kernel)
    ([Ioctl (SIMPLE_DMA_START_TRANSFER tiny_kernel), Ioctl (SIMPLE_DMA_START_TRANSFER tiny_kernel)], tiny_state) is
    ([Answer 0, Answer 0], tiny_state\<lparr>dma_mem := [4, 2, 3, 4]\<rparr>)"
  using sdma_transfer_race [of tiny_state tiny_kernel] by (simp add: DMA_BUFFER_SIZE_def)

end
