(* ===== verification/Pci_Contract.thy ===== *)
theory Pci_Contract
  imports Kernel_API
begin

text \<open>
  What the PCI core and a driver promise each other. A driver is the pair of callbacks of
  its \<open>struct pci_driver\<close>. The core binds a device by calling \<open>probe\<close> (the device
  stays bound exactly when it returns 0) and unbinds it by calling \<open>remove\<close>.

  The locale \<open>pci_driver_contract\<close> states the driver's side over the resource ledger:
  a failed probe gives back everything it took, a successful one adds exactly what the
  device owns, \<open>remove\<close> gives exactly that back, and none of them touches what other
  bound devices own. Its lemma \<open>core_accounting\<close> follows every sequence of bindings and
  unbindings. The drivers' theories interpret it.
\<close>

section \<open>The driver structure\<close>

record 's pci_driver =
  drv_name :: string
  id_table :: "(u16 \<times> u16) list"
  probe :: "ptr \<Rightarrow> ('s, int) state"
  remove :: "ptr \<Rightarrow> ('s, unit) state"

section \<open>The core as a client\<close>

text \<open>
  A state of the system is the driver's state with the set of bound devices. \<open>may B p\<close>
  restricts which devices the bus offers while \<open>B\<close> is bound: a driver that keeps its
  data in global variables serves one device at a time.
\<close>

inductive core_step ::
    "'s pci_driver \<Rightarrow> (ptr set \<Rightarrow> ptr \<Rightarrow> bool) \<Rightarrow> 's \<times> ptr set \<Rightarrow> 's \<times> ptr set \<Rightarrow> bool"
  for drv may
where
  bind: "p \<notin> B \<Longrightarrow> may B p \<Longrightarrow> run_state (probe drv p) s = (0, s') \<Longrightarrow>
    core_step drv may (s, B) (s', insert p B)"
| bind_fails: "p \<notin> B \<Longrightarrow> may B p \<Longrightarrow> run_state (probe drv p) s = (r, s') \<Longrightarrow> r \<noteq> 0 \<Longrightarrow>
    core_step drv may (s, B) (s', B)"
| unbind: "p \<in> B \<Longrightarrow> run_state (remove drv p) s = ((), s') \<Longrightarrow>
    core_step drv may (s, B) (s', B - {p})"

inductive_cases core_stepE: "core_step drv may (s, B) (s', B')"

inductive core_run ::
    "'s pci_driver \<Rightarrow> (ptr set \<Rightarrow> ptr \<Rightarrow> bool) \<Rightarrow> 's \<times> ptr set \<Rightarrow> 's \<times> ptr set \<Rightarrow> bool"
  for drv may
where
  core_stop: "core_run drv may x x"
| core_go: "core_run drv may x y \<Longrightarrow> core_step drv may y z \<Longrightarrow> core_run drv may x z"

definition single_device :: "ptr set \<Rightarrow> ptr \<Rightarrow> bool" where
  "single_device B p \<longleftrightarrow> B = {}"

definition any_device :: "ptr set \<Rightarrow> ptr \<Rightarrow> bool" where
  "any_device B p \<longleftrightarrow> True"

lemma bind_unbind_run:
  assumes "result (probe drv p) s = 0" and "may {} p"
  shows "core_run drv may (s, {}) (exec (remove drv p) (exec (probe drv p) s), {})"
proof -
  let ?s1 = "exec (probe drv p) s"
  let ?s2 = "exec (remove drv p) ?s1"
  have "run_state (probe drv p) s = (0, ?s1)"
    using assms(1) by (metis prod.collapse)
  then have up: "core_step drv may (s, {}) (?s1, {p})"
    using assms(2) by (intro core_step.bind [of p "{}", simplified]) simp_all
  have "run_state (remove drv p) ?s1 = ((), ?s2)"
    by (metis old.unit.exhaust prod.collapse)
  then have "core_step drv may (?s1, {p}) (?s2, {})"
    using core_step.unbind [of p "{p}"] by simp
  with up show ?thesis by (blast intro: core_run.intros)
qed

text \<open>A driver that serves one device at a time.\<close>

definition at_most_one :: "ptr set \<Rightarrow> 's \<Rightarrow> bool" where
  "at_most_one B s \<longleftrightarrow> B = {} \<or> (\<exists>p. B = {p})"

lemma at_most_one_simps [simp]:
  "at_most_one {} s" "at_most_one {p} s"
  "at_most_one B s \<Longrightarrow> p \<in> B \<Longrightarrow> B - {p} = {}"
  by (auto simp: at_most_one_def)

section \<open>The contract\<close>

locale pci_driver_contract =
  fixes drv :: "'s pci_driver"
    and may :: "ptr set \<Rightarrow> ptr \<Rightarrow> bool"
    and acct :: "'s \<Rightarrow> res multiset option"
    and bound_ok :: "ptr set \<Rightarrow> 's \<Rightarrow> bool"
    and owns :: "ptr \<Rightarrow> 's \<Rightarrow> res multiset"
  assumes probe_fail:
      "bound_ok B s \<Longrightarrow> p \<notin> B \<Longrightarrow> may B p \<Longrightarrow> run_state (probe drv p) s = (r, s') \<Longrightarrow> r \<noteq> 0 \<Longrightarrow>
       acct s = Some M \<Longrightarrow>
       acct s' = Some M \<and> bound_ok B s' \<and> (\<forall>q\<in>B. owns q s' = owns q s)"
    and probe_ok:
      "bound_ok B s \<Longrightarrow> p \<notin> B \<Longrightarrow> may B p \<Longrightarrow> run_state (probe drv p) s = (0, s') \<Longrightarrow>
       acct s = Some M \<Longrightarrow>
       acct s' = Some (M + owns p s') \<and> bound_ok (insert p B) s' \<and>
       (\<forall>q\<in>B. owns q s' = owns q s)"
    and remove_ok:
      "bound_ok B s \<Longrightarrow> p \<in> B \<Longrightarrow> run_state (remove drv p) s = ((), s') \<Longrightarrow>
       acct s = Some (M + owns p s) \<Longrightarrow>
       acct s' = Some M \<and> bound_ok (B - {p}) s' \<and> (\<forall>q\<in>B - {p}. owns q s' = owns q s)"
begin

definition accounted :: "res multiset \<Rightarrow> 's \<times> ptr set \<Rightarrow> bool" where
  "accounted M x \<longleftrightarrow> (case x of (s, B) \<Rightarrow>
     finite B \<and> bound_ok B s \<and> acct s = Some (M + (\<Sum>q\<in>B. owns q s)))"

lemma sum_owns_cong:
  "\<forall>q\<in>B. owns q s' = owns q s \<Longrightarrow> (\<Sum>q\<in>B. owns q s') = (\<Sum>q\<in>B. owns q s)"
  by (rule sum.cong) simp_all

lemma step_accounted:
  assumes "core_step drv may x y" and "accounted M x"
  shows "accounted M y"
  using assms
proof (induction rule: core_step.induct)
  case (bind p B s s')
  then have fin: "finite B" and acc: "acct s' = Some (M + (\<Sum>q\<in>B. owns q s) + owns p s')"
    and ok: "bound_ok (insert p B) s'" and same: "\<forall>q\<in>B. owns q s' = owns q s"
    using probe_ok [of B s p s' "M + (\<Sum>q\<in>B. owns q s)"] by (auto simp: accounted_def)
  have "M + (\<Sum>q\<in>B. owns q s) + owns p s' = M + (\<Sum>q\<in>insert p B. owns q s')"
    using fin bind.hyps(1) sum_owns_cong [OF same] by (simp add: ac_simps)
  with fin acc ok show ?case by (simp add: accounted_def)
next
  case (bind_fails p B s r s')
  then have "acct s' = Some (M + (\<Sum>q\<in>B. owns q s)) \<and> bound_ok B s' \<and>
      (\<forall>q\<in>B. owns q s' = owns q s)"
    using probe_fail [of B s p r s' "M + (\<Sum>q\<in>B. owns q s)"] by (simp add: accounted_def)
  with bind_fails.prems sum_owns_cong [of B s' s] show ?case by (simp add: accounted_def)
next
  case (unbind p B s s')
  then have fin: "finite B" and ok: "bound_ok B s"
    and acc: "acct s = Some (M + (\<Sum>q\<in>B. owns q s))"
    by (auto simp: accounted_def)
  have "M + (\<Sum>q\<in>B. owns q s) = M + (\<Sum>q\<in>B - {p}. owns q s) + owns p s"
    using fin unbind.hyps(1) by (simp add: sum.remove ac_simps)
  with acc have "acct s = Some (M + (\<Sum>q\<in>B - {p}. owns q s) + owns p s)" by (simp only:)
  with remove_ok [OF ok unbind.hyps] have "acct s' = Some (M + (\<Sum>q\<in>B - {p}. owns q s))"
    and "bound_ok (B - {p}) s'" and same: "\<forall>q\<in>B - {p}. owns q s' = owns q s"
    by auto
  with fin sum_owns_cong [OF same] show ?case by (simp add: accounted_def)
qed

lemma run_accounted: "core_run drv may x y \<Longrightarrow> accounted M x \<Longrightarrow> accounted M y"
  by (induction rule: core_run.induct) (auto intro: step_accounted)

text \<open>Starting with no device bound, what is held is what the bound devices own.\<close>

lemma core_accounting:
  assumes "core_run drv may (s, {}) (t, B)" and "bound_ok {} s" and "acct s = Some M"
  shows "acct t = Some (M + (\<Sum>q\<in>B. owns q t))"
  using run_accounted [OF assms(1), of M] assms(2,3) by (simp add: accounted_def)

lemma core_no_leak:
  assumes "core_run drv may (s, {}) (t, {})" and "bound_ok {} s" and "acct s = Some M"
  shows "acct t = Some M"
  using core_accounting [OF assms] by simp

end

section \<open>Modules that register a PCI driver\<close>

text \<open>
  A module whose init function registers a driver with the PCI core and whose exit function
  unregisters it: between the two, devices come and go. Unregistering detaches the devices
  that are still bound, so the exit function runs to its end with no device bound.
\<close>

locale pci_module = pci_driver_contract drv may acct bound_ok owns
  for drv :: "'s pci_driver" and may and acct and bound_ok and owns +
  fixes load :: "('s, int) state"
    and unload :: "('s, unit) state"
  assumes load_acct: "run_state load s = (r, s') \<Longrightarrow> acct s = Some M \<Longrightarrow>
      acct s' = Some (if r = 0 then add_mset (PciDriver (drv_name drv)) M else M)"
    and load_bound: "run_state load s = (r, s') \<Longrightarrow> acct s = Some M \<Longrightarrow> bound_ok {} s \<Longrightarrow> bound_ok {} s'"
    and unload_acct: "acct s = Some (add_mset (PciDriver (drv_name drv)) M) \<Longrightarrow> acct (exec unload s) = Some M"
begin

lemma lifecycle:
  assumes "run_state load s = (0, s1)" and "acct s = Some M" and "bound_ok {} s"
    and "core_run drv may (s1, {}) (t, B)"
  shows "acct t = Some (add_mset (PciDriver (drv_name drv)) M + (\<Sum>q\<in>B. owns q t)) \<and>
    (B = {} \<longrightarrow> acct (exec unload t) = Some M)"
proof -
  have "acct s1 = Some (add_mset (PciDriver (drv_name drv)) M)"
    using load_acct [OF assms(1,2)] by simp
  from core_accounting [OF assms(4) load_bound [OF assms(1,2,3)] this]
  have acc: "acct t = Some (add_mset (PciDriver (drv_name drv)) M + (\<Sum>q\<in>B. owns q t))" .
  then show ?thesis using unload_acct [of t M] by auto
qed

end

end
