(* ===== verification/Pcie.thy ===== *)
theory Pcie
  imports Pci_Contract
begin

text \<open>
  The PCI driver with MMIO and a legacy interrupt, \<open>pci_mmio/pcie.c\<close>. Its data lives in
  the two file-scope variables \<open>mmio_base\<close> and \<open>irq_line\<close>.

  Shown: each probe outcome against the ledger, probe and unwinding in stack order, the
  PCI contract for one device at a time, and what happens with a second device (the
  variables are overwritten, so removing both releases one mapping twice).
\<close>

section \<open>State and operations\<close>

record pcie_state = "kcall kstate" +
  mmio_base :: ptr
  irq_line :: int

definition pci_ids :: "(u16 \<times> u16) list" where
  "pci_ids = [(0x1234, 0x5678)]"

definition irq_handler :: "int \<Rightarrow> ptr \<Rightarrow> (pcie_state, irqreturn_t) state" where
  "irq_handler irq dev_id = ret IRQ_HANDLED"

definition pci_probe :: "linux \<Rightarrow> ptr \<Rightarrow> (pcie_state, int) state" where
  "pci_probe K pdev = do {
     err \<leftarrow> call_int K (Pci (Pci_enable_device pdev));
     if err \<noteq> 0 then ret err else do {
       mmio_start \<leftarrow> call_u64 K (Pci (Pci_resource_start pdev 0));
       mmio_len \<leftarrow> call_u64 K (Pci (Pci_resource_len pdev 0));
       err \<leftarrow> call_int K (Pci (Pci_request_region pdev 0 ''pci_irq_driver''));
       if err \<noteq> 0 then do {
         call_void (Pci (Pci_disable_device pdev));
         ret err
       } else do {
         base \<leftarrow> call_u64 K (Io (Ioremap mmio_start mmio_len));
         modify (\<lambda>s. s\<lparr>mmio_base := base\<rparr>);
         if base = NULL then do {
           call_void (Pci (Pci_release_region pdev 0));
           call_void (Pci (Pci_disable_device pdev));
           ret (- ENOMEM)
         } else do {
           modify (\<lambda>s. s\<lparr>irq_line := pdev_irq K pdev\<rparr>);
           irq \<leftarrow> gets irq_line;
           err \<leftarrow> call_int K (Irqc (Request_irq irq ''irq_handler'' True ''pci_irq_driver'' pdev));
           if err \<noteq> 0 then do {
             base \<leftarrow> gets mmio_base;
             call_void (Io (Iounmap base));
             call_void (Pci (Pci_release_region pdev 0));
             call_void (Pci (Pci_disable_device pdev));
             ret err
           } else ret 0
         }
       }
     }
   }"

definition pci_remove :: "ptr \<Rightarrow> (pcie_state, unit) state" where
  "pci_remove pdev = do {
     irq \<leftarrow> gets irq_line;
     call_void (Irqc (Free_irq irq pdev));
     base \<leftarrow> gets mmio_base;
     call_void (Io (Iounmap base));
     call_void (Pci (Pci_release_region pdev 0));
     call_void (Pci (Pci_disable_device pdev))
   }"

definition pci_irq_driver :: "linux \<Rightarrow> pcie_state pci_driver" where
  "pci_irq_driver K = \<lparr>drv_name = ''pci_irq_driver'', id_table = pci_ids,
     probe = pci_probe K, remove = pci_remove\<rparr>"

definition pci_irq_init :: "linux \<Rightarrow> (pcie_state, int) state" where
  "pci_irq_init K = call_int K (Pci (Pci_register_driver (drv_name (pci_irq_driver K))))"

definition pci_irq_exit :: "linux \<Rightarrow> (pcie_state, unit) state" where
  "pci_irq_exit K = call_void (Pci (Pci_unregister_driver (drv_name (pci_irq_driver K))))"

section \<open>What a bound device owns\<close>

definition pcie_owns :: "ptr \<Rightarrow> pcie_state \<Rightarrow> res list" where
  "pcie_owns pdev s =
     [Irq (irq_line s) pdev, Mapping (mmio_base s), Region pdev 0, PciDev pdev]"

lemma pci_probe_moves:
  "run_state (pci_probe K pdev) s = (r, s') \<Longrightarrow>
   moves K [] s (if r = 0 then pcie_owns pdev s' else []) s'"
  by (auto simp: pci_probe_def pcie_owns_def moves_def split: if_splits)

lemma pci_remove_moves: "moves K (pcie_owns pdev s) s [] (exec (pci_remove pdev) s)"
  by (simp add: pci_remove_def pcie_owns_def moves_def)

lemma pci_probe_held:
  assumes "run_state (pci_probe K pdev) s = (r, s')" and "held K s = Some M"
  shows "held K s' = Some (if r = 0 then M + mset (pcie_owns pdev s') else M)"
  using moves_held [OF pci_probe_moves [OF assms(1)], of M] assms(2) by simp

lemma pci_remove_held:
  "held K s = Some (M + mset (pcie_owns pdev s)) \<Longrightarrow> held K (exec (pci_remove pdev) s) = Some M"
  using moves_held [OF pci_remove_moves] by fastforce

interpretation pcie: pci_driver_contract
  "pci_irq_driver K" single_device "held K" at_most_one "\<lambda>p s. mset (pcie_owns p s)"
  for K
proof (unfold_locales, goal_cases)
  case (1 B s p r s' M)
  then show ?case
    using pci_probe_held [of K p s r s' M] by (simp add: pci_irq_driver_def single_device_def)
next
  case (2 B s p s' M)
  then show ?case
    using pci_probe_held [of K p s 0 s' M] by (simp add: pci_irq_driver_def single_device_def)
next
  case (3 B s p s' M)
  then show ?case
    using pci_remove_held [of K s M p] by (simp add: pci_irq_driver_def)
qed

interpretation pcie_mod: pci_module
  "pci_irq_driver K" single_device "held K" at_most_one "\<lambda>p s. mset (pcie_owns p s)"
  "pci_irq_init K" "pci_irq_exit K"
  for K
  by unfold_locales (auto simp: pci_irq_init_def pci_irq_exit_def)

section \<open>Properties\<close>

text \<open>
  Whatever the kernel answers, \<open>pci_probe\<close> either returns 0 and has acquired exactly the
  enabled device, BAR 0, the mapping in \<open>mmio_base\<close> and the interrupt in \<open>irq_line\<close>,
  or returns an error and has given back, newest first, everything it had acquired.
\<close>

theorem pci_probe_unwinds:
  assumes "run_state (pci_probe K pdev) s = (r, s')" and "held_stack K s = Some st"
  shows "held_stack K s' = Some (if r = 0 then pcie_owns pdev s' @ st else st)"
  using moves_stack [OF pci_probe_moves [OF assms(1)] assms(2)] by simp

abbreviation pcie_start :: pcie_state where
  "pcie_start \<equiv> \<lparr>klog = [], mmio_base = NULL, irq_line = 0\<rparr>"

abbreviation irq_busy :: linux where
  "irq_busy \<equiv> sample_kernel (\<lambda>c. case c of Irqc (Request_irq i h sh n d) \<Rightarrow> -16 | _ \<Rightarrow> 0)"

theorem pci_probe_unwinds_witness:
  "result (pci_probe irq_busy 1) pcie_start = -16 \<and>
   held_stack irq_busy (exec (pci_probe irq_busy 1) pcie_start) = Some []"
proof -
  have r: "result (pci_probe irq_busy 1) pcie_start = -16"
    by (simp add: pci_probe_def)
  have "held_stack irq_busy pcie_start = Some []" by (simp add: lifo_def)
  from pci_probe_unwinds [OF _ this, of 1 "-16" "exec (pci_probe irq_busy 1) pcie_start"] r
  show ?thesis by (simp add: prod_eq_iff)
qed

text \<open>
  For one device at a time, any sequence of bindings (successful or not) and unbindings
  that ends with no device bound leaves the kernel holding what it held before.
\<close>

theorem pcie_hotplug_no_leak:
  assumes "core_run (pci_irq_driver K) single_device (s, {}) (t, {})" and "held K s = Some M"
  shows "held K t = Some M"
  using pcie.core_no_leak [OF assms(1) _ assms(2)] by simp

theorem pcie_hotplug_no_leak_witness:
  "held good_kernel (exec (pci_remove 1) (exec (pci_probe good_kernel 1) pcie_start)) = Some {#}"
proof -
  have "result (probe (pci_irq_driver good_kernel) 1) pcie_start = 0"
    by (simp add: pci_irq_driver_def pci_probe_def)
  from bind_unbind_run [where may = single_device, OF this]
  have run: "core_run (pci_irq_driver good_kernel) single_device (pcie_start, {})
      (exec (pci_remove 1) (exec (pci_probe good_kernel 1) pcie_start), {})"
    by (simp add: pci_irq_driver_def single_device_def)
  show ?thesis by (rule pcie_hotplug_no_leak [OF run]) simp
qed

text \<open>
  C31: with two devices bound, the second \<open>pci_probe\<close> overwrites \<open>mmio_base\<close> and
  \<open>irq_line\<close>; removing both then releases something that is not held, although each
  device was probed successfully and got a mapping of its own.
\<close>

theorem pcie_second_device_breaks_remove:
  assumes "held K s = Some {#}" and "p \<noteq> q"
    and "run_state (pci_probe K p) s = (0, s1)" and "run_state (pci_probe K q) s1 = (0, s2)"
    and "mmio_base s1 \<noteq> mmio_base s2"
  shows "held K (exec (pci_remove q) (exec (pci_remove p) s2)) = None"
proof -
  from pci_probe_held [OF assms(3) assms(1)] have "held K s1 = Some (mset (pcie_owns p s1))"
    by simp
  from pci_probe_held [OF assms(4) this]
  have "held K s2 = Some (mset (pcie_owns p s1) + mset (pcie_owns q s2))" by simp
  with assms(2,5) show ?thesis
    by (cases "irq_line s1 = irq_line s2") (simp_all add: pci_remove_def pcie_owns_def)
qed

theorem pcie_second_device_breaks_remove_witness:
  "held good_kernel (exec (pci_remove 2) (exec (pci_remove 1)
     (exec (pci_probe good_kernel 2) (exec (pci_probe good_kernel 1) pcie_start)))) = None"
proof -
  let ?s1 = "exec (pci_probe good_kernel 1) pcie_start"
  let ?s2 = "exec (pci_probe good_kernel 2) ?s1"
  have h: "held good_kernel pcie_start = Some {#}" by simp
  have r1: "run_state (pci_probe good_kernel 1) pcie_start = (0, ?s1)"
    by (simp add: pci_probe_def)
  have r2: "run_state (pci_probe good_kernel 2) ?s1 = (0, ?s2)"
    by (simp add: pci_probe_def)
  have d: "mmio_base ?s1 \<noteq> mmio_base ?s2"
    by (simp add: pci_probe_def)
  show ?thesis by (rule pcie_second_device_breaks_remove [OF h _ r1 r2 d]) simp
qed

text \<open>
  C27: after the module is loaded, with one device at a time bound and unbound any number of times,
  successfully or not, what the kernel holds is what it held before loading, the
  registration of the driver, and what the device now bound does own; once no device is bound, unloading
  the module leaves exactly what was held before loading.
\<close>

theorem pcie_module_lifecycle:
  assumes "run_state (pci_irq_init K) s = (0, s1)" and "held K s = Some M"
    and "core_run (pci_irq_driver K) single_device (s1, {}) (t, B)"
  shows "held K t = Some (add_mset (PciDriver (drv_name (pci_irq_driver K))) M + (\<Sum>q\<in>B. mset (pcie_owns q t))) \<and>
    (B = {} \<longrightarrow> held K (exec (pci_irq_exit K) t) = Some M)"
  using pcie_mod.lifecycle [OF assms(1,2) _ assms(3)] by simp

theorem pcie_module_lifecycle_witness:
  "held good_kernel (exec (pci_irq_exit good_kernel) (exec (remove (pci_irq_driver good_kernel) 1) (exec (probe (pci_irq_driver good_kernel) 1)
     (exec (pci_irq_init good_kernel) pcie_start)))) = Some {#}"
proof -
  let ?s1 = "exec (pci_irq_init good_kernel) pcie_start"
  have load: "run_state (pci_irq_init good_kernel) pcie_start = (0, ?s1)" by (simp add: pci_irq_init_def)
  have "result (probe (pci_irq_driver good_kernel) 1) ?s1 = 0"
    by (simp add: pci_irq_init_def pci_irq_driver_def pci_probe_def)
  from bind_unbind_run [where may = single_device, OF this]
  have run: "core_run (pci_irq_driver good_kernel) single_device (?s1, {})
      (exec (remove (pci_irq_driver good_kernel) 1) (exec (probe (pci_irq_driver good_kernel) 1) ?s1), {})"
    by (simp add: single_device_def)
  from pcie_module_lifecycle [OF load _ run, of "{#}"] show ?thesis by (simp)
qed

end
