(* ===== verification/Dma_Device.thy ===== *)
theory Dma_Device
  imports Pci_Contract
begin

text \<open>
  The PCI driver with a DMA engine, a completion interrupt and a tasklet,
  \<open>dma_kernel_with_peripheral/driver.c\<close>.

  Each device has a private structure, reached through the PCI driver data; \<open>privs\<close> is the
  memory of these structures and \<open>dma_bufs\<close> the contents of the coherent buffers, by virtual
  address. The registers are accessed through the kernel's \<open>ioread\<close>/\<open>iowrite\<close>; where a
  theorem needs that the simulated registers keep what was written, this is the
  hypothesis \<open>mmio_readback\<close>.

  Shown: every exit of the probe function against the ledger, the PCI contract for any
  number of devices, the interrupt handler, and the whole simulated transfer.
\<close>

unbundle bit_operations_syntax

section \<open>State\<close>

abbreviation (input) MY_DEVICE_DMA_START_BIT :: u32 where "MY_DEVICE_DMA_START_BIT \<equiv> 1"
abbreviation (input) MY_DEVICE_DMA_DIR_BIT :: u32 where "MY_DEVICE_DMA_DIR_BIT \<equiv> 2"
abbreviation (input) MY_DEVICE_DMA_BUSY_BIT :: u32 where "MY_DEVICE_DMA_BUSY_BIT \<equiv> 1"
abbreviation (input) MY_DEVICE_DMA_DONE_BIT :: u32 where "MY_DEVICE_DMA_DONE_BIT \<equiv> 2"
abbreviation (input) MY_DEVICE_IRQ_ENABLE_BIT :: u32 where "MY_DEVICE_IRQ_ENABLE_BIT \<equiv> 4"

definition dma_size :: "linux \<Rightarrow> nat" where
  "dma_size K = 4 * PAGE_SIZE K"

record my_device_priv =
  priv_pdev :: ptr
  regs_base :: ptr
  regs :: ptr
  buffer_virt :: ptr
  buffer_phys :: u64
  priv_irq :: int

text \<open>The layout of \<open>struct my_device_regs\<close>.\<close>

definition reg_control :: "my_device_priv \<Rightarrow> ptr" where "reg_control d = regs d"
definition reg_status :: "my_device_priv \<Rightarrow> ptr" where "reg_status d = regs d + 4"
definition reg_dma_addr :: "my_device_priv \<Rightarrow> ptr" where "reg_dma_addr d = regs d + 8"
definition reg_dma_len :: "my_device_priv \<Rightarrow> ptr" where "reg_dma_len d = regs d + 16"

record dmad_state = "kcall kstate" +
  drvdata :: "ptr \<Rightarrow> ptr"
  privs :: "ptr \<Rightarrow> my_device_priv"
  dma_bufs :: "ptr \<Rightarrow> u8 list"

definition zero_priv :: my_device_priv where
  "zero_priv = \<lparr>priv_pdev = 0, regs_base = 0, regs = 0, buffer_virt = 0, buffer_phys = 0, priv_irq = 0\<rparr>"

definition set_priv :: "ptr \<Rightarrow> (my_device_priv \<Rightarrow> my_device_priv) \<Rightarrow> (dmad_state, unit) state" where
  "set_priv a f = modify (\<lambda>s. s\<lparr>privs := (privs s)(a := f (privs s a))\<rparr>)"

definition ioread32 :: "linux \<Rightarrow> ptr \<Rightarrow> (dmad_state, u32) state" where
  "ioread32 K a = do { v \<leftarrow> call_u64 K (Io (Ioread32 a)); ret (ucast v) }"

definition iowrite32 :: "u32 \<Rightarrow> ptr \<Rightarrow> (dmad_state, unit) state" where
  "iowrite32 v a = call_void (Io (Iowrite32 v a))"

section \<open>Interrupt path\<close>

definition my_device_tasklet_handler :: "ptr \<Rightarrow> (dmad_state, unit) state" where
  "my_device_tasklet_handler data = ret ()"

definition my_device_isr :: "linux \<Rightarrow> int \<Rightarrow> ptr \<Rightarrow> (dmad_state, irqreturn_t) state" where
  "my_device_isr K irq dev_id = do {
     d \<leftarrow> gets (\<lambda>s. privs s dev_id);
     status \<leftarrow> ioread32 K (reg_status d);
     if status AND MY_DEVICE_DMA_DONE_BIT \<noteq> 0 then do {
       iowrite32 (status AND NOT MY_DEVICE_DMA_DONE_BIT) (reg_status d);
       call_void (Irqc (Tasklet_schedule dev_id));
       ret IRQ_HANDLED
     } else ret IRQ_NONE
   }"

section \<open>The simulated transfer\<close>

definition memset_buf :: "ptr \<Rightarrow> u8 \<Rightarrow> nat \<Rightarrow> (dmad_state, unit) state" where
  "memset_buf a v n = modify (\<lambda>s. s\<lparr>dma_bufs := (dma_bufs s)(a :=
     replicate n v @ drop n (dma_bufs s a))\<rparr>)"

definition my_device_simulate_dma :: "linux \<Rightarrow> ptr \<Rightarrow> (dmad_state, unit) state" where
  "my_device_simulate_dma K priv = do {
     d \<leftarrow> gets (\<lambda>s. privs s priv);
     control \<leftarrow> ioread32 K (reg_control d);
     dma_addr \<leftarrow> call_u64 K (Io (Ioread64 (reg_dma_addr d)));
     dma_len \<leftarrow> ioread32 K (reg_dma_len d);
     (if buffer_virt d \<noteq> NULL \<and> unat dma_len \<le> dma_size K then do {
        (if control AND MY_DEVICE_DMA_DIR_BIT \<noteq> 0
         then memset_buf (buffer_virt d) 0xAA (unat dma_len)
         else ret ());
        iowrite32 (MY_DEVICE_DMA_DONE_BIT OR MY_DEVICE_IRQ_ENABLE_BIT) (reg_status d);
        my_device_isr K (priv_irq d) priv;
        ret ()
      } else iowrite32 0 (reg_status d));
     iowrite32 (control AND NOT MY_DEVICE_DMA_START_BIT) (reg_control d)
   }"

section \<open>Probe and remove\<close>

definition disable_pci :: "ptr \<Rightarrow> int \<Rightarrow> (dmad_state, int) state" where
  "disable_pci pdev r = do {
     call_void (Pci (Pci_disable_device pdev));
     ret r
   }"

definition release_region :: "ptr \<Rightarrow> int \<Rightarrow> (dmad_state, int) state" where
  "release_region pdev r = do {
     call_void (Pci (Pci_release_region pdev 0));
     disable_pci pdev r
   }"

definition iounmap_regs :: "ptr \<Rightarrow> ptr \<Rightarrow> int \<Rightarrow> (dmad_state, int) state" where
  "iounmap_regs pdev priv r = do {
     d \<leftarrow> gets (\<lambda>s. privs s priv);
     (if regs_base d \<noteq> NULL then call_void (Io (Iounmap (regs_base d))) else ret ());
     release_region pdev r
   }"

definition free_dma_buffer :: "linux \<Rightarrow> ptr \<Rightarrow> ptr \<Rightarrow> int \<Rightarrow> (dmad_state, int) state" where
  "free_dma_buffer K pdev priv r = do {
     d \<leftarrow> gets (\<lambda>s. privs s priv);
     (if buffer_virt d \<noteq> NULL
      then call_void (Memc (Dma_free_coherent pdev (of_nat (dma_size K)) (buffer_virt d) (buffer_phys d)))
      else ret ());
     iounmap_regs pdev priv r
   }"

text \<open>Steps 5 to 7: program the registers, start the transfer, simulate it.\<close>

definition start_dma :: "linux \<Rightarrow> ptr \<Rightarrow> (dmad_state, unit) state" where
  "start_dma K priv = do {
     d \<leftarrow> gets (\<lambda>s. privs s priv);
     call_void (Io (Iowrite64 (buffer_phys d) (reg_dma_addr d)));
     iowrite32 (of_nat (dma_size K)) (reg_dma_len d);
     iowrite32 0 (reg_control d);
     iowrite32 (MY_DEVICE_DMA_DIR_BIT OR MY_DEVICE_IRQ_ENABLE_BIT) (reg_control d);
     iowrite32 (MY_DEVICE_DMA_START_BIT OR MY_DEVICE_DMA_DIR_BIT OR MY_DEVICE_IRQ_ENABLE_BIT)
       (reg_control d);
     my_device_simulate_dma K priv
   }"

text \<open>Step 4: the interrupt.\<close>

definition probe_irq :: "linux \<Rightarrow> ptr \<Rightarrow> ptr \<Rightarrow> (dmad_state, int) state" where
  "probe_irq K pdev priv = do {
     irq \<leftarrow> call_int K (Pci (Pci_irq_vector pdev 0));
     set_priv priv (\<lambda>d. d\<lparr>priv_irq := irq\<rparr>);
     if irq < 0 then free_dma_buffer K pdev priv irq
     else do {
       call_void (Irqc (Tasklet_init priv ''my_device_tasklet_handler'' priv));
       r \<leftarrow> call_int K (Irqc (Request_irq irq ''my_device_isr'' True ''my_device'' priv));
       if r \<noteq> 0 then free_dma_buffer K pdev priv r
       else do {
         start_dma K priv;
         ret 0
       }
     }
   }"

text \<open>Steps 2 and 3: the registers and the buffer.\<close>

definition probe_map :: "linux \<Rightarrow> ptr \<Rightarrow> ptr \<Rightarrow> (dmad_state, int) state" where
  "probe_map K pdev priv = do {
     r \<leftarrow> call_int K (Pci (Pci_request_region pdev 0 ''my_device_mmio''));
     if r \<noteq> 0 then disable_pci pdev r
     else do {
       mmio_start \<leftarrow> call_u64 K (Pci (Pci_resource_start pdev 0));
       mmio_len \<leftarrow> call_u64 K (Pci (Pci_resource_len pdev 0));
       base \<leftarrow> call_u64 K (Io (Ioremap mmio_start mmio_len));
       set_priv priv (\<lambda>d. d\<lparr>regs_base := base\<rparr>);
       if base = NULL then release_region pdev (- EIO)
       else do {
         set_priv priv (\<lambda>d. d\<lparr>regs := base\<rparr>);
         (virt, phys) \<leftarrow> call_u64_out K (Memc (Dma_alloc_coherent pdev (of_nat (dma_size K))));
         set_priv priv (\<lambda>d. d\<lparr>buffer_virt := virt, buffer_phys := phys\<rparr>);
         if virt = NULL then iounmap_regs pdev priv (- ENOMEM)
         else do {
           modify (\<lambda>s. s\<lparr>dma_bufs := (dma_bufs s)(virt := replicate (dma_size K) 0)\<rparr>);
           probe_irq K pdev priv
         }
       }
     }
   }"

definition my_device_probe :: "linux \<Rightarrow> ptr \<Rightarrow> (dmad_state, int) state" where
  "my_device_probe K pdev = do {
     r \<leftarrow> call_int K (Pci (Pci_enable_device pdev));
     if r \<noteq> 0 then ret r
     else do {
       priv \<leftarrow> call_u64 K (Memc (Devm_kzalloc pdev));
       if priv = NULL then disable_pci pdev (- ENOMEM)
       else do {
         set_priv priv (\<lambda>d. zero_priv);
         modify (\<lambda>s. s\<lparr>drvdata := (drvdata s)(pdev := priv)\<rparr>);
         set_priv priv (\<lambda>d. d\<lparr>priv_pdev := pdev\<rparr>);
         probe_map K pdev priv
       }
     }
   }"

definition my_device_remove :: "linux \<Rightarrow> ptr \<Rightarrow> (dmad_state, unit) state" where
  "my_device_remove K pdev = do {
     priv \<leftarrow> gets (\<lambda>s. drvdata s pdev);
     d \<leftarrow> gets (\<lambda>s. privs s priv);
     (if regs d \<noteq> NULL then do {
        control \<leftarrow> ioread32 K (reg_control d);
        iowrite32 (control AND NOT MY_DEVICE_IRQ_ENABLE_BIT) (reg_control d)
      } else ret ());
     (if priv_irq d > 0 then call_void (Irqc (Free_irq (priv_irq d) priv)) else ret ());
     call_void (Irqc (Tasklet_kill priv));
     (if buffer_virt d \<noteq> NULL
      then call_void (Memc (Dma_free_coherent pdev (of_nat (dma_size K)) (buffer_virt d) (buffer_phys d)))
      else ret ());
     (if regs_base d \<noteq> NULL then call_void (Io (Iounmap (regs_base d))) else ret ());
     call_void (Pci (Pci_release_region pdev 0));
     call_void (Pci (Pci_disable_device pdev))
   }"

definition my_device_id_table :: "(u16 \<times> u16) list" where
  "my_device_id_table = [(0x1234, 0x5678)]"

definition my_device_driver :: "linux \<Rightarrow> dmad_state pci_driver" where
  "my_device_driver K = \<lparr>drv_name = ''my_device'', id_table = my_device_id_table,
     probe = my_device_probe K, remove = my_device_remove K\<rparr>"

definition my_device_init :: "linux \<Rightarrow> (dmad_state, int) state" where
  "my_device_init K = call_int K (Pci (Pci_register_driver (drv_name (my_device_driver K))))"

definition my_device_exit :: "linux \<Rightarrow> (dmad_state, unit) state" where
  "my_device_exit K = call_void (Pci (Pci_unregister_driver (drv_name (my_device_driver K))))"

section \<open>Neutral parts\<close>

text \<open>
  Register traffic, the handler and the simulated transfer neither acquire nor release
  anything and leave the private structures and the driver data alone.
\<close>

definition quiet :: "linux \<Rightarrow> (dmad_state, 'a) state \<Rightarrow> bool" where
  "quiet K m \<longleftrightarrow> (\<forall>s st. moves K st s st (exec m s) \<and>
     privs (exec m s) = privs s \<and> drvdata (exec m s) = drvdata s)"

lemma quiet_bind: "quiet K m \<Longrightarrow> (\<And>x. quiet K (f x)) \<Longrightarrow> quiet K (State_Monad.bind m f)"
  by (simp add: quiet_def split_beta) (blast intro: moves_trans)

lemma quiet_basics:
  "quiet K (ret x)" "quiet K (gets g)" "quiet K (ioread32 K' a)" "quiet K (iowrite32 v a)"
  "quiet K (call_u64 K' (Io (Ioread64 a)))" "quiet K (call_void (Io (Iowrite64 w a)))"
  "quiet K (call_void (Irqc (Tasklet_schedule t)))" "quiet K (memset_buf a b n)"
  by (simp_all add: quiet_def moves_def ioread32_def iowrite32_def memset_buf_def)

lemma quiet_isr: "quiet K (my_device_isr K' irq p)"
  unfolding my_device_isr_def by (auto intro!: quiet_bind quiet_basics)

lemma quiet_simulate: "quiet K (my_device_simulate_dma K' p)"
  unfolding my_device_simulate_dma_def
  by (auto intro!: quiet_bind quiet_basics quiet_isr)

lemma quiet_start: "quiet K (start_dma K' p)"
  unfolding start_dma_def by (auto intro!: quiet_bind quiet_basics quiet_simulate)

section \<open>Probe and remove against the ledger\<close>

text \<open>What a bound device owns, newest first.\<close>

definition dmad_mapped :: "linux \<Rightarrow> ptr \<Rightarrow> my_device_priv \<Rightarrow> res list" where
  "dmad_mapped K pdev d = [DmaBuf pdev (of_nat (dma_size K)) (buffer_virt d) (buffer_phys d),
     Mapping (regs_base d), Region pdev 0, PciDev pdev]"

definition dmad_owns :: "linux \<Rightarrow> ptr \<Rightarrow> ptr \<Rightarrow> my_device_priv \<Rightarrow> res list" where
  "dmad_owns K pdev priv d = Irq (priv_irq d) priv # dmad_mapped K pdev d"

definition dmad_wf :: "my_device_priv \<Rightarrow> bool" where
  "dmad_wf d \<longleftrightarrow> buffer_virt d \<noteq> NULL \<and> regs_base d \<noteq> NULL \<and> regs d = regs_base d"

text \<open>The kernel numbers interrupts from 1; 0 is not a valid interrupt.\<close>

definition irq_vectors_nonzero :: "linux \<Rightarrow> bool" where
  "irq_vectors_nonzero K \<longleftrightarrow> (\<forall>l p i. k_int K l (Pci (Pci_irq_vector p i)) \<noteq> 0)"

text \<open>
  The part of the driver's memory a device's callbacks may change: its own private
  structure and its own driver data.
\<close>

definition only_touches :: "ptr \<Rightarrow> ptr \<Rightarrow> dmad_state \<Rightarrow> dmad_state \<Rightarrow> bool" where
  "only_touches pdev priv s s' \<longleftrightarrow>
     (\<forall>a. a \<noteq> priv \<longrightarrow> privs s' a = privs s a) \<and> (\<forall>q. q \<noteq> pdev \<longrightarrow> drvdata s' q = drvdata s q)"

lemma free_dma_buffer_moves:
  assumes "dmad_wf (privs s priv)"
  shows "moves K (dmad_mapped K pdev (privs s priv)) s [] (exec (free_dma_buffer K pdev priv r) s) \<and>
    result (free_dma_buffer K pdev priv r) s = r \<and>
    privs (exec (free_dma_buffer K pdev priv r) s) = privs s \<and>
    drvdata (exec (free_dma_buffer K pdev priv r) s) = drvdata s"
  using assms
  by (simp add: free_dma_buffer_def iounmap_regs_def release_region_def disable_pci_def moves_def
    dmad_wf_def dmad_mapped_def)

text \<open>The two states \<open>probe_irq\<close> goes through: with the vector, and after the request.\<close>

abbreviation (input) irq_vec :: "linux \<Rightarrow> ptr \<Rightarrow> dmad_state \<Rightarrow> int" where
  "irq_vec K pdev s \<equiv> k_int K (klog s) (Pci (Pci_irq_vector pdev 0))"

definition with_vector :: "linux \<Rightarrow> ptr \<Rightarrow> ptr \<Rightarrow> dmad_state \<Rightarrow> dmad_state" where
  "with_vector K pdev priv s = s\<lparr>klog := klog s @ [(Pci (Pci_irq_vector pdev 0), RInt (irq_vec K pdev s))],
     privs := (privs s)(priv := (privs s priv)\<lparr>priv_irq := irq_vec K pdev s\<rparr>)\<rparr>"

definition requested :: "linux \<Rightarrow> ptr \<Rightarrow> int \<Rightarrow> dmad_state \<Rightarrow> int \<times> dmad_state" where
  "requested K priv i s1 = (let
     s2 = s1\<lparr>klog := klog s1 @ [(Irqc (Tasklet_init priv ''my_device_tasklet_handler'' priv), RVoid)]\<rparr>;
     q = Irqc (Request_irq i ''my_device_isr'' True ''my_device'' priv); r = k_int K (klog s2) q
     in (r, s2\<lparr>klog := klog s2 @ [(q, RInt r)]\<rparr>))"

lemma probe_irq_run:
  "run_state (probe_irq K pdev priv) s = (let i = irq_vec K pdev s; s1 = with_vector K pdev priv s;
     (r, s3) = requested K priv i s1 in
     if i < 0 then run_state (free_dma_buffer K pdev priv i) s1
     else if r \<noteq> 0 then run_state (free_dma_buffer K pdev priv r) s3
     else (0, exec (start_dma K priv) s3))"
  by (simp add: probe_irq_def set_priv_def with_vector_def requested_def Let_def split_beta)

lemma with_vector_moves:
  "moves K st s st (with_vector K pdev priv s)" "only_touches pdev priv s (with_vector K pdev priv s)"
  "drvdata (with_vector K pdev priv s) = drvdata s"
  "privs (with_vector K pdev priv s) priv = (privs s priv)\<lparr>priv_irq := irq_vec K pdev s\<rparr>"
  by (simp_all add: with_vector_def moves_def only_touches_def)

lemma requested_moves:
  assumes "requested K priv i s1 = (r, s3)"
  shows "moves K st s1 (if r = 0 then Irq i priv # st else st) s3" "privs s3 = privs s1" "drvdata s3 = drvdata s1"
  using assms by (auto simp: requested_def Let_def moves_def)

lemma probe_irq_moves:
  assumes wf: "dmad_wf (privs s priv)" and run: "run_state (probe_irq K pdev priv) s = (r, s')"
  shows "(if r = 0
      then moves K (dmad_mapped K pdev (privs s priv)) s (dmad_owns K pdev priv (privs s' priv)) s' \<and>
        dmad_wf (privs s' priv) \<and> (irq_vectors_nonzero K \<longrightarrow> 0 < priv_irq (privs s' priv))
      else moves K (dmad_mapped K pdev (privs s priv)) s [] s') \<and>
    only_touches pdev priv s s' \<and> drvdata s' = drvdata s"
proof -
  let ?i = "irq_vec K pdev s" and ?m = "dmad_mapped K pdev (privs s priv)"
  define s1 where "s1 = with_vector K pdev priv s"
  note m1 = with_vector_moves [where K = K and pdev = pdev and priv = priv and s = s, folded s1_def]
  have d1: "dmad_wf (privs s1 priv)" "dmad_mapped K pdev (privs s1 priv) = ?m"
    using wf by (simp_all add: m1 dmad_wf_def dmad_mapped_def)
  obtain q s3 where q: "requested K priv ?i s1 = (q, s3)" by (cases "requested K priv ?i s1")
  note m3 = moves_trans [OF m1(1) requested_moves(1) [OF q]] and p3 = requested_moves(2,3) [OF q]
  have eq: "(if ?i < 0 then run_state (free_dma_buffer K pdev priv ?i) s1
      else if q \<noteq> 0 then run_state (free_dma_buffer K pdev priv q) s3 else (0, exec (start_dma K priv) s3)) = (r, s')"
    using run q by (simp add: probe_irq_run Let_def flip: s1_def)
  consider (vec) "?i < 0" | (req) "\<not> ?i < 0" "q \<noteq> 0" | (ok) "\<not> ?i < 0" "q = 0" by blast
  then show ?thesis
  proof cases
    case vec
    with free_dma_buffer_moves [OF d1(1), of K pdev ?i] eq have
      "r = ?i" "moves K ?m s1 [] s'" "privs s' = privs s1" "drvdata s' = drvdata s1" using d1(2) by auto
    with vec m1 moves_trans [OF m1(1)] show ?thesis by (simp add: only_touches_def)
  next
    case req
    with free_dma_buffer_moves [of s3 priv K pdev q] d1 p3 eq have
      "r = q" "moves K ?m s3 [] s'" "privs s' = privs s1" "drvdata s' = drvdata s1" by auto
    with req m1 moves_trans [OF m3 [of ?m]] show ?thesis by (simp add: only_touches_def)
  next
    case ok
    then have s': "r = 0" "s' = exec (start_dma K priv) s3" using eq by auto
    have "moves K st s3 st s'" "privs s' = privs s1" "drvdata s' = drvdata s1" for st
      using quiet_start [of K K priv] p3 by (simp_all add: s' quiet_def)
    with ok s' m1 d1 moves_trans [OF m3 [of ?m]] show ?thesis
      by (auto simp: only_touches_def dmad_owns_def irq_vectors_nonzero_def order_less_le)
  qed
qed

lemma probe_map_moves:
  assumes run: "run_state (probe_map K pdev priv) s = (r, s')"
  shows "(if r = 0
      then moves K [PciDev pdev] s (dmad_owns K pdev priv (privs s' priv)) s' \<and>
        dmad_wf (privs s' priv) \<and> (irq_vectors_nonzero K \<longrightarrow> 0 < priv_irq (privs s' priv))
      else moves K [PciDev pdev] s [] s') \<and>
    only_touches pdev priv s s' \<and> drvdata s' = drvdata s"
proof -
  let ?c1 = "Pci (Pci_request_region pdev 0 ''my_device_mmio'')"
  define l1 where "l1 = klog s @ [(?c1, RInt (k_int K (klog s) ?c1))]"
  let ?c2 = "Pci (Pci_resource_start pdev 0)"
  define l2 where "l2 = l1 @ [(?c2, RU64 (k_u64 K l1 ?c2))]"
  let ?c3 = "Pci (Pci_resource_len pdev 0)"
  define l3 where "l3 = l2 @ [(?c3, RU64 (k_u64 K l2 ?c3))]"
  let ?c4 = "Io (Ioremap (k_u64 K l1 ?c2) (k_u64 K l2 ?c3))"
  let ?base = "k_u64 K l3 ?c4"
  define l4 where "l4 = l3 @ [(?c4, RU64 ?base)]"
  let ?c5 = "Memc (Dma_alloc_coherent pdev (of_nat (dma_size K)))"
  let ?virt = "k_u64 K l4 ?c5" and ?phys = "k_out K l4 ?c5"
  define s5 where "s5 = s\<lparr>klog := l4 @ [(?c5, RU64Out ?virt ?phys)],
    privs := (privs s)(priv := (privs s priv)\<lparr>regs_base := ?base, regs := ?base,
      buffer_virt := ?virt, buffer_phys := ?phys\<rparr>),
    dma_bufs := (dma_bufs s)(?virt := replicate (dma_size K) 0)\<rparr>"
  note ls = l4_def l3_def l2_def l1_def
  show ?thesis
  proof (cases "k_int K (klog s) ?c1 = 0 \<and> ?base \<noteq> NULL \<and> ?virt \<noteq> NULL")
    case False
    with run show ?thesis
      by (auto simp: probe_map_def set_priv_def disable_pci_def release_region_def iounmap_regs_def
        moves_def only_touches_def ls split: if_splits)
  next
    case True
    then have T: "k_int K (klog s) ?c1 = 0" "?base \<noteq> 0" "?virt \<noteq> 0" by auto
    note T' = T(2,3) [simplified ls append_assoc append.simps T(1)]
    have "run_state (probe_map K pdev priv) s = run_state (probe_irq K pdev priv) s5"
      by (simp add: probe_map_def set_priv_def s5_def ls T(1) T')
    with run have run5: "run_state (probe_irq K pdev priv) s5 = (r, s')" by simp
    have wf: "dmad_wf (privs s5 priv)" using True by (simp add: s5_def dmad_wf_def)
    have m5: "moves K [PciDev pdev] s (dmad_mapped K pdev (privs s5 priv)) s5"
      by (simp add: moves_def s5_def dmad_mapped_def ls T(1) T')
    have "only_touches pdev priv s s5" "drvdata s5 = drvdata s" by (simp_all add: only_touches_def s5_def)
    with probe_irq_moves [OF wf run5] show ?thesis
      by (auto simp: only_touches_def intro: moves_trans [OF m5])
  qed
qed

lemma my_device_remove_moves:
  assumes wf: "dmad_wf (privs s (drvdata s pdev))" and irq: "0 < priv_irq (privs s (drvdata s pdev))"
  shows "moves K (dmad_owns K pdev (drvdata s pdev) (privs s (drvdata s pdev))) s []
      (exec (my_device_remove K pdev) s) \<and>
    privs (exec (my_device_remove K pdev) s) = privs s \<and>
    drvdata (exec (my_device_remove K pdev) s) = drvdata s"
proof -
  define priv where "priv = drvdata s pdev"
  define d where "d = privs s priv"
  have ok: "buffer_virt d \<noteq> 0" "regs_base d \<noteq> 0" "regs d \<noteq> 0" "0 < priv_irq d"
    using wf irq by (auto simp: dmad_wf_def d_def priv_def)
  show ?thesis
    unfolding priv_def [symmetric] d_def [symmetric] using ok
    by (simp add: my_device_remove_def moves_def dmad_owns_def dmad_mapped_def
      ioread32_def iowrite32_def priv_def [symmetric] d_def [symmetric])
qed

section \<open>Lifetime of the private structures\<close>

text \<open>
  The device core frees a \<open>devm\<close> block only after the callbacks of its device are through,
  which in this driver is after \<open>pci_disable_device\<close>. So the blocks of \<open>devm_live\<close> are
  certainly still allocated, and \<open>devm_kzalloc\<close> returns none of them.
\<close>

definition devm_event :: "kevent \<Rightarrow> (ptr \<times> ptr) set \<Rightarrow> (ptr \<times> ptr) set" where
  "devm_event e L = (case fst e of
     Memc (Devm_kzalloc p) \<Rightarrow> insert (p, value_of (snd e)) L
   | Pci (Pci_disable_device p) \<Rightarrow> {x \<in> L. fst x \<noteq> p}
   | _ \<Rightarrow> L)"

definition devm_live :: "kevent list \<Rightarrow> (ptr \<times> ptr) set" where
  "devm_live l = fold devm_event l {}"

definition devm_fresh :: "linux \<Rightarrow> bool" where
  "devm_fresh K \<longleftrightarrow> (\<forall>l p q. k_u64 K l (Memc (Devm_kzalloc p)) \<noteq> NULL \<longrightarrow>
     (q, k_u64 K l (Memc (Devm_kzalloc p))) \<notin> devm_live l)"

text \<open>
  \<open>spares q P m\<close>: a run of \<open>m\<close> whose result satisfies \<open>P\<close> does not disable the device \<open>q\<close>.
\<close>

definition spares :: "ptr \<Rightarrow> ('a \<Rightarrow> bool) \<Rightarrow> (dmad_state, 'a) state \<Rightarrow> bool" where
  "spares q P m \<longleftrightarrow> (\<forall>s. \<exists>es. klog (exec m s) = klog s @ es \<and>
     (P (result m s) \<longrightarrow> Pci (Pci_disable_device q) \<notin> fst ` set es))"

lemma spares_bind:
  assumes "spares q (\<lambda>x. True) m" and "\<And>x. spares q P (f x)"
  shows "spares q P (State_Monad.bind m f)"
  unfolding spares_def
proof
  fix s
  obtain es where "klog (exec m s) = klog s @ es" "Pci (Pci_disable_device q) \<notin> fst ` set es"
    using assms(1) unfolding spares_def by blast
  moreover obtain es' where "klog (exec (f (result m s)) (exec m s)) = klog (exec m s) @ es'"
    "P (result (f (result m s)) (exec m s)) \<longrightarrow> Pci (Pci_disable_device q) \<notin> fst ` set es'"
    using assms(2) unfolding spares_def by blast
  ultimately show "\<exists>es. klog (exec (State_Monad.bind m f) s) = klog s @ es \<and>
      (P (result (State_Monad.bind m f) s) \<longrightarrow> Pci (Pci_disable_device q) \<notin> fst ` set es)"
    by (intro exI [of _ "es @ es'"]) (auto simp: split_beta)
qed

lemma spares_basics:
  "spares q P (ret x)" "spares q P1 (gets g)"
  "c \<noteq> Pci (Pci_disable_device q) \<Longrightarrow> spares q P2 (call_int K c)"
  "c \<noteq> Pci (Pci_disable_device q) \<Longrightarrow> spares q Q (call_u64 K c)"
  "c \<noteq> Pci (Pci_disable_device q) \<Longrightarrow> spares q R (call_u64_out K c)"
  "c \<noteq> Pci (Pci_disable_device q) \<Longrightarrow> spares q S (call_void c)"
  "spares q S (set_priv a h)" "spares q S (memset_buf a b n)"
  "spares q S (modify (\<lambda>s. s\<lparr>dma_bufs := db s\<rparr>))" "spares q S (modify (\<lambda>s. s\<lparr>drvdata := dd s\<rparr>))"
  by (simp_all add: spares_def set_priv_def memset_buf_def)

lemma spares_io: "spares q P (ioread32 K a)" "spares q S (iowrite32 v a)"
  unfolding ioread32_def iowrite32_def by (auto intro!: spares_bind spares_basics)

lemma spares_start: "spares q P (start_dma K priv)"
  unfolding start_dma_def my_device_simulate_dma_def my_device_isr_def
  by (auto intro!: spares_bind spares_basics spares_io)

lemma spares_unwind:
  assumes "q \<noteq> pdev \<or> r \<noteq> 0"
  shows "spares q (\<lambda>r. q = pdev \<longrightarrow> r = 0) (disable_pci pdev r)"
  using assms by (auto simp: spares_def disable_pci_def)

lemma spares_unwind_more:
  assumes "q \<noteq> pdev \<or> r \<noteq> 0"
  shows "spares q (\<lambda>r. q = pdev \<longrightarrow> r = 0) (release_region pdev r)"
    "spares q (\<lambda>r. q = pdev \<longrightarrow> r = 0) (iounmap_regs pdev priv r)"
    "spares q (\<lambda>r. q = pdev \<longrightarrow> r = 0) (free_dma_buffer K pdev priv r)"
  using spares_unwind [OF assms] unfolding release_region_def iounmap_regs_def free_dma_buffer_def
  by (auto intro!: spares_bind spares_basics)

lemma spares_probe_irq: "spares q (\<lambda>r. q = pdev \<longrightarrow> r = 0) (probe_irq K pdev priv)"
  unfolding probe_irq_def
  by (auto intro!: spares_bind spares_basics spares_start spares_unwind_more)

lemma spares_probe_map: "spares q (\<lambda>r. q = pdev \<longrightarrow> r = 0) (probe_map K pdev priv)"
  unfolding probe_map_def
  by (auto intro!: spares_bind spares_basics spares_probe_irq spares_unwind spares_unwind_more)

lemma spares_remove: "q \<noteq> pdev \<Longrightarrow> spares q P (my_device_remove K pdev)"
  unfolding my_device_remove_def by (auto intro!: spares_bind spares_basics spares_io)

lemma devm_live_spared:
  assumes "(q, a) \<in> devm_live l" and "Pci (Pci_disable_device q) \<notin> fst ` set es"
  shows "(q, a) \<in> devm_live (l @ es)"
  using assms(2)
proof (induction es rule: rev_induct)
  case Nil
  with assms(1) show ?case by simp
next
  case (snoc e es)
  then have "(q, a) \<in> devm_live (l @ es)" by auto
  moreover have "fst e \<noteq> Pci (Pci_disable_device q)" using snoc.prems by force
  ultimately show ?case
    by (auto simp: devm_live_def devm_event_def split: kcall.splits pci_call.splits mem_call.splits)
qed

lemma spares_live:
  assumes "spares q P m" and "run_state m s = (x, s')" and "P x" and "(q, a) \<in> devm_live (klog s)"
  shows "(q, a) \<in> devm_live (klog s')"
proof -
  obtain es where "klog s' = klog s @ es" "Pci (Pci_disable_device q) \<notin> fst ` set es"
    using assms(1) [unfolded spares_def, rule_format, of s] assms(2,3) by auto
  with devm_live_spared [OF assms(4)] show ?thesis by simp
qed

section \<open>The PCI contract for any number of devices\<close>

definition dmad_priv :: "ptr \<Rightarrow> dmad_state \<Rightarrow> my_device_priv" where
  "dmad_priv q s = privs s (drvdata s q)"

definition dmad_holds :: "linux \<Rightarrow> ptr \<Rightarrow> dmad_state \<Rightarrow> res list" where
  "dmad_holds K q s = dmad_owns K q (drvdata s q) (dmad_priv q s)"

definition dmad_bound :: "ptr \<Rightarrow> dmad_state \<Rightarrow> bool" where
  "dmad_bound q s \<longleftrightarrow> dmad_wf (dmad_priv q s) \<and> 0 < priv_irq (dmad_priv q s) \<and>
     (q, drvdata s q) \<in> devm_live (klog s)"

definition dmad_ok :: "linux \<Rightarrow> ptr set \<Rightarrow> dmad_state \<Rightarrow> bool" where
  "dmad_ok K B s \<longleftrightarrow> devm_fresh K \<and> irq_vectors_nonzero K \<and> (\<forall>q\<in>B. dmad_bound q s)"

definition dmad_same :: "ptr \<Rightarrow> dmad_state \<Rightarrow> dmad_state \<Rightarrow> bool" where
  "dmad_same q s s' \<longleftrightarrow> drvdata s' q = drvdata s q \<and> dmad_priv q s' = dmad_priv q s \<and>
     (q, drvdata s q) \<in> devm_live (klog s')"

lemma dmad_same_bound: "dmad_same q s s' \<Longrightarrow> dmad_bound q s \<Longrightarrow> dmad_bound q s'"
  by (simp add: dmad_same_def dmad_bound_def)

lemma dmad_same_holds: "dmad_same q s s' \<Longrightarrow> dmad_holds K q s' = dmad_holds K q s"
  by (simp add: dmad_same_def dmad_holds_def)

definition schedules :: "kevent list \<Rightarrow> ptr \<Rightarrow> nat" where
  "schedules es t = length (filter (\<lambda>e. fst e = Irqc (Tasklet_schedule t)) es)"

lemma schedules_simps [simp]:
  "schedules [] t = 0"
  "schedules (e # es) t = (if fst e = Irqc (Tasklet_schedule t) then Suc (schedules es t) else schedules es t)"
  "schedules (es @ fs) t = schedules es t + schedules fs t"
  by (simp_all add: schedules_def)

text \<open>A probe up to the point where the private structure is in place.\<close>

lemma my_device_probe_cases:
  assumes "run_state (my_device_probe K pdev) s = (r, s')"
  obtains (early) "r \<noteq> 0" "moves K [] s [] s'" "privs s' = privs s" "drvdata s' = drvdata s"
      "\<And>q a. q \<noteq> pdev \<Longrightarrow> (q, a) \<in> devm_live (klog s) \<Longrightarrow> (q, a) \<in> devm_live (klog s')"
  | (alloc) priv s2 l where "run_state (probe_map K pdev priv) s2 = (r, s')" "priv \<noteq> NULL"
      "moves K [] s [PciDev pdev] s2" "only_touches pdev priv s s2" "drvdata s2 pdev = priv"
      "(pdev, priv) \<in> devm_live (klog s2)"
      "priv = k_u64 K l (Memc (Devm_kzalloc pdev))" "devm_live l = devm_live (klog s)"
      "\<And>q a. (q, a) \<in> devm_live (klog s) \<Longrightarrow> (q, a) \<in> devm_live (klog s2)"
      "\<exists>es. klog s2 = klog s @ es \<and> schedules es priv = 0"
proof -
  let ?c1 = "Pci (Pci_enable_device pdev)"
  define l where "l = klog s @ [(?c1, RInt (k_int K (klog s) ?c1))]"
  let ?priv = "k_u64 K l (Memc (Devm_kzalloc pdev))"
  have dl: "devm_live l = devm_live (klog s)" by (simp add: l_def devm_live_def devm_event_def)
  define l2 where "l2 = l @ [(Memc (Devm_kzalloc pdev), RU64 ?priv)]"
  have dl2: "devm_live l2 = insert (pdev, ?priv) (devm_live (klog s))"
    using dl by (simp add: l2_def devm_live_def devm_event_def)
  define s2 where "s2 = s\<lparr>klog := l2, drvdata := (drvdata s)(pdev := ?priv),
    privs := (privs s)(?priv := zero_priv\<lparr>priv_pdev := pdev\<rparr>)\<rparr>"
  show thesis
  proof (cases "k_int K (klog s) ?c1 = 0 \<and> ?priv \<noteq> NULL")
    case True
    then have T: "k_int K (klog s) ?c1 = 0" "?priv \<noteq> 0" by auto
    have "run_state (my_device_probe K pdev) s = run_state (probe_map K pdev ?priv) s2"
      using T(2) [unfolded l_def T(1)]
      by (simp add: my_device_probe_def set_priv_def s2_def l_def l2_def T(1))
    with assms have "run_state (probe_map K pdev ?priv) s2 = (r, s')" by simp
    moreover have "moves K [] s [PciDev pdev] s2"
      using True by (simp add: moves_def s2_def l_def l2_def)
    moreover have "only_touches pdev ?priv s s2" "drvdata s2 pdev = ?priv"
      by (simp_all add: only_touches_def s2_def)
    moreover have "\<exists>es. klog s2 = klog s @ es \<and> schedules es ?priv = 0"
      by (simp add: s2_def l2_def l_def)
    ultimately show thesis using alloc [of ?priv s2 l] True dl dl2 by (simp add: s2_def)
  next
    case False
    with assms have "r \<noteq> 0" "moves K [] s [] s'" "privs s' = privs s" "drvdata s' = drvdata s"
      by (auto simp: my_device_probe_def disable_pci_def moves_def l_def split: if_splits)
    moreover have "(q, a) \<in> devm_live (klog s')" if "q \<noteq> pdev" "(q, a) \<in> devm_live (klog s)" for q a
      using False assms that
      by (auto simp: my_device_probe_def disable_pci_def devm_live_def devm_event_def l_def
        split: if_splits)
    ultimately show thesis using early by blast
  qed
qed

lemma my_device_probe_moves:
  assumes run: "run_state (my_device_probe K pdev) s = (r, s')"
  shows "moves K [] s (if r = 0 then dmad_holds K pdev s' else []) s' \<and>
    (r = 0 \<longrightarrow> dmad_wf (dmad_priv pdev s') \<and> (irq_vectors_nonzero K \<longrightarrow> dmad_bound pdev s'))"
  using run
proof (cases rule: my_device_probe_cases)
  case early
  then show ?thesis by simp
next
  case (alloc priv s2 l)
  note pm = probe_map_moves [OF alloc(1)]
  have d: "drvdata s' pdev = priv" using pm alloc(5) by simp
  have "(pdev, priv) \<in> devm_live (klog s')" if "r = 0"
    using spares_live [OF spares_probe_map [of pdev pdev] alloc(1) _ alloc(6)] that by simp
  with pm d show ?thesis
    by (auto simp: dmad_holds_def dmad_priv_def dmad_bound_def intro: moves_trans [OF alloc(3)])
qed

lemma my_device_probe_same:
  assumes run: "run_state (my_device_probe K pdev) s = (r, s')" and fresh: "devm_fresh K"
    and q: "q \<noteq> pdev" "dmad_bound q s"
  shows "dmad_same q s s'"
  using run
proof (cases rule: my_device_probe_cases)
  case early
  with q show ?thesis by (simp add: dmad_same_def dmad_bound_def dmad_priv_def)
next
  case (alloc priv s2 l)
  from q have live: "(q, drvdata s q) \<in> devm_live (klog s)" by (simp add: dmad_bound_def)
  then have "priv \<noteq> drvdata s q" using fresh alloc(2,7,8) by (metis devm_fresh_def)
  moreover have "(q, drvdata s q) \<in> devm_live (klog s')"
    using spares_live [OF spares_probe_map [of q pdev] alloc(1) _ alloc(9) [OF live]] q by simp
  ultimately show ?thesis
    using probe_map_moves [OF alloc(1)] alloc(4) q(1)
    by (auto simp: dmad_same_def dmad_priv_def only_touches_def)
qed

lemma my_device_remove_same:
  assumes "dmad_bound pdev s" and "q \<noteq> pdev" and "dmad_bound q s"
  shows "dmad_same q s (exec (my_device_remove K pdev) s)"
proof -
  have "(q, drvdata s q) \<in> devm_live (klog (exec (my_device_remove K pdev) s))"
    using assms(3) spares_live [OF spares_remove [OF assms(2)], where P = "\<lambda>x. True", OF prod.collapse [symmetric]]
    by (simp add: dmad_bound_def)
  with my_device_remove_moves [of s pdev K] assms(1) show ?thesis
    by (simp add: dmad_same_def dmad_bound_def dmad_priv_def)
qed

interpretation dmad: pci_driver_contract
  "my_device_driver K" any_device "held K" "dmad_ok K" "\<lambda>p s. mset (dmad_holds K p s)"
  for K
proof (unfold_locales, goal_cases)
  case (1 B s p r s' M)
  then have run: "run_state (my_device_probe K p) s = (r, s')" by (simp add: my_device_driver_def)
  have same: "dmad_same q s s'" if "q \<in> B" for q
    using my_device_probe_same [OF run] 1 that by (metis dmad_ok_def)
  then have keep: "\<forall>q\<in>B. dmad_bound q s' \<and> dmad_holds K q s' = dmad_holds K q s"
    using 1 by (metis dmad_ok_def dmad_same_bound dmad_same_holds)
  from 1 keep moves_held [OF conjunct1 [OF my_device_probe_moves [OF run]], of M] show ?case
    by (auto simp: dmad_ok_def)
next
  case (2 B s p s' M)
  then have run: "run_state (my_device_probe K p) s = (0, s')" by (simp add: my_device_driver_def)
  have same: "dmad_same q s s'" if "q \<in> B" for q
    using my_device_probe_same [OF run] 2 that by (metis dmad_ok_def)
  then have keep: "\<forall>q\<in>B. dmad_bound q s' \<and> dmad_holds K q s' = dmad_holds K q s"
    using 2 by (metis dmad_ok_def dmad_same_bound dmad_same_holds)
  from 2 keep my_device_probe_moves [OF run] moves_held [OF conjunct1 [OF my_device_probe_moves [OF run]], of M]
  show ?case by (auto simp: dmad_ok_def)
next
  case (3 B s p s' M)
  then have s': "s' = exec (my_device_remove K p) s" and b: "dmad_bound p s"
    by (simp_all add: my_device_driver_def dmad_ok_def)
  have same: "dmad_same q s s'" if "q \<in> B - {p}" for q
    using my_device_remove_same [OF b] 3 that unfolding s' by (auto simp: dmad_ok_def)
  then have keep: "\<forall>q\<in>B - {p}. dmad_bound q s' \<and> dmad_holds K q s' = dmad_holds K q s"
    using 3 by (metis dmad_ok_def dmad_same_bound dmad_same_holds DiffD1)
  have "moves K (dmad_holds K p s) s [] s'"
    using my_device_remove_moves [of s p K] b unfolding s'
    by (simp add: dmad_holds_def dmad_priv_def dmad_bound_def)
  from moves_held [OF this, of M] keep 3 show ?case
    by (auto simp: dmad_ok_def)
qed

interpretation dmad_mod: pci_module
  "my_device_driver K" any_device "held K" "dmad_ok K" "\<lambda>p s. mset (dmad_holds K p s)"
  "my_device_init K" "my_device_exit K"
  for K
  by unfold_locales (auto simp: my_device_init_def my_device_exit_def dmad_ok_def)

section \<open>The simulated transfer\<close>

text \<open>The value last written to a 32-bit register in a history of calls.\<close>

definition w32_event :: "ptr \<Rightarrow> kevent \<Rightarrow> u32 option \<Rightarrow> u32 option" where
  "w32_event a e r = (case fst e of Io (Iowrite32 v b) \<Rightarrow> if b = a then Some v else r | _ \<Rightarrow> r)"

definition last_w32 :: "kevent list \<Rightarrow> ptr \<Rightarrow> u32 option" where
  "last_w32 l a = fold (w32_event a) l None"

text \<open>The registers of the simulated device are memory: a read returns the last write.\<close>

definition mmio_readback :: "linux \<Rightarrow> bool" where
  "mmio_readback K \<longleftrightarrow> (\<forall>l a v. last_w32 l a = Some v \<longrightarrow> ucast (k_u64 K l (Io (Ioread32 a))) = v)"

lemma last_w32_append: "last_w32 (l @ es) a = fold (w32_event a) es (last_w32 l a)"
  by (simp add: last_w32_def)

lemma readback_simp:
  "mmio_readback K \<Longrightarrow> last_w32 l a \<noteq> None \<Longrightarrow> ucast (k_u64 K l (Io (Ioread32 a))) = the (last_w32 l a)"
  by (auto simp: mmio_readback_def)

lemma my_device_isr_run:
  "run_state (my_device_isr K irq p) s =
    (let st = reg_status (privs s p); v = k_u64 K (klog s) (Io (Ioread32 st)); w = ucast v :: u32
     in if w AND 2 \<noteq> 0
        then (IRQ_HANDLED, s\<lparr>klog := klog s @ [(Io (Ioread32 st), RU64 v),
          (Io (Iowrite32 (w AND NOT 2) st), RVoid), (Irqc (Tasklet_schedule p), RVoid)]\<rparr>)
        else (IRQ_NONE, s\<lparr>klog := klog s @ [(Io (Ioread32 st), RU64 v)]\<rparr>))"
  by (simp add: my_device_isr_def ioread32_def iowrite32_def Let_def)

lemma start_dma_effect:
  assumes rb: "mmio_readback K" and n: "dma_size K < 2 ^ 32" and d: "d = privs s priv"
    and virt: "buffer_virt d \<noteq> NULL"
  shows "\<exists>es. klog (exec (start_dma K priv) s) = klog s @ es \<and> schedules es priv = 1 \<and>
    last_w32 (klog s @ es) (reg_status d) = Some 4 \<and> last_w32 (klog s @ es) (reg_control d) = Some 6 \<and>
    dma_bufs (exec (start_dma K priv) s) = (dma_bufs s)(buffer_virt d :=
      replicate (dma_size K) 0xAA @ drop (dma_size K) (dma_bufs s (buffer_virt d)))"
proof -
  have len: "unat (of_nat (dma_size K) :: u32) = dma_size K"
    using n by (simp add: unsigned_of_nat take_bit_nat_eq_self)
  show ?thesis
    using virt
    by (simp add: start_dma_def my_device_simulate_dma_def my_device_isr_run ioread32_def iowrite32_def
      d [symmetric] readback_simp [OF rb] last_w32_append w32_event_def reg_status_def
      reg_control_def reg_dma_addr_def reg_dma_len_def memset_buf_def len Let_def)
qed

text \<open>
  A probe that returns 0 ends with \<open>start_dma\<close>, run on a state in which the private
  structure and the zeroed buffer are in place and the tasklet has not been scheduled.
\<close>

definition dma_ready :: "linux \<Rightarrow> dmad_state \<Rightarrow> ptr \<Rightarrow> dmad_state \<Rightarrow> bool" where
  "dma_ready K s priv s3 \<longleftrightarrow> buffer_virt (privs s3 priv) \<noteq> NULL \<and>
     dma_bufs s3 (buffer_virt (privs s3 priv)) = replicate (dma_size K) 0 \<and>
     (\<exists>es. klog s3 = klog s @ es \<and> schedules es priv = 0)"

lemma probe_irq_ok:
  assumes "run_state (probe_irq K pdev priv) s = (0, s')"
  obtains s3 i es where "s' = exec (start_dma K priv) s3" "klog s3 = klog s @ es" "schedules es priv = 0"
    "privs s3 priv = (privs s priv)\<lparr>priv_irq := i\<rparr>" "dma_bufs s3 = dma_bufs s"
proof -
  let ?c = "Pci (Pci_irq_vector pdev 0)"
  let ?i = "k_int K (klog s) ?c"
  define s1 where "s1 = s\<lparr>privs := (privs s)(priv := (privs s priv)\<lparr>priv_irq := ?i\<rparr>),
    klog := klog s @ [(?c, RInt ?i),
    (Irqc (Tasklet_init priv ''my_device_tasklet_handler'' priv), RVoid),
    (Irqc (Request_irq ?i ''my_device_isr'' True ''my_device'' priv), RInt 0)]\<rparr>"
  have "result (free_dma_buffer K pdev priv r) t = r" for r t
    by (simp add: free_dma_buffer_def iounmap_regs_def release_region_def disable_pci_def)
  then have nz: "run_state (free_dma_buffer K pdev priv r) t \<noteq> (0, s')" if "r \<noteq> 0" for r t
    using that by (metis fst_conv)
  have "s' = exec (start_dma K priv) s1"
    using assms nz by (auto simp: probe_irq_def set_priv_def s1_def split_beta split: if_splits)
  then show thesis using that [of s1] by (simp add: s1_def)
qed

lemma probe_map_ok:
  assumes "run_state (probe_map K pdev priv) s = (0, s')"
  obtains s3 where "s' = exec (start_dma K priv) s3" "dma_ready K s priv s3"
proof -
  obtain s5 es where run: "run_state (probe_irq K pdev priv) s5 = (0, s')"
    and l: "klog s5 = klog s @ es" "schedules es priv = 0" and nz: "buffer_virt (privs s5 priv) \<noteq> NULL"
    and b: "dma_bufs s5 (buffer_virt (privs s5 priv)) = replicate (dma_size K) 0"
    using assms
    by (auto simp: probe_map_def set_priv_def disable_pci_def release_region_def iounmap_regs_def
      split: if_splits)
  from run obtain s3 i es' where s3: "s' = exec (start_dma K priv) s3" "klog s3 = klog s5 @ es'"
    "schedules es' priv = 0" "privs s3 priv = (privs s5 priv)\<lparr>priv_irq := i\<rparr>" "dma_bufs s3 = dma_bufs s5"
    by (rule probe_irq_ok)
  with l nz b have "dma_ready K s priv s3" by (simp add: dma_ready_def)
  with s3(1) show thesis by (rule that)
qed

section \<open>Properties\<close>

text \<open>
  Whatever the kernel answers, \<open>my_device_probe\<close> either returns 0 and has acquired exactly
  the device, BAR 0, the register mapping, the coherent buffer and the interrupt recorded in the
  device's private structure, or returns an error and has given back everything, newest first.
\<close>

theorem dmad_probe_unwinds:
  assumes "run_state (my_device_probe K pdev) s = (r, s')" and "held_stack K s = Some st"
  shows "held_stack K s' = Some (if r = 0 then dmad_holds K pdev s' @ st else st)"
  using moves_stack [OF conjunct1 [OF my_device_probe_moves [OF assms(1)]] assms(2)] by simp

text \<open>
  Kernels for concrete runs: registers that read back, one \<open>devm\<close> block per device, and \<open>ints\<close>
  for the functions that return an \<open>int\<close>.
\<close>

definition readback_kernel :: "(kcall \<Rightarrow> int) \<Rightarrow> linux" where
  "readback_kernel ints = (sample_kernel ints)\<lparr>k_u64 := (\<lambda>l c. case c of
     Io (Ioread32 a) \<Rightarrow> (case last_w32 l a of Some v \<Rightarrow> ucast v | None \<Rightarrow> 0)
   | Memc (Devm_kzalloc p) \<Rightarrow> (if p + 0x1000 \<in> snd ` devm_live l then NULL else p + 0x1000)
   | _ \<Rightarrow> 0x8000)\<rparr>"

abbreviation vector_kernel :: "int \<Rightarrow> linux" where
  "vector_kernel n \<equiv> readback_kernel (\<lambda>c. case c of Pci (Pci_irq_vector p i) \<Rightarrow> n | _ \<Rightarrow> 0)"

lemma readback_kernel_simps [simp]:
  "k_int (readback_kernel ints) l c = ints c"
  "k_u64 (readback_kernel ints) l (Io (Ioread32 a)) = (case last_w32 l a of Some v \<Rightarrow> ucast v | None \<Rightarrow> 0)"
  "k_u64 (readback_kernel ints) l (Memc (Devm_kzalloc p)) = (if p + 0x1000 \<in> snd ` devm_live l then NULL else p + 0x1000)"
  "k_u64 (readback_kernel ints) l (Io (Ioremap x y)) = 0x8000"
  "k_u64 (readback_kernel ints) l (Io (Ioread64 a)) = 0x8000"
  "k_u64 (readback_kernel ints) l (Pci pc) = 0x8000"
  "k_u64 (readback_kernel ints) l (Memc (Dma_alloc_coherent p n)) = 0x8000"
  "k_out (readback_kernel ints) l c = 0x40000000"
  "PAGE_SIZE (readback_kernel ints) = 4096"
  by (simp_all add: readback_kernel_def)

lemma u32_through_u64: "ucast (ucast (v :: u32) :: u64) = v"
  by (rule bit_word_eqI) (simp add: bit_simps)

lemma readback_kernel_ok [simp]:
  "devm_fresh (readback_kernel ints)" "mmio_readback (readback_kernel ints)"
  by (auto simp: devm_fresh_def mmio_readback_def image_iff u32_through_u64)

abbreviation dmad_start :: dmad_state where
  "dmad_start \<equiv> \<lparr>klog = [], drvdata = (\<lambda>q. NULL), privs = (\<lambda>a. zero_priv), dma_bufs = (\<lambda>a. [])\<rparr>"

lemmas probe_evaluation = my_device_probe_def probe_map_def probe_irq_def set_priv_def zero_priv_def
  free_dma_buffer_def iounmap_regs_def release_region_def disable_pci_def devm_live_def devm_event_def

theorem dmad_probe_unwinds_witness:
  "result (my_device_probe (vector_kernel (- EINVAL)) 1) dmad_start = - EINVAL \<and>
   held_stack (vector_kernel (- EINVAL)) (exec (my_device_probe (vector_kernel (- EINVAL)) 1) dmad_start) =
     Some []"
proof -
  let ?K = "vector_kernel (- EINVAL)"
  have r: "result (my_device_probe ?K 1) dmad_start = - EINVAL" by (simp add: probe_evaluation)
  have "held_stack ?K dmad_start = Some []" by (simp add: lifo_def)
  from dmad_probe_unwinds [OF _ this, of 1 "- EINVAL" "exec (my_device_probe ?K 1) dmad_start"] r
  show ?thesis by (simp add: prod_eq_iff)
qed

text \<open>
  With any number of devices bound and unbound in any order, what the kernel holds is what
  it held at the start together with what the private structures of the devices now bound record.
  The kernel is assumed to keep \<open>devm\<close> blocks of bound devices apart and not to use interrupt 0.
\<close>

theorem dmad_hotplug_accounting:
  assumes "core_run (my_device_driver K) any_device (s, {}) (t, B)" and "held K s = Some M"
    and "devm_fresh K" and "irq_vectors_nonzero K"
  shows "held K t = Some (M + (\<Sum>q\<in>B. mset (dmad_holds K q t)))"
  using dmad.core_accounting [OF assms(1) _ assms(2)] assms(3,4) by (simp add: dmad_ok_def)

theorem dmad_hotplug_accounting_witness:
  "held (vector_kernel 5) (exec (my_device_remove (vector_kernel 5) 1)
     (exec (my_device_probe (vector_kernel 5) 1) dmad_start)) = Some {#}"
proof -
  let ?K = "vector_kernel 5"
  have "result (probe (my_device_driver ?K) 1) dmad_start = 0"
    by (simp add: my_device_driver_def probe_evaluation split_beta)
  from bind_unbind_run [where may = any_device, OF this]
  have run: "core_run (my_device_driver ?K) any_device (dmad_start, {})
      (exec (my_device_remove ?K 1) (exec (my_device_probe ?K 1) dmad_start), {})"
    by (simp add: my_device_driver_def any_device_def)
  have "irq_vectors_nonzero ?K" by (simp add: irq_vectors_nonzero_def)
  from dmad_hotplug_accounting [OF run _ _ this] show ?thesis by simp
qed

text \<open>
  The probe accepts interrupt number 0 (it only tests \<open>irq < 0\<close>), but the remove function
  frees the interrupt only when \<open>irq > 0\<close>: with interrupt 0 a bind and unbind leaves the handler
  registered, with the freed private structure as its argument, and gives everything else back.
\<close>

theorem dmad_irq_zero_leaks_handler:
  assumes "run_state (my_device_probe K pdev) s = (0, s')" and "held K s = Some M"
    and "priv_irq (dmad_priv pdev s') = 0"
  shows "held K (exec (my_device_remove K pdev) s') = Some (add_mset (Irq 0 (drvdata s' pdev)) M)"
proof -
  define priv where "priv = drvdata s' pdev"
  define d where "d = privs s' priv"
  have ok: "buffer_virt d \<noteq> 0" "regs_base d \<noteq> 0" "regs d \<noteq> 0" "priv_irq d = 0"
    using assms(3) my_device_probe_moves [OF assms(1)]
    by (auto simp: dmad_wf_def d_def priv_def dmad_priv_def)
  have "held K s' = Some (M + mset (dmad_holds K pdev s'))"
    using moves_held [OF conjunct1 [OF my_device_probe_moves [OF assms(1)]], of M] assms(2) by simp
  then have h: "held K s' = Some (add_mset (Irq 0 priv) M + mset (dmad_mapped K pdev d))"
    using ok by (simp add: dmad_holds_def dmad_owns_def dmad_priv_def d_def priv_def)
  have "moves K (dmad_mapped K pdev d) s' [] (exec (my_device_remove K pdev) s')"
    using ok by (simp add: my_device_remove_def moves_def dmad_mapped_def ioread32_def iowrite32_def
      priv_def [symmetric] d_def [symmetric])
  from moves_held [OF this h] show ?thesis by (simp add: priv_def)
qed

theorem dmad_irq_zero_leaks_handler_witness:
  "held (vector_kernel 0) (exec (my_device_remove (vector_kernel 0) 1)
     (exec (my_device_probe (vector_kernel 0) 1) dmad_start)) = Some {#Irq 0 0x1001#}"
proof -
  let ?K = "vector_kernel 0"
  let ?s = "exec (my_device_probe ?K 1) dmad_start"
  have run: "run_state (my_device_probe ?K 1) dmad_start = (0, ?s)"
    by (simp add: probe_evaluation split_beta)
  have same: "privs (exec (start_dma ?K a) x) = privs x" "drvdata (exec (start_dma ?K a) x) = drvdata x" for a x
    using quiet_start [of ?K ?K a] by (simp_all add: quiet_def)
  have p: "drvdata ?s 1 = 0x1001" "priv_irq (dmad_priv 1 ?s) = 0"
    by (simp_all add: probe_evaluation split_beta same dmad_priv_def)
  show ?thesis using dmad_irq_zero_leaks_handler [OF run _ p(2), of "{#}"] p(1) by simp
qed

text \<open>
  The interrupt handler claims an interrupt exactly when the status register it reads has
  the done bit set; it then writes the status back with only that bit cleared and schedules
  the tasklet of the same device, once. Otherwise it only reads the register. It never
  changes driver memory and acquires or releases nothing.
\<close>

theorem dmad_isr_behaviour:
  "run_state (my_device_isr K irq p) s =
    (let st = reg_status (privs s p); v = k_u64 K (klog s) (Io (Ioread32 st)); w = ucast v :: u32
     in if bit w 1
        then (IRQ_HANDLED, s\<lparr>klog := klog s @ [(Io (Ioread32 st), RU64 v),
          (Io (Iowrite32 (unset_bit 1 w) st), RVoid), (Irqc (Tasklet_schedule p), RVoid)]\<rparr>)
        else (IRQ_NONE, s\<lparr>klog := klog s @ [(Io (Ioread32 st), RU64 v)]\<rparr>)) \<and>
   held K (exec (my_device_isr K irq p) s) = held K s"
proof -
  have bit: "w AND 2 \<noteq> 0 \<longleftrightarrow> bit w 1" for w :: u32
    by (simp add: bit_iff_and_push_bit_not_eq_0)
  have clear: "w AND - 3 = unset_bit (Suc 0) w" for w :: u32
    by (simp add: unset_bit_eq_and_not)
  show ?thesis by (simp add: my_device_isr_run bit clear Let_def)
qed

text \<open>
  C9: when the registers keep what is written to them and the buffer size fits the 32-bit length
  register, a successful probe carries out the whole simulated transfer: the buffer
  holds the device's pattern in every byte, the status register is left with the
  done bit acknowledged, the control register with the start bit cleared, and the tasklet
  has been scheduled exactly once.
\<close>

theorem dmad_transfer_completes:
  assumes "mmio_readback K" and "dma_size K < 2 ^ 32"
    and run: "run_state (my_device_probe K pdev) s = (0, s')"
  shows "dma_bufs s' (buffer_virt (dmad_priv pdev s')) = replicate (dma_size K) 0xAA \<and>
    last_w32 (klog s') (reg_status (dmad_priv pdev s')) = Some MY_DEVICE_IRQ_ENABLE_BIT \<and>
    last_w32 (klog s') (reg_control (dmad_priv pdev s')) =
      Some (MY_DEVICE_DMA_DIR_BIT OR MY_DEVICE_IRQ_ENABLE_BIT) \<and>
    (\<exists>es. klog s' = klog s @ es \<and> schedules es (drvdata s' pdev) = 1)"
  using run
proof (cases rule: my_device_probe_cases)
  case early
  then show ?thesis by simp
next
  case (alloc priv s2 l)
  obtain s3 where s': "s' = exec (start_dma K priv) s3" and ready: "dma_ready K s2 priv s3"
    by (rule probe_map_ok [OF alloc(1)])
  have d: "drvdata s' pdev = priv" using probe_map_moves [OF alloc(1)] alloc(5) by simp
  have p: "privs s' = privs s3" using quiet_start [of K K priv] s' by (simp add: quiet_def)
  obtain es0 where l2: "klog s2 = klog s @ es0" "schedules es0 priv = 0"
    using alloc(10) by blast
  from ready start_dma_effect [OF assms(1,2) refl, of s3 priv] s' d p l2 show ?thesis
    by (auto simp: dma_ready_def dmad_priv_def)
qed

theorem dmad_transfer_completes_witness:
  "dma_bufs (exec (my_device_probe (vector_kernel 5) 1) dmad_start) 0x8000 = replicate 16384 0xAA"
proof -
  let ?K = "vector_kernel 5"
  let ?s = "exec (my_device_probe ?K 1) dmad_start"
  have run: "run_state (my_device_probe ?K 1) dmad_start = (0, ?s)"
    by (simp add: probe_evaluation split_beta)
  have same: "privs (exec (start_dma ?K a) x) = privs x" "drvdata (exec (start_dma ?K a) x) = drvdata x" for a x
    using quiet_start [of ?K ?K a] by (simp_all add: quiet_def)
  have n: "dma_size ?K = 16384" by (simp add: dma_size_def)
  have "buffer_virt (dmad_priv 1 ?s) = 0x8000"
    by (simp add: probe_evaluation split_beta same dmad_priv_def)
  with dmad_transfer_completes [OF _ _ run] show ?thesis unfolding n by simp
qed

text \<open>
  C21: after the module is loaded, with any number of devices bound and unbound in any order, what
  the kernel holds is what it held before loading, the registration of the driver, and what the
  private structures of the devices now bound record that they own; once no device is bound,
  unloading the module leaves exactly what was held before loading. The kernel is assumed to keep
  \<open>devm\<close> blocks of bound devices apart and to give out no interrupt 0: the statement does not cover
  devices with interrupt 0, which the probe accepts and whose handler the remove function
  leaves registered.
\<close>

theorem dmad_module_lifecycle:
  assumes "run_state (my_device_init K) s = (0, s1)" and "held K s = Some M"
    and "core_run (my_device_driver K) any_device (s1, {}) (t, B)"
    and "devm_fresh K" and "irq_vectors_nonzero K"
  shows "held K t = Some (add_mset (PciDriver (drv_name (my_device_driver K))) M + (\<Sum>q\<in>B. mset (dmad_holds K q t))) \<and>
    (B = {} \<longrightarrow> held K (exec (my_device_exit K) t) = Some M)"
  using dmad_mod.lifecycle [OF assms(1,2) _ assms(3)] assms(4,5) by (simp add: dmad_ok_def)

theorem dmad_module_lifecycle_witness:
  "held (vector_kernel 5) (exec (my_device_exit (vector_kernel 5)) (exec (remove (my_device_driver (vector_kernel 5)) 1) (exec (probe (my_device_driver (vector_kernel 5)) 1)
     (exec (my_device_init (vector_kernel 5)) dmad_start)))) = Some {#}"
proof -
  let ?s1 = "exec (my_device_init (vector_kernel 5)) dmad_start"
  have load: "run_state (my_device_init (vector_kernel 5)) dmad_start = (0, ?s1)" by (simp add: my_device_init_def)
  have "result (probe (my_device_driver (vector_kernel 5)) 1) ?s1 = 0"
    by (simp add: my_device_init_def my_device_driver_def probe_evaluation split_beta)
  from bind_unbind_run [where may = any_device, OF this]
  have run: "core_run (my_device_driver (vector_kernel 5)) any_device (?s1, {})
      (exec (remove (my_device_driver (vector_kernel 5)) 1) (exec (probe (my_device_driver (vector_kernel 5)) 1) ?s1), {})"
    by (simp add: any_device_def)
  from dmad_module_lifecycle [OF load _ run, of "{#}"] show ?thesis by (simp add: irq_vectors_nonzero_def)
qed

end
