(* ===== verification/Mmio.thy ===== *)
theory Mmio
  imports Kernel_API
begin

text \<open>
  Register accesses and interrupt handlers against the lifetime of register mappings.
  \<open>guarded\<close> replays a history on the stack ledger and checks a condition between any two calls:
  \<open>regs_live\<close> says that a register access hits a mapping that is held at that moment, and that
  whenever an interrupt handler is registered, and so may run, the registers it uses are mapped.
\<close>

fun access :: "kcall \<Rightarrow> ptr option" where
  "access (Io (Ioread32 a)) = Some a"
| "access (Io (Ioread64 a)) = Some a"
| "access (Io (Iowrite32 v a)) = Some a"
| "access (Io (Iowrite64 w a)) = Some a"
| "access (Io (Readl a)) = Some a"
| "access (Io (Writel v a)) = Some a"
| "access _ = None"

primrec guarded :: "linux \<Rightarrow> (res list \<Rightarrow> kcall \<Rightarrow> bool) \<Rightarrow> res list \<Rightarrow> kevent list \<Rightarrow> bool" where
  "guarded K P st [] \<longleftrightarrow> True"
| "guarded K P st (e # es) \<longleftrightarrow> P st (fst e) \<and>
     (case lifo_step (keff K e) (Some st) of None \<Rightarrow> False | Some st' \<Rightarrow> guarded K P st' es)"

text \<open>\<open>b\<close> is the base of the mapping, \<open>n\<close> the size of the register block, \<open>h\<close> the handler.\<close>

definition regs_live :: "ptr \<Rightarrow> u64 \<Rightarrow> res \<Rightarrow> res list \<Rightarrow> kcall \<Rightarrow> bool" where
  "regs_live b n h st c \<longleftrightarrow> (case access c of None \<Rightarrow> True | Some a \<Rightarrow> Mapping b \<in> set st \<and> a - b < n) \<and>
     (h \<in> set st \<longrightarrow> Mapping b \<in> set st)"

lemma guarded_append:
  "lifo_from (keff K) (Some st) es = Some st' \<Longrightarrow>
   guarded K P st (es @ fs) \<longleftrightarrow> guarded K P st es \<and> guarded K P st' fs"
proof (induction es arbitrary: st)
  case Nil
  then show ?case by simp
next
  case (Cons e es)
  then obtain st1 where "lifo_step (keff K e) (Some st) = Some st1"
    by (cases "lifo_step (keff K e) (Some st)") auto
  with Cons show ?case by simp
qed

text \<open>A history that acquires and releases nothing, with all its accesses to the registers.\<close>

definition regs_traffic :: "linux \<Rightarrow> ptr \<Rightarrow> u64 \<Rightarrow> kevent list \<Rightarrow> bool" where
  "regs_traffic K b n es \<longleftrightarrow>
     (\<forall>e\<in>set es. keff K e = Neutral \<and> (\<forall>a. access (fst e) = Some a \<longrightarrow> a - b < n))"

lemma regs_traffic_guarded:
  "regs_traffic K b n es \<Longrightarrow> Mapping b \<in> set st \<Longrightarrow>
   guarded K (regs_live b n h) st es \<and> lifo_from (keff K) (Some st) es = Some st"
  by (induction es) (auto simp: regs_traffic_def regs_live_def split: option.split)

end
