(* ===== verification/Dma_Mmio.thy ===== *)
theory Dma_Mmio
  imports Dma_Device Mmio
begin

text \<open>
  The order of set-up and tear-down in \<open>dma_kernel_with_peripheral/driver.c\<close>: from the first call of
  a successful probe to the last call of the remove function, every register access hits the live
  mapping, and at no moment is the interrupt handler registered without it.
\<close>

section \<open>The register block\<close>

text \<open>
  The layout the C compiler gives a structure of scalar fields: each field at the next multiple of
  its own size, the structure padded to a multiple of its largest field.
\<close>

definition align_up :: "nat \<Rightarrow> nat \<Rightarrow> nat" where
  "align_up a n = (n + a - 1) div a * a"

primrec field_offset :: "nat \<Rightarrow> string \<Rightarrow> (string \<times> nat) list \<Rightarrow> nat option" where
  "field_offset pos x [] = None"
| "field_offset pos x (f # fs) = (let at = align_up (snd f) pos in
     if fst f = x then Some at else field_offset (at + snd f) x fs)"

definition struct_size :: "(string \<times> nat) list \<Rightarrow> nat" where
  "struct_size fs = align_up (Max (snd ` set fs)) (fold (\<lambda>f pos. align_up (snd f) pos + snd f) fs 0)"

definition my_device_regs :: "(string \<times> nat) list" where
  "my_device_regs = [(''control'', 4), (''status'', 4), (''dma_addr'', 8), (''dma_len'', 4), (''reserved'', 4)]"

abbreviation (input) regs_size :: u64 where "regs_size \<equiv> 24"

lemma regs_size_eq: "of_nat (struct_size my_device_regs) = regs_size"
  by (simp add: struct_size_def my_device_regs_def align_up_def)

text \<open>The addresses of \<open>Dma_Device\<close> are those of the structure's fields.\<close>

lemma reg_layout:
  "map_option (\<lambda>n. regs d + of_nat n) (field_offset 0 ''control'' my_device_regs) = Some (reg_control d)"
  "map_option (\<lambda>n. regs d + of_nat n) (field_offset 0 ''status'' my_device_regs) = Some (reg_status d)"
  "map_option (\<lambda>n. regs d + of_nat n) (field_offset 0 ''dma_addr'' my_device_regs) = Some (reg_dma_addr d)"
  "map_option (\<lambda>n. regs d + of_nat n) (field_offset 0 ''dma_len'' my_device_regs) = Some (reg_dma_len d)"
  by (simp_all add: my_device_regs_def align_up_def Let_def reg_control_def reg_status_def
    reg_dma_addr_def reg_dma_len_def)

section \<open>Programs that only use the registers\<close>

definition uses_regs :: "linux \<Rightarrow> ptr \<Rightarrow> my_device_priv \<Rightarrow> (dmad_state, 'a) state \<Rightarrow> bool" where
  "uses_regs K p d m \<longleftrightarrow> (\<forall>s. privs s p = d \<longrightarrow> privs (exec m s) p = d \<and>
     (\<exists>es. klog (exec m s) = klog s @ es \<and> regs_traffic K (regs d) regs_size es))"

lemma uses_regs_bind:
  assumes "uses_regs K p d m" and "\<And>x. uses_regs K p d (f x)"
  shows "uses_regs K p d (State_Monad.bind m f)"
  unfolding uses_regs_def
proof (intro allI impI)
  fix s :: dmad_state assume "privs s p = d"
  with assms(1) obtain es where m: "privs (exec m s) p = d" "klog (exec m s) = klog s @ es"
    "regs_traffic K (regs d) regs_size es" by (auto simp: uses_regs_def)
  with assms(2) [of "result m s"] obtain es' where
    "privs (exec (f (result m s)) (exec m s)) p = d"
    "klog (exec (f (result m s)) (exec m s)) = klog (exec m s) @ es'"
    "regs_traffic K (regs d) regs_size es'" by (auto simp: uses_regs_def)
  with m show "privs (exec (State_Monad.bind m f) s) p = d \<and> (\<exists>es.
      klog (exec (State_Monad.bind m f) s) = klog s @ es \<and> regs_traffic K (regs d) regs_size es)"
    by (auto simp: split_beta regs_traffic_def)
qed

lemma uses_regs_priv:
  "uses_regs K p d (f d) \<Longrightarrow> uses_regs K p d (State_Monad.bind (gets (\<lambda>s. privs s p)) f)"
  by (simp add: uses_regs_def)

lemma reg_offsets:
  "reg_control d - regs d < regs_size" "reg_status d - regs d < regs_size"
  "reg_dma_addr d - regs d < regs_size" "reg_dma_len d - regs d < regs_size"
  by (simp_all add: reg_control_def reg_status_def reg_dma_addr_def reg_dma_len_def)

lemma uses_regs_basics:
  "a - regs d < regs_size \<Longrightarrow> uses_regs K p d (ioread32 K' a)"
  "a - regs d < regs_size \<Longrightarrow> uses_regs K p d (iowrite32 v a)"
  "a - regs d < regs_size \<Longrightarrow> uses_regs K p d (call_u64 K' (Io (Ioread64 a)))"
  "a - regs d < regs_size \<Longrightarrow> uses_regs K p d (call_void (Io (Iowrite64 w a)))"
  "uses_regs K p d (ret x)" "uses_regs K p d (call_void (Irqc (Tasklet_schedule t)))"
  "uses_regs K p d (memset_buf b c n)"
  by (auto simp: uses_regs_def ioread32_def iowrite32_def memset_buf_def regs_traffic_def)

lemma uses_regs_isr: "uses_regs K p d (my_device_isr K' irq p)"
  unfolding my_device_isr_def
  by (rule uses_regs_priv) (auto intro!: uses_regs_bind uses_regs_basics reg_offsets)

lemma uses_regs_simulate: "uses_regs K p d (my_device_simulate_dma K' p)"
  unfolding my_device_simulate_dma_def
  by (rule uses_regs_priv) (auto intro!: uses_regs_bind uses_regs_basics reg_offsets uses_regs_isr)

lemma uses_regs_start: "uses_regs K p d (start_dma K' p)"
  unfolding start_dma_def
  by (rule uses_regs_priv) (auto intro!: uses_regs_bind uses_regs_basics reg_offsets uses_regs_simulate)

section \<open>The calls of a successful probe\<close>

lemma probe_irq_log:
  assumes "run_state (probe_irq K pdev priv) s = (0, s')"
  shows "\<exists>s3 i. s' = exec (start_dma K priv) s3 \<and> klog s3 = klog s @
      [(Pci (Pci_irq_vector pdev 0), RInt i), (Irqc (Tasklet_init priv ''my_device_tasklet_handler'' priv), RVoid),
       (Irqc (Request_irq i ''my_device_isr'' True ''my_device'' priv), RInt 0)] \<and>
    privs s3 priv = (privs s priv)\<lparr>priv_irq := i\<rparr> \<and> drvdata s3 = drvdata s"
proof -
  have "result (free_dma_buffer K pdev priv r) t = r" for r t
    by (simp add: free_dma_buffer_def iounmap_regs_def release_region_def disable_pci_def)
  then have "run_state (free_dma_buffer K pdev priv r) t \<noteq> (0, s')" if "r \<noteq> 0" for r t
    using that by (metis fst_conv)
  with assms show ?thesis by (auto simp: probe_irq_def set_priv_def split_beta split: if_splits)
qed

lemma probe_map_log:
  assumes "run_state (probe_map K pdev priv) s = (0, s')"
  shows "\<exists>s5 a n base virt phys. run_state (probe_irq K pdev priv) s5 = (0, s') \<and> klog s5 = klog s @
      [(Pci (Pci_request_region pdev 0 ''my_device_mmio''), RInt 0), (Pci (Pci_resource_start pdev 0), RU64 a),
       (Pci (Pci_resource_len pdev 0), RU64 n), (Io (Ioremap a n), RU64 base),
       (Memc (Dma_alloc_coherent pdev (of_nat (dma_size K))), RU64Out virt phys)] \<and> base \<noteq> NULL \<and> virt \<noteq> NULL \<and>
    privs s5 priv = (privs s priv)\<lparr>regs_base := base, regs := base, buffer_virt := virt, buffer_phys := phys\<rparr> \<and>
    drvdata s5 = drvdata s"
  using assms
  by (auto simp: probe_map_def set_priv_def disable_pci_def release_region_def iounmap_regs_def split: if_splits)

lemma probe_log:
  assumes "run_state (my_device_probe K pdev) s = (0, s')"
  shows "\<exists>s2 priv. run_state (probe_map K pdev priv) s2 = (0, s') \<and> klog s2 = klog s @
      [(Pci (Pci_enable_device pdev), RInt 0), (Memc (Devm_kzalloc pdev), RU64 priv)] \<and> drvdata s2 = (drvdata s)(pdev := priv)"
  using assms
  by (auto simp: my_device_probe_def set_priv_def disable_pci_def split: if_splits)
    (intro exI conjI, assumption, simp_all)

text \<open>All of it: the calls up to the interrupt request, then register traffic.\<close>

definition probe_calls :: "linux \<Rightarrow> ptr \<Rightarrow> ptr \<Rightarrow> my_device_priv \<Rightarrow> u64 \<Rightarrow> u64 \<Rightarrow> kevent list" where
  "probe_calls K pdev priv d a n =
     [(Pci (Pci_enable_device pdev), RInt 0), (Memc (Devm_kzalloc pdev), RU64 priv),
      (Pci (Pci_request_region pdev 0 ''my_device_mmio''), RInt 0), (Pci (Pci_resource_start pdev 0), RU64 a),
      (Pci (Pci_resource_len pdev 0), RU64 n), (Io (Ioremap a n), RU64 (regs_base d)),
      (Memc (Dma_alloc_coherent pdev (of_nat (dma_size K))), RU64Out (buffer_virt d) (buffer_phys d)),
      (Pci (Pci_irq_vector pdev 0), RInt (priv_irq d)),
      (Irqc (Tasklet_init priv ''my_device_tasklet_handler'' priv), RVoid),
      (Irqc (Request_irq (priv_irq d) ''my_device_isr'' True ''my_device'' priv), RInt 0)]"

lemma probe_success_log:
  assumes "run_state (my_device_probe K pdev) s = (0, s')" and d: "d = dmad_priv pdev s'"
  obtains a n io where "klog s' = klog s @ probe_calls K pdev (drvdata s' pdev) d a n @ io"
    "regs_traffic K (regs_base d) regs_size io" "dmad_wf d"
proof -
  obtain s2 priv where p2: "run_state (probe_map K pdev priv) s2 = (0, s')" "klog s2 = klog s @
      [(Pci (Pci_enable_device pdev), RInt 0), (Memc (Devm_kzalloc pdev), RU64 priv)]" "drvdata s2 pdev = priv"
    using probe_log [OF assms(1)] by auto
  obtain s5 a n base virt phys where p5: "run_state (probe_irq K pdev priv) s5 = (0, s')" "klog s5 = klog s2 @
      [(Pci (Pci_request_region pdev 0 ''my_device_mmio''), RInt 0), (Pci (Pci_resource_start pdev 0), RU64 a),
       (Pci (Pci_resource_len pdev 0), RU64 n), (Io (Ioremap a n), RU64 base),
       (Memc (Dma_alloc_coherent pdev (of_nat (dma_size K))), RU64Out virt phys)]" "base \<noteq> NULL" "virt \<noteq> NULL"
      "privs s5 priv = (privs s2 priv)\<lparr>regs_base := base, regs := base, buffer_virt := virt, buffer_phys := phys\<rparr>"
      "drvdata s5 = drvdata s2"
    using probe_map_log [OF p2(1)] by blast
  obtain s3 i where p3: "s' = exec (start_dma K priv) s3" "klog s3 = klog s5 @
      [(Pci (Pci_irq_vector pdev 0), RInt i), (Irqc (Tasklet_init priv ''my_device_tasklet_handler'' priv), RVoid),
       (Irqc (Request_irq i ''my_device_isr'' True ''my_device'' priv), RInt 0)]"
      "privs s3 priv = (privs s5 priv)\<lparr>priv_irq := i\<rparr>" "drvdata s3 = drvdata s5"
    using probe_irq_log [OF p5(1)] by blast
  obtain io where io: "privs s' priv = privs s3 priv" "klog s' = klog s3 @ io"
      "regs_traffic K (regs (privs s3 priv)) regs_size io"
    using uses_regs_start [of K priv "privs s3 priv" K] unfolding uses_regs_def p3(1) by blast
  have priv: "drvdata s' pdev = priv"
    using quiet_start [of K K priv] p2(3) p3(1,4) p5(6) by (simp add: quiet_def)
  have "d = (privs s2 priv)\<lparr>regs_base := base, regs := base, buffer_virt := virt, buffer_phys := phys, priv_irq := i\<rparr>"
    using d priv io(1) p3(3) p5(5) by (simp add: dmad_priv_def)
  then show thesis
    using that [of a n io] io p2(2) p3(2,3) p5(2-5) priv by (simp add: probe_calls_def dmad_wf_def)
qed

definition remove_calls :: "linux \<Rightarrow> ptr \<Rightarrow> ptr \<Rightarrow> my_device_priv \<Rightarrow> u64 \<Rightarrow> kevent list" where
  "remove_calls K pdev priv d c =
     [(Io (Ioread32 (reg_control d)), RU64 c), (Io (Iowrite32 (ucast c AND NOT 4) (reg_control d)), RVoid),
      (Irqc (Free_irq (priv_irq d) priv), RVoid), (Irqc (Tasklet_kill priv), RVoid),
      (Memc (Dma_free_coherent pdev (of_nat (dma_size K)) (buffer_virt d) (buffer_phys d)), RVoid),
      (Io (Iounmap (regs_base d)), RVoid), (Pci (Pci_release_region pdev 0), RVoid),
      (Pci (Pci_disable_device pdev), RVoid)]"

lemma remove_log:
  assumes "d = dmad_priv pdev s" and "dmad_wf d" and "0 < priv_irq d"
  obtains c where "klog (exec (my_device_remove K pdev) s) = klog s @ remove_calls K pdev (drvdata s pdev) d c"
  using assms(2,3) that
  by (simp add: my_device_remove_def ioread32_def iowrite32_def remove_calls_def dmad_wf_def
    assms(1) dmad_priv_def)

section \<open>Properties\<close>

text \<open>
  C23: for a device whose interrupt number is positive (with interrupt 0, which the probe accepts too, the
  remove function unmaps the registers and leaves the handler registered): from the first call of a
  successful probe to the last call of the remove function, every access
  to a device register lies inside \<open>struct my_device_regs\<close> at the mapped base address, while that mapping is
  held; and at every moment at which the interrupt handler is registered, so that it may run, the
  registers it reads and writes are mapped.
\<close>

theorem dmad_registers_mapped:
  assumes "run_state (my_device_probe K pdev) s = (0, s')" and "0 < priv_irq (dmad_priv pdev s')"
    and d: "d = dmad_priv pdev s'"
  shows "\<exists>es. klog (exec (my_device_remove K pdev) s') = klog s @ es \<and>
    guarded K (regs_live (regs_base d) (of_nat (struct_size my_device_regs)) (Irq (priv_irq d) (drvdata s' pdev))) [] es"
proof -
  let ?p = "drvdata s' pdev"
  obtain a n io where up: "klog s' = klog s @ probe_calls K pdev ?p d a n @ io"
    and io: "regs_traffic K (regs_base d) regs_size io" and wf: "dmad_wf d"
    by (rule probe_success_log [OF assms(1) d])
  obtain c where down: "klog (exec (my_device_remove K pdev) s') = klog s' @ remove_calls K pdev ?p d c"
    by (rule remove_log [OF d wf assms(2) [folded d], of K])
  let ?st = "dmad_owns K pdev ?p d"
  have "Mapping (regs_base d) \<in> set ?st" by (simp add: dmad_owns_def dmad_mapped_def)
  note live = regs_traffic_guarded [OF io this, of "Irq (priv_irq d) ?p"]
  have pre: "guarded K (regs_live (regs_base d) regs_size (Irq (priv_irq d) ?p)) [] (probe_calls K pdev ?p d a n)"
    "lifo_from (keff K) (Some []) (probe_calls K pdev ?p d a n) = Some ?st"
    using wf by (simp_all add: probe_calls_def regs_live_def dmad_wf_def dmad_owns_def dmad_mapped_def)
  have "guarded K (regs_live (regs_base d) regs_size (Irq (priv_irq d) ?p)) ?st (remove_calls K pdev ?p d c)"
    using wf by (simp add: remove_calls_def regs_live_def dmad_wf_def dmad_owns_def dmad_mapped_def reg_control_def)
  with pre live show ?thesis unfolding down up regs_size_eq by (simp add: guarded_append)
qed

theorem dmad_registers_mapped_witness:
  "\<exists>es. klog (exec (my_device_remove (vector_kernel 5) 1) (exec (my_device_probe (vector_kernel 5) 1) dmad_start)) = es \<and>
     guarded (vector_kernel 5) (regs_live 0x8000 24 (Irq 5 0x1001)) [] es"
proof -
  let ?K = "vector_kernel 5"
  let ?s = "exec (my_device_probe ?K 1) dmad_start"
  have run: "run_state (my_device_probe ?K 1) dmad_start = (0, ?s)"
    by (simp add: probe_evaluation split_beta)
  have same: "privs (exec (start_dma ?K a) x) = privs x" "drvdata (exec (start_dma ?K a) x) = drvdata x" for a x
    using quiet_start [of ?K ?K a] by (simp_all add: quiet_def)
  have p: "drvdata ?s 1 = 0x1001" "priv_irq (dmad_priv 1 ?s) = 5" "regs_base (dmad_priv 1 ?s) = 0x8000"
    by (simp_all add: probe_evaluation split_beta same dmad_priv_def)
  from dmad_registers_mapped [OF run _ refl] p show ?thesis by (simp add: regs_size_eq)
qed

end
