(* ===== verification/Uio.thy ===== *)
theory Uio
  imports Pci_Contract
begin

text \<open>
  The UIO driver \<open>uio/simple_uio_driver.c\<close>: BAR mapping, MSI-X with fall-back to the legacy
  interrupt, registration with the UIO core, and interrupt control from user space. Its data
  lives in the file-scope variables \<open>dummy_uio_info\<close>, \<open>mmio_base\<close> and \<open>dummy_irq\<close>.

  Shown: probe against the ledger on every exit, the PCI contract for one device at a
  time, the MSI-X mode before and after, which interrupt user space controls, and that
  the registration asks for an interrupt the driver itself already holds exclusively.
\<close>

section \<open>State and operations\<close>

datatype uio_memtype = UIO_MEM_NONE | UIO_MEM_PHYS

record uio_info =
  uio_name :: string
  uio_version :: string
  mem0_addr :: u64
  mem0_size :: u64
  mem0_memtype :: uio_memtype
  uio_irq :: int
  uio_irq_flags :: nat
  uio_irqcontrol :: string

record uio_state = "kcall kstate" +
  dummy_uio_info :: uio_info
  mmio_base :: ptr
  dummy_irq :: int
  drvdata :: "ptr \<Rightarrow> ptr"

definition dummy_irqcontrol :: "ptr \<Rightarrow> 32 word \<Rightarrow> (uio_state, int) state" where
  "dummy_irqcontrol info irq_on = do {
     irq \<leftarrow> gets dummy_irq;
     (if irq_on \<noteq> 0 then call_void (Irqc (Enable_irq irq)) else call_void (Irqc (Disable_irq irq)));
     ret 0
   }"

definition dummy_handler :: "int \<Rightarrow> ptr \<Rightarrow> (uio_state, irqreturn_t) state" where
  "dummy_handler irq dev_id = ret IRQ_HANDLED"

text \<open>
  \<open>A\<close> is the address of \<open>dummy_uio_info\<close>. The clean-up labels of \<open>dummy_probe\<close>:
\<close>

definition err_disable_device :: "ptr \<Rightarrow> int \<Rightarrow> (uio_state, int) state" where
  "err_disable_device pdev r = do {
     call_void (Pci (Pci_disable_device pdev));
     ret r
   }"

definition err_release_regions :: "ptr \<Rightarrow> int \<Rightarrow> (uio_state, int) state" where
  "err_release_regions pdev r = do {
     call_void (Pci (Pci_release_regions pdev));
     err_disable_device pdev r
   }"

definition err_iounmap :: "ptr \<Rightarrow> int \<Rightarrow> (uio_state, int) state" where
  "err_iounmap pdev r = do {
     base \<leftarrow> gets mmio_base;
     call_void (Io (Iounmap base));
     err_release_regions pdev r
   }"

definition err_free_irq :: "ptr \<Rightarrow> ptr \<Rightarrow> int \<Rightarrow> (uio_state, int) state" where
  "err_free_irq A pdev r = do {
     irq \<leftarrow> gets dummy_irq;
     call_void (Irqc (Free_irq irq A));
     err_iounmap pdev r
   }"

text \<open>The interrupt to use, and the registration.\<close>

definition choose_irq :: "linux \<Rightarrow> ptr \<Rightarrow> (uio_state, unit) state" where
  "choose_irq K pdev = do {
     r \<leftarrow> call_int K (Pci (Pci_enable_msix_exact pdev));
     (if r \<noteq> 0 then modify (\<lambda>s. s\<lparr>dummy_irq := pdev_irq K pdev\<rparr>)
      else modify (\<lambda>s. s\<lparr>dummy_irq := msix_vector K pdev\<rparr>))
   }"

definition register_uio :: "linux \<Rightarrow> ptr \<Rightarrow> ptr \<Rightarrow> u64 \<Rightarrow> u64 \<Rightarrow> (uio_state, int) state" where
  "register_uio K A pdev mmio_start mmio_len = do {
     irq \<leftarrow> gets dummy_irq;
     r \<leftarrow> call_int K (Irqc (Request_irq irq ''dummy_handler'' False ''dummy_uio_full'' A));
     if r \<noteq> 0 then err_iounmap pdev r
     else do {
       modify (\<lambda>s. s\<lparr>dummy_uio_info := \<lparr>uio_name = ''dummy_uio_full'', uio_version = ''1.0'',
         mem0_addr = mmio_start, mem0_size = mmio_len, mem0_memtype = UIO_MEM_PHYS,
         uio_irq = dummy_irq s, uio_irq_flags = 0, uio_irqcontrol = ''dummy_irqcontrol''\<rparr>\<rparr>);
       info \<leftarrow> gets dummy_uio_info;
       r \<leftarrow> call_int K (Chr (Uio_register_device A (uio_irq info)));
       if r \<noteq> 0 then err_free_irq A pdev r
       else do {
         modify (\<lambda>s. s\<lparr>drvdata := (drvdata s)(pdev := A)\<rparr>);
         ret 0
       }
     }
   }"

definition dummy_probe :: "linux \<Rightarrow> ptr \<Rightarrow> ptr \<Rightarrow> (uio_state, int) state" where
  "dummy_probe K A pdev = do {
     r \<leftarrow> call_int K (Pci (Pci_enable_device pdev));
     if r \<noteq> 0 then ret r
     else do {
       r \<leftarrow> call_int K (Pci (Pci_request_regions pdev ''dummy_uio_full''));
       if r \<noteq> 0 then err_disable_device pdev r
       else do {
         mmio_start \<leftarrow> call_u64 K (Pci (Pci_resource_start pdev 0));
         mmio_len \<leftarrow> call_u64 K (Pci (Pci_resource_len pdev 0));
         base \<leftarrow> call_u64 K (Io (Pci_ioremap_bar pdev 0));
         modify (\<lambda>s. s\<lparr>mmio_base := base\<rparr>);
         if base = NULL then err_release_regions pdev (- ENOMEM)
         else do {
           choose_irq K pdev;
           register_uio K A pdev mmio_start mmio_len
         }
       }
     }
   }"

definition dummy_remove :: "ptr \<Rightarrow> (uio_state, unit) state" where
  "dummy_remove pdev = do {
     info \<leftarrow> gets (\<lambda>s. drvdata s pdev);
     call_void (Chr (Uio_unregister_device info));
     irq \<leftarrow> gets dummy_irq;
     call_void (Irqc (Free_irq irq info));
     base \<leftarrow> gets mmio_base;
     call_void (Io (Iounmap base));
     call_void (Pci (Pci_release_regions pdev));
     call_void (Pci (Pci_disable_device pdev));
     call_void (Pci (Pci_disable_msix pdev))
   }"

definition dummy_ids :: "(u16 \<times> u16) list" where
  "dummy_ids = [(0x1234, 0x11E8)]"

definition dummy_uio_driver :: "linux \<Rightarrow> ptr \<Rightarrow> uio_state pci_driver" where
  "dummy_uio_driver K A = \<lparr>drv_name = ''dummy_uio_full'', id_table = dummy_ids,
     probe = dummy_probe K A, remove = dummy_remove\<rparr>"

text \<open>The init and exit functions that \<open>module_pci_driver(dummy_uio_driver)\<close> stands for.\<close>

definition dummy_uio_init :: "linux \<Rightarrow> ptr \<Rightarrow> (uio_state, int) state" where
  "dummy_uio_init K A = call_int K (Pci (Pci_register_driver (drv_name (dummy_uio_driver K A))))"

definition dummy_uio_exit :: "linux \<Rightarrow> ptr \<Rightarrow> (uio_state, unit) state" where
  "dummy_uio_exit K A = call_void (Pci (Pci_unregister_driver (drv_name (dummy_uio_driver K A))))"

section \<open>What a bound device owns\<close>

definition uio_mapped :: "ptr \<Rightarrow> uio_state \<Rightarrow> res list" where
  "uio_mapped pdev s = [Mapping (mmio_base s), AllRegions pdev, PciDev pdev]"

definition uio_owns :: "ptr \<Rightarrow> ptr \<Rightarrow> uio_state \<Rightarrow> res list" where
  "uio_owns A pdev s = Uio A # Irq (dummy_irq s) A # uio_mapped pdev s"

lemma register_uio_moves:
  "run_state (register_uio K A pdev a n) s = (r, s') \<Longrightarrow>
   moves K (uio_mapped pdev s) s (if r = 0 then uio_owns A pdev s' else []) s' \<and>
   (r = 0 \<longrightarrow> drvdata s' pdev = A)"
  by (auto simp: register_uio_def err_free_irq_def err_iounmap_def err_release_regions_def
    err_disable_device_def uio_mapped_def uio_owns_def moves_def split: if_splits)

lemma choose_irq_run:
  "run_state (choose_irq K pdev) s =
     (let r = k_int K (klog s) (Pci (Pci_enable_msix_exact pdev)) in
      ((), s\<lparr>klog := klog s @ [(Pci (Pci_enable_msix_exact pdev), RInt r)],
             dummy_irq := if r = 0 then msix_vector K pdev else pdev_irq K pdev\<rparr>))"
  by (simp add: choose_irq_def Let_def)

text \<open>
  A probe either fails before it touches the interrupt, with everything given back, or reaches
  \<open>register_uio\<close> with the BAR mapped and the interrupt chosen.
\<close>

definition msix_free :: "kevent list \<Rightarrow> bool" where
  "msix_free es \<longleftrightarrow>
     (\<forall>e\<in>set es. \<forall>p. fst e \<noteq> Pci (Pci_enable_msix_exact p) \<and> fst e \<noteq> Pci (Pci_disable_msix p))"

lemma msix_free_fold: "msix_free es \<Longrightarrow> fold (msix_event p) es x = x"
  by (induction es arbitrary: x)
    (auto simp: msix_free_def msix_event_def split: kcall.splits pci_call.splits)

lemma dummy_probe_cases:
  assumes "run_state (dummy_probe K A pdev) s = (r, s')"
  obtains (early) es where "r \<noteq> 0" "moves K [] s [] s'" "klog s' = klog s @ es"
      "msix_free es"
  | (late) s1 es a n where "klog s1 = klog s @ es"
      "msix_free es"
      "moves K [] s (uio_mapped pdev s1) s1"
      "run_state (register_uio K A pdev a n) (exec (choose_irq K pdev) s1) = (r, s')"
proof -
  let ?c1 = "Pci (Pci_enable_device pdev)"
  define l1 where "l1 = klog s @ [(?c1, RInt (k_int K (klog s) ?c1))]"
  let ?c2 = "Pci (Pci_request_regions pdev ''dummy_uio_full'')"
  define l2 where "l2 = l1 @ [(?c2, RInt (k_int K l1 ?c2))]"
  let ?c3 = "Pci (Pci_resource_start pdev 0)"
  define l3 where "l3 = l2 @ [(?c3, RU64 (k_u64 K l2 ?c3))]"
  let ?c4 = "Pci (Pci_resource_len pdev 0)"
  define l4 where "l4 = l3 @ [(?c4, RU64 (k_u64 K l3 ?c4))]"
  let ?c5 = "Io (Pci_ioremap_bar pdev 0)"
  define l5 where "l5 = l4 @ [(?c5, RU64 (k_u64 K l4 ?c5))]"
  define s1 where "s1 = s\<lparr>klog := l5, mmio_base := k_u64 K l4 ?c5\<rparr>"
  note ls = l5_def l4_def l3_def l2_def l1_def
  show thesis
  proof (cases "k_int K (klog s) ?c1 = 0 \<and> k_int K l1 ?c2 = 0 \<and> k_u64 K l4 ?c5 \<noteq> NULL")
    case False
    with assms have "r \<noteq> 0 \<and> (\<exists>es. klog s' = klog s @ es \<and> lifo_from (keff K) (Some []) es = Some [] \<and>
        msix_free es)"
      by (auto simp: msix_free_def dummy_probe_def err_disable_device_def err_release_regions_def ls split: if_splits)
    then show thesis using early by (auto simp: moves_def)
  next
    case True
    then have T: "k_int K (klog s) ?c1 = 0" "k_int K l1 ?c2 = 0" "k_u64 K l4 ?c5 \<noteq> 0" by auto
    note T2 = T(2) [simplified l1_def T(1)]
    note T3 = T(3) [simplified ls append_assoc append.simps T(1) T2]
    have "run_state (dummy_probe K A pdev) s =
        run_state (register_uio K A pdev (k_u64 K l2 ?c3) (k_u64 K l3 ?c4)) (exec (choose_irq K pdev) s1)"
      by (simp add: dummy_probe_def s1_def ls T(1) T2 T3 split_beta)
    moreover have "moves K [] s (uio_mapped pdev s1) s1"
      by (simp add: moves_def uio_mapped_def s1_def ls T(1) T2 T3)
    ultimately show thesis
      using late [of s1 "drop (length (klog s)) l5"] assms by (simp add: s1_def ls msix_free_def)
  qed
qed

lemma choose_irq_moves:
  "moves K st s st (exec (choose_irq K pdev) s) \<and> uio_mapped pdev (exec (choose_irq K pdev) s) = uio_mapped pdev s"
  by (simp add: choose_irq_run moves_def uio_mapped_def Let_def)

lemma dummy_probe_moves:
  assumes "run_state (dummy_probe K A pdev) s = (r, s')"
  shows "moves K [] s (if r = 0 then uio_owns A pdev s' else []) s' \<and> (r = 0 \<longrightarrow> drvdata s' pdev = A)"
  using assms
proof (cases rule: dummy_probe_cases)
  case (early es)
  then show ?thesis by simp
next
  case (late s1 es a n)
  let ?s2 = "exec (choose_irq K pdev) s1"
  have "moves K [] s (uio_mapped pdev ?s2) ?s2"
    using moves_trans [OF late(3)] choose_irq_moves [of K _ s1 pdev] by metis
  from moves_trans [OF this] register_uio_moves [OF late(4)] show ?thesis by blast
qed

lemma dummy_remove_moves:
  "drvdata s pdev = A \<Longrightarrow> moves K (uio_owns A pdev s) s [] (exec (dummy_remove pdev) s)"
  by (simp add: dummy_remove_def uio_owns_def uio_mapped_def moves_def)

definition uio_bound :: "ptr \<Rightarrow> ptr set \<Rightarrow> uio_state \<Rightarrow> bool" where
  "uio_bound A B s \<longleftrightarrow> B = {} \<or> (\<exists>p. B = {p} \<and> drvdata s p = A)"

interpretation uio: pci_driver_contract
  "dummy_uio_driver K A" single_device "held K" "uio_bound A" "\<lambda>p s. mset (uio_owns A p s)"
  for K A
proof (unfold_locales, goal_cases)
  case (1 B s p r s' M)
  then show ?case
    using moves_held [OF conjunct1 [OF dummy_probe_moves [of K A p s r s']], of M]
    by (simp add: dummy_uio_driver_def single_device_def uio_bound_def)
next
  case (2 B s p s' M)
  then show ?case
    using dummy_probe_moves [of K A p s 0 s']
      moves_held [OF conjunct1 [OF dummy_probe_moves [of K A p s 0 s']], of M]
    by (simp add: dummy_uio_driver_def single_device_def uio_bound_def)
next
  case (3 B s p s' M)
  then have "B = {p}" "drvdata s p = A" "s' = exec (dummy_remove p) s"
    by (auto simp: dummy_uio_driver_def uio_bound_def)
  with 3 moves_held [OF dummy_remove_moves [of s p A K], of M] show ?case by (simp add: uio_bound_def)
qed

interpretation uio_mod: pci_module
  "dummy_uio_driver K A" single_device "held K" "uio_bound A" "\<lambda>p s. mset (uio_owns A p s)"
  "dummy_uio_init K A" "dummy_uio_exit K A"
  for K A
  by unfold_locales (auto simp: dummy_uio_init_def dummy_uio_exit_def uio_bound_def)

section \<open>Interrupts\<close>

text \<open>Whether an interrupt line is requested without \<open>IRQF_SHARED\<close> after a history of calls.\<close>

definition exclusive_event :: "int \<Rightarrow> kevent \<Rightarrow> bool \<Rightarrow> bool" where
  "exclusive_event i e x = (case fst e of
     Irqc (Request_irq j h shared n d) \<Rightarrow> x \<or> j = i \<and> \<not> shared \<and> succeeded (snd e)
   | Irqc (Free_irq j d) \<Rightarrow> x \<and> j \<noteq> i
   | _ \<Rightarrow> x)"

definition irq_exclusive :: "kevent list \<Rightarrow> int \<Rightarrow> bool" where
  "irq_exclusive l i = fold (exclusive_event i) l False"

text \<open>
  \<open>uio_register_device\<close> requests the interrupt in the \<open>irq\<close> field itself, unless the field is
  \<open>UIO_IRQ_NONE\<close> (0) or \<open>UIO_IRQ_CUSTOM\<close> (-1), and fails when it does not get it. A line that
  is held without \<open>IRQF_SHARED\<close> is not given out again.
\<close>

definition uio_core_requests_irq :: "linux \<Rightarrow> bool" where
  "uio_core_requests_irq K \<longleftrightarrow> (\<forall>l A i. i \<noteq> 0 \<longrightarrow> i \<noteq> - 1 \<longrightarrow> irq_exclusive l i \<longrightarrow>
     k_int K l (Chr (Uio_register_device A i)) \<noteq> 0)"

lemma register_uio_fails:
  assumes "uio_core_requests_irq K" and "dummy_irq s \<noteq> 0" and "dummy_irq s \<noteq> - 1"
  shows "result (register_uio K A pdev a n) s \<noteq> 0"
  using assms
  by (simp add: register_uio_def err_free_irq_def err_iounmap_def err_release_regions_def
    err_disable_device_def uio_core_requests_irq_def irq_exclusive_def exclusive_event_def)

lemma register_uio_msix:
  "run_state (register_uio K A pdev a n) s = (r, s') \<Longrightarrow> \<exists>es. klog s' = klog s @ es \<and> msix_free es"
  by (auto simp: register_uio_def err_free_irq_def err_iounmap_def err_release_regions_def
    err_disable_device_def msix_free_def split: if_splits)

lemma msix_other_device:
  assumes "q \<noteq> p"
  shows "run_state (dummy_probe K A q) s = (r, s') \<Longrightarrow> msix_enabled (klog s') p = msix_enabled (klog s) p"
    and "msix_enabled (klog (exec (dummy_remove q) s)) p = msix_enabled (klog s) p"
proof -
  show "msix_enabled (klog (exec (dummy_remove q) s)) p = msix_enabled (klog s) p"
    using assms by (simp add: dummy_remove_def msix_enabled_append msix_event_def)
  assume "run_state (dummy_probe K A q) s = (r, s')"
  then show "msix_enabled (klog s') p = msix_enabled (klog s) p"
  proof (cases rule: dummy_probe_cases)
    case (early es)
    then show ?thesis by (simp add: msix_enabled_append msix_free_fold)
  next
    case (late s1 es a n)
    obtain es' where "klog s' = klog (exec (choose_irq K q) s1) @ es'" "msix_free es'"
      using register_uio_msix [OF late(4)] by blast
    with late(1,2) assms show ?thesis
      by (simp add: choose_irq_run Let_def msix_enabled_append msix_free_fold msix_event_def)
  qed
qed

text \<open>In a run of the PCI core, a probe of \<open>p\<close> that fails with MSI-X enabled.\<close>

definition probe_left_msix :: "linux \<Rightarrow> ptr \<Rightarrow> ptr \<Rightarrow> uio_state \<times> ptr set \<Rightarrow> uio_state \<times> ptr set \<Rightarrow> bool" where
  "probe_left_msix K A p x y \<longleftrightarrow> (\<exists>u C r v. core_run (dummy_uio_driver K A) single_device x (u, C) \<and>
     run_state (dummy_probe K A p) u = (r, v) \<and> r \<noteq> 0 \<and> msix_enabled (klog v) p \<and>
     core_run (dummy_uio_driver K A) single_device (v, C) y)"

lemma msix_left_over:
  "core_run (dummy_uio_driver K A) single_device x y \<Longrightarrow> msix_enabled (klog (fst y)) p \<Longrightarrow>
   \<not> msix_enabled (klog (fst x)) p \<Longrightarrow> p \<in> snd y \<or> probe_left_msix K A p x y"
proof (induction rule: core_run.induct)
  case (core_stop x)
  then show ?case by simp
next
  case (core_go x y z)
  note more = core_run.core_go [OF _ core_go.hyps(2)]
  have later: "probe_left_msix K A p x y \<Longrightarrow> probe_left_msix K A p x z"
    unfolding probe_left_msix_def by (blast intro: more)
  from core_go.hyps(2) show ?case
  proof cases
    case (bind q B s s')
    then show ?thesis
      using core_go.IH core_go.prems later msix_other_device(1) [of q p K A s 0 s']
      by (cases "q = p") (auto simp: dummy_uio_driver_def)
  next
    case (bind_fails q B s r s')
    have "probe_left_msix K A p x z" if "q = p"
    proof -
      have "core_run (dummy_uio_driver K A) single_device x (s, B)" using core_go.hyps(1) bind_fails by simp
      moreover have "run_state (dummy_probe K A p) s = (r, s')" "r \<noteq> 0" "msix_enabled (klog s') p"
        using bind_fails core_go.prems(1) that by (auto simp: dummy_uio_driver_def)
      moreover have "core_run (dummy_uio_driver K A) single_device (s', B) z"
        using bind_fails by (simp add: core_run.core_stop)
      ultimately show ?thesis unfolding probe_left_msix_def by blast
    qed
    with bind_fails show ?thesis
      using core_go.IH core_go.prems later msix_other_device(1) [of q p K A s r s']
      by (cases "q = p") (auto simp: dummy_uio_driver_def)
  next
    case (unbind q B s s')
    then have "s' = exec (dummy_remove q) s" by (simp add: dummy_uio_driver_def)
    moreover have "\<not> msix_enabled (klog (exec (dummy_remove p) s)) p"
      by (simp add: dummy_remove_def msix_enabled_append msix_event_def)
    ultimately show ?thesis
      using unbind core_go.IH core_go.prems later msix_other_device(2) [of q p s]
      by (cases "q = p") auto
  qed
qed

section \<open>Properties\<close>

text \<open>
  Whatever the kernel answers, \<open>dummy_probe\<close> either returns 0 and has acquired exactly the
  device, its regions, the mapping, the interrupt in \<open>dummy_irq\<close> and the UIO registration, or
  returns an error and has given all of them back, newest first.
\<close>

theorem uio_probe_unwinds:
  assumes "run_state (dummy_probe K A pdev) s = (r, s')" and "held_stack K s = Some st"
  shows "held_stack K s' = Some (if r = 0 then uio_owns A pdev s' @ st else st)"
  using moves_stack [OF conjunct1 [OF dummy_probe_moves [OF assms(1)]] assms(2)] by simp

abbreviation uio_start :: uio_state where
  "uio_start \<equiv> \<lparr>klog = [], dummy_uio_info = \<lparr>uio_name = '''', uio_version = '''', mem0_addr = 0,
     mem0_size = 0, mem0_memtype = UIO_MEM_NONE, uio_irq = 0, uio_irq_flags = 0, uio_irqcontrol = ''''\<rparr>,
     mmio_base = NULL, dummy_irq = 0, drvdata = (\<lambda>p. NULL)\<rparr>"

text \<open>A kernel whose UIO core refuses every registration.\<close>

abbreviation uio_busy :: linux where
  "uio_busy \<equiv> sample_kernel (\<lambda>c. case c of Chr (Uio_register_device a i) \<Rightarrow> -16 | _ \<Rightarrow> 0)"

lemmas uio_evaluation = dummy_probe_def choose_irq_def register_uio_def err_free_irq_def
  err_iounmap_def err_release_regions_def err_disable_device_def

theorem uio_probe_unwinds_witness:
  "result (dummy_probe uio_busy 64 1) uio_start = -16 \<and>
   held_stack uio_busy (exec (dummy_probe uio_busy 64 1) uio_start) = Some []"
proof -
  have r: "result (dummy_probe uio_busy 64 1) uio_start = -16" by (simp add: uio_evaluation)
  have "held_stack uio_busy uio_start = Some []" by (simp add: lifo_def)
  from uio_probe_unwinds [OF _ this, of 64 1 "-16" "exec (dummy_probe uio_busy 64 1) uio_start"] r
  show ?thesis by (simp add: prod_eq_iff)
qed

text \<open>
  For one device at a time, any sequence of bindings and unbindings that ends with no device
  bound leaves the kernel holding what it held before.
\<close>

theorem uio_hotplug_no_leak:
  assumes "core_run (dummy_uio_driver K A) single_device (s, {}) (t, {})" and "held K s = Some M"
  shows "held K t = Some M"
  using uio.core_no_leak [OF assms(1) _ assms(2)] by (simp add: uio_bound_def)

theorem uio_hotplug_no_leak_witness:
  "held good_kernel (exec (dummy_remove 1) (exec (dummy_probe good_kernel 64 1) uio_start)) = Some {#}"
proof -
  have "result (probe (dummy_uio_driver good_kernel 64) 1) uio_start = 0"
    by (simp add: dummy_uio_driver_def uio_evaluation)
  from bind_unbind_run [where may = single_device, OF this]
  have run: "core_run (dummy_uio_driver good_kernel 64) single_device (uio_start, {})
      (exec (dummy_remove 1) (exec (dummy_probe good_kernel 64 1) uio_start), {})"
    by (simp add: dummy_uio_driver_def single_device_def)
  show ?thesis by (rule uio_hotplug_no_leak [OF run]) simp
qed

text \<open>
  No exit of \<open>dummy_probe\<close> turns MSI-X off again: once the call that enables it has
  succeeded, a probe that fails afterwards returns its error with MSI-X still enabled. Only
  \<open>dummy_remove\<close>, which is not called for a failed probe, disables it.
\<close>

theorem uio_probe_leaves_msix_enabled:
  assumes "run_state (dummy_probe K A pdev) s = (r, s')"
  shows "(\<exists>es. klog s' = klog s @ es \<and>
      (msix_enabled (klog s') pdev \<longleftrightarrow>
        msix_enabled (klog s) pdev \<or> (Pci (Pci_enable_msix_exact pdev), RInt 0) \<in> set es)) \<and>
    \<not> msix_enabled (klog (exec (dummy_remove pdev) t)) pdev"
proof
  show "\<not> msix_enabled (klog (exec (dummy_remove pdev) t)) pdev"
    by (simp add: dummy_remove_def msix_enabled_append msix_event_def)
next
  show "\<exists>es. klog s' = klog s @ es \<and> (msix_enabled (klog s') pdev \<longleftrightarrow>
        msix_enabled (klog s) pdev \<or> (Pci (Pci_enable_msix_exact pdev), RInt 0) \<in> set es)"
    using assms
  proof (cases rule: dummy_probe_cases)
    case (early es)
    then show ?thesis
      by (auto simp: msix_enabled_append msix_free_fold) (auto simp: msix_free_def)
  next
    case (late s1 es a n)
    let ?r = "k_int K (klog s1) (Pci (Pci_enable_msix_exact pdev))"
    let ?e = "(Pci (Pci_enable_msix_exact pdev), RInt ?r)"
    obtain es' where es': "klog s' = klog (exec (choose_irq K pdev) s1) @ es'" "msix_free es'"
      using register_uio_msix [OF late(4)] by blast
    with late(1,2) have log: "klog s' = klog s @ (es @ ?e # es')"
      and on: "msix_enabled (klog s') pdev \<longleftrightarrow> msix_enabled (klog s) pdev \<or> ?r = 0"
      by (simp_all add: choose_irq_run Let_def msix_enabled_append msix_free_fold msix_event_def)
    have "(Pci (Pci_enable_msix_exact pdev), RInt 0) \<in> set (es @ ?e # es') \<longleftrightarrow> ?r = 0"
      using late(2) es'(2) by (auto simp: msix_free_def)
    with log on show ?thesis by blast
  qed
qed

theorem uio_probe_leaves_msix_enabled_witness:
  "result (dummy_probe uio_busy 64 1) uio_start = -16 \<and>
   msix_enabled (klog (exec (dummy_probe uio_busy 64 1) uio_start)) 1"
proof -
  let ?s = "exec (dummy_probe uio_busy 64 1) uio_start"
  have r: "result (dummy_probe uio_busy 64 1) uio_start = -16" by (simp add: uio_evaluation)
  obtain es where "klog ?s = klog uio_start @ es"
    "msix_enabled (klog ?s) 1 \<longleftrightarrow>
      msix_enabled (klog uio_start) 1 \<or> (Pci (Pci_enable_msix_exact 1), RInt 0) \<in> set es"
    using uio_probe_leaves_msix_enabled [OF prod.collapse [symmetric], of uio_busy 64 1 uio_start uio_start]
    by blast
  moreover have "(Pci (Pci_enable_msix_exact 1), RInt 0) \<in> set (klog ?s)" by (simp add: uio_evaluation)
  ultimately show ?thesis using r by simp
qed

text \<open>
  C37: the driver requests \<open>dummy_irq\<close> without \<open>IRQF_SHARED\<close> and then registers a \<open>uio_info\<close> that
  names the same interrupt, which the UIO core requests again: with a device whose interrupt
  numbers are neither 0 nor -1, no probe ever succeeds.
\<close>

theorem uio_probe_never_succeeds:
  assumes "uio_core_requests_irq K" and "pdev_irq K pdev \<noteq> 0" and "pdev_irq K pdev \<noteq> - 1"
    and "msix_vector K pdev \<noteq> 0" and "msix_vector K pdev \<noteq> - 1"
  shows "result (dummy_probe K A pdev) s \<noteq> 0"
proof -
  obtain r s' where run: "run_state (dummy_probe K A pdev) s = (r, s')" by fastforce
  then have "r \<noteq> 0"
  proof (cases rule: dummy_probe_cases)
    case (late s1 es a n)
    have "dummy_irq (exec (choose_irq K pdev) s1) \<in> {pdev_irq K pdev, msix_vector K pdev}"
      by (simp add: choose_irq_run Let_def)
    with assms late(4) register_uio_fails [of K "exec (choose_irq K pdev) s1" A pdev a n] show ?thesis
      by auto
  qed
  with run show ?thesis by simp
qed

text \<open>A kernel whose UIO core fails exactly where the line is held exclusively.\<close>

definition uio_core_kernel :: linux where
  "uio_core_kernel = good_kernel\<lparr>k_int := (\<lambda>l c. case c of
     Chr (Uio_register_device a i) \<Rightarrow> if irq_exclusive l i then - 16 else 0 | _ \<Rightarrow> 0)\<rparr>"

theorem uio_probe_never_succeeds_witness:
  "result (dummy_probe uio_core_kernel 64 1) uio_start \<noteq> 0 \<and>
   k_int uio_core_kernel [] (Chr (Uio_register_device 64 17)) = 0"
proof -
  have "uio_core_requests_irq uio_core_kernel"
    by (simp add: uio_core_requests_irq_def uio_core_kernel_def)
  then have "result (dummy_probe uio_core_kernel 64 1) uio_start \<noteq> 0"
    by (rule uio_probe_never_succeeds) (simp_all add: uio_core_kernel_def)
  moreover have "k_int uio_core_kernel [] (Chr (Uio_register_device 64 17)) = 0"
    by (simp add: uio_core_kernel_def irq_exclusive_def)
  ultimately show ?thesis ..
qed

text \<open>
  C28: after the module is loaded, with one device at a time bound and unbound any number of times,
  the resources held (device, regions, mapping, interrupt, UIO registration) are those held before
  loading, the registration of the driver, and those the device now bound owns; once no device is
  bound, unloading the module leaves exactly those held before loading. The MSI-X mode of a device is not
  given back like that: unloading changes it for no device, and a device that was not in MSI-X mode when the
  module was loaded and is in MSI-X mode without being bound was left so by a failed probe.
\<close>

theorem uio_module_lifecycle:
  assumes "run_state (dummy_uio_init K A) s = (0, s1)" and "held K s = Some M"
    and "core_run (dummy_uio_driver K A) single_device (s1, {}) (t, B)"
  shows "held K t = Some (add_mset (PciDriver (drv_name (dummy_uio_driver K A))) M + (\<Sum>q\<in>B. mset (uio_owns A q t))) \<and>
    (B = {} \<longrightarrow> held K (exec (dummy_uio_exit K A) t) = Some M) \<and>
    (\<forall>p. (msix_enabled (klog (exec (dummy_uio_exit K A) t)) p \<longleftrightarrow> msix_enabled (klog t) p) \<and>
      (msix_enabled (klog t) p \<longrightarrow> \<not> msix_enabled (klog s) p \<longrightarrow> p \<notin> B \<longrightarrow>
        probe_left_msix K A p (s1, {}) (t, B)))"
proof -
  have "klog s1 = klog s @ [(Pci (Pci_register_driver (drv_name (dummy_uio_driver K A))), RInt 0)]"
    using assms(1) by (auto simp: dummy_uio_init_def)
  then have "msix_enabled (klog s1) p = msix_enabled (klog s) p" for p
    by (simp add: msix_enabled_append msix_event_def)
  moreover have "msix_enabled (klog (exec (dummy_uio_exit K A) t)) p = msix_enabled (klog t) p" for p
    by (simp add: dummy_uio_exit_def msix_enabled_append msix_event_def)
  ultimately show ?thesis
    using uio_mod.lifecycle [OF assms(1,2) _ assms(3)] msix_left_over [OF assms(3)]
    by (auto simp: uio_bound_def)
qed

theorem uio_module_lifecycle_witness:
  "held good_kernel (exec (dummy_uio_exit good_kernel 64) (exec (remove (dummy_uio_driver good_kernel 64) 1) (exec (probe (dummy_uio_driver good_kernel 64) 1)
     (exec (dummy_uio_init good_kernel 64) uio_start)))) = Some {#}"
proof -
  let ?s1 = "exec (dummy_uio_init good_kernel 64) uio_start"
  have load: "run_state (dummy_uio_init good_kernel 64) uio_start = (0, ?s1)" by (simp add: dummy_uio_init_def)
  have "result (probe (dummy_uio_driver good_kernel 64) 1) ?s1 = 0"
    by (simp add: dummy_uio_init_def dummy_uio_driver_def uio_evaluation)
  from bind_unbind_run [where may = single_device, OF this]
  have run: "core_run (dummy_uio_driver good_kernel 64) single_device (?s1, {})
      (exec (remove (dummy_uio_driver good_kernel 64) 1) (exec (probe (dummy_uio_driver good_kernel 64) 1) ?s1), {})"
    by (simp add: single_device_def)
  from uio_module_lifecycle [OF load _ run, of "{#}"] show ?thesis by (simp)
qed

end
