(* ===== verification/Netdev_Contract.thy ===== *)
theory Netdev_Contract
  imports Pci_Contract
begin

text \<open>
  The operation table of a network device, and the contract of
  PCI drivers that allocate a \<open>net_device\<close> per PCI device and reach it through the driver data. For
  them the PCI contract for any number of devices follows from what probe and remove do
  for one device, because the allocator keeps the \<open>net_device\<close>s of bound devices apart: the
  locale \<open>netdev_driver\<close> states the one-device laws and is a sublocale of
  \<open>pci_driver_contract\<close>.
\<close>

section \<open>The operations of a network device\<close>

record 's net_device_ops =
  ndo_open :: "ptr \<Rightarrow> ('s, int) state"
  ndo_stop :: "ptr \<Rightarrow> ('s, int) state"
  ndo_start_xmit :: "ptr \<Rightarrow> ptr \<Rightarrow> ('s, netdev_tx_t) state"

section \<open>The contract\<close>

locale netdev_driver =
  fixes drv :: "'s pci_driver"
    and K :: linux
    and acct :: "'s \<Rightarrow> res multiset option"
    and netdev_of :: "'s \<Rightarrow> ptr \<Rightarrow> ptr"
    and owns :: "ptr \<Rightarrow> 's \<Rightarrow> res multiset"
  assumes owns_netdev: "Netdev a \<in># owns p s \<longleftrightarrow> a = netdev_of s p"
    and probe_acct: "run_state (probe drv p) s = (r, s') \<Longrightarrow> acct s = Some M \<Longrightarrow>
      acct s' = Some (if r = 0 then M + owns p s' else M)"
    and probe_new: "netdev_fresh K \<Longrightarrow> run_state (probe drv p) s = (0, s') \<Longrightarrow> acct s = Some M \<Longrightarrow>
      Netdev (netdev_of s' p) \<notin># M"
    and probe_frame: "netdev_fresh K \<Longrightarrow> run_state (probe drv p) s = (r, s') \<Longrightarrow> acct s = Some M \<Longrightarrow>
      q \<noteq> p \<Longrightarrow> Netdev (netdev_of s q) \<in># M \<Longrightarrow> netdev_of s' q = netdev_of s q \<and> owns q s' = owns q s"
    and remove_acct: "run_state (remove drv p) s = ((), s') \<Longrightarrow> acct s = Some (M + owns p s) \<Longrightarrow> acct s' = Some M"
    and remove_frame: "run_state (remove drv p) s = ((), s') \<Longrightarrow> netdev_of s' = netdev_of s \<and> owns q s' = owns q s"
begin

definition netdevs_ok :: "ptr set \<Rightarrow> 's \<Rightarrow> bool" where
  "netdevs_ok B s \<longleftrightarrow> netdev_fresh K \<and> inj_on (netdev_of s) B \<and>
     (\<exists>M. acct s = Some M \<and> (\<forall>q\<in>B. Netdev (netdev_of s q) \<in># M))"

lemma netdevs_ok_empty: "netdev_fresh K \<Longrightarrow> acct s = Some M \<Longrightarrow> netdevs_ok {} s"
  by (simp add: netdevs_ok_def)

lemma netdevs_ok_keep:
  assumes "netdevs_ok B s" "\<And>q. q \<in> B \<Longrightarrow> netdev_of s' q = netdev_of s q" "acct s = Some M" "acct s' = Some M'"
    and "\<And>q. q \<in> B \<Longrightarrow> Netdev (netdev_of s q) \<in># M \<Longrightarrow> Netdev (netdev_of s q) \<in># M'"
  shows "netdevs_ok B s'"
  using assms by (auto simp: netdevs_ok_def inj_on_def)

lemma probe_keeps_others:
  assumes "netdevs_ok B s" "p \<notin> B" "run_state (probe drv p) s = (r, s')" "acct s = Some M" "q \<in> B"
  shows "netdev_of s' q = netdev_of s q \<and> owns q s' = owns q s"
  using assms probe_frame [of p s r s' M q] by (auto simp: netdevs_ok_def)

end

sublocale netdev_driver \<subseteq> pci_driver_contract drv any_device acct netdevs_ok owns
proof (unfold_locales, goal_cases)
  case (1 B s p r s' M)
  have acc: "acct s' = Some M" using probe_acct [OF 1(4,6)] 1(5) by simp
  note same = probe_keeps_others [OF 1(1,2,4,6)]
  have "netdevs_ok B s'" by (rule netdevs_ok_keep [OF 1(1) _ 1(6) acc]) (simp_all add: same)
  with acc same show ?case by simp
next
  case (2 B s p s' M)
  have acc: "acct s' = Some (M + owns p s')" using probe_acct [OF 2(4,5)] by simp
  note same = probe_keeps_others [OF 2(1,2,4,5)]
  have ok: "netdevs_ok B s'" by (rule netdevs_ok_keep [OF 2(1) _ 2(5) acc]) (simp_all add: same)
  have "Netdev (netdev_of s' p) \<notin># M" using probe_new [OF _ 2(4,5)] 2(1) by (simp add: netdevs_ok_def)
  moreover have "Netdev (netdev_of s' q) \<in># M" if "q \<in> B" for q
    using 2(1,5) same that by (auto simp: netdevs_ok_def)
  ultimately have "netdev_of s' p \<notin> netdev_of s' ` B" by auto
  with ok acc 2(2) have "netdevs_ok (insert p B) s'" by (auto simp: netdevs_ok_def owns_netdev)
  with acc same show ?case by simp
next
  case (3 B s p s' M)
  have acc: "acct s' = Some M" using remove_acct [OF 3(3,4)] .
  note same = remove_frame [OF 3(3)]
  have "netdevs_ok (B - {p}) s" using 3(1) by (auto simp: netdevs_ok_def inj_on_def)
  moreover have "netdev_of s q \<noteq> netdev_of s p" if "q \<in> B - {p}" for q
    using 3(1,2) that by (auto simp: netdevs_ok_def inj_on_def)
  ultimately have "netdevs_ok (B - {p}) s'"
    by (intro netdevs_ok_keep [OF _ _ 3(4) acc]) (auto simp: same owns_netdev)
  with acc same show ?case by simp
qed

end
