(* ===== verification/Ring.thy ===== *)
theory Ring
  imports Prelude
begin

text \<open>
  Ring buffers of fixed size, as the network drivers keep them: an array of slots, filled
  at a head index and emptied at a tail index, both taken modulo the size. \<open>ring_rep\<close> relates such
  an array to the queue it holds.

  The locale \<open>tx_queue\<close> is the contract of a transmit queue towards its two clients, the
  network stack that hands in packets and the interrupt that completes them; its lemma
  \<open>traffic_fifo\<close> says that in any interleaving packets are completed in the order
  they were sent, none lost and none twice.
\<close>

section \<open>Representation\<close>

definition ring_rep :: "nat \<Rightarrow> 'a \<Rightarrow> 'a list \<Rightarrow> nat \<Rightarrow> 'a list \<Rightarrow> bool" where
  "ring_rep N z buf tail q \<longleftrightarrow> length buf = N \<and> tail < N \<and> length q \<le> N \<and> z \<notin> set q \<and>
     (\<forall>i<N. buf ! ((tail + i) mod N) = (if i < length q then q ! i else z))"

lemma mod_offset_le:
  assumes "i \<le> j" and "j < N" and "(t + i) mod N = (t + j) mod (N :: nat)"
  shows "i = j"
proof -
  have "N dvd (t + j) - (t + i)" using assms(1,3) by (metis add_le_cancel_left mod_eq_dvd_iff_nat)
  then have "N dvd j - i" by simp
  with assms(1,2) show ?thesis using dvd_imp_le [of N "j - i"] by (cases "i < j") auto
qed

lemma mod_offset_inj: "i < N \<Longrightarrow> j < N \<Longrightarrow> (t + i) mod N = (t + j) mod (N :: nat) \<longleftrightarrow> i = j"
  using mod_offset_le [of i j N t] mod_offset_le [of j i N t] by (metis nat_le_linear)

lemma ring_rep_slot:
  "ring_rep N z buf tail q \<Longrightarrow> i < N \<Longrightarrow> buf ! ((tail + i) mod N) = (if i < length q then q ! i else z)"
  by (simp add: ring_rep_def)

lemma ring_rep_empty: "0 < N \<Longrightarrow> ring_rep N z (replicate N z) 0 []"
  by (simp add: ring_rep_def)

lemma ring_rep_update:
  assumes "ring_rep N z buf tail q" and "j < N" and "i < N"
  shows "(buf[(tail + j) mod N := x]) ! ((tail + i) mod N) =
    (if i = j then x else if i < length q then q ! i else z)"
  using assms mod_offset_inj [of i N j tail] mod_offset_inj [of j N i tail]
  by (auto simp: ring_rep_def nth_list_update)

lemma ring_put:
  assumes "ring_rep N z buf tail q" and "length q < N" and "x \<noteq> z"
  shows "ring_rep N z (buf[(tail + length q) mod N := x]) tail (q @ [x])"
  using assms ring_rep_update [OF assms(1,2)]
  by (auto simp: ring_rep_def nth_append)

lemma ring_head: "ring_rep N z buf tail (x # q) \<Longrightarrow> buf ! tail = x \<and> x \<noteq> z"
  using ring_rep_slot [of N z buf tail "x # q" 0] by (auto simp: ring_rep_def)

lemma ring_take:
  assumes rep: "ring_rep N z buf tail (x # q)"
  shows "ring_rep N z (buf[tail := z]) ((tail + 1) mod N) q"
proof -
  have N: "0 < N" "tail < N" "length q < N" using rep by (auto simp: ring_rep_def)
  have "(buf[tail := z]) ! (((tail + 1) mod N + i) mod N) = (if i < length q then q ! i else z)"
    if "i < N" for i
  proof (cases "Suc i < N")
    case True
    have "((tail + 1) mod N + i) mod N = (tail + Suc i) mod N" by (simp add: mod_add_left_eq)
    with ring_rep_update [OF rep N(1) True, of z] N(2) show ?thesis by simp
  next
    case False
    with that have "Suc i = N" by simp
    then have "((tail + 1) mod N + i) mod N = tail"
      using N(2) by (metis add.assoc add_Suc_right mod_add_left_eq mod_add_self2 mod_less plus_1_eq_Suc add.commute)
    moreover have "\<not> i < length q" using \<open>Suc i = N\<close> N(3) by simp
    ultimately show ?thesis using rep N(2) by (simp add: ring_rep_def)
  qed
  with rep show ?thesis by (auto simp: ring_rep_def)
qed

text \<open>Sending into a full ring replaces the oldest packet, which is then in no slot.\<close>

lemma mod_offset_surj:
  assumes "t < N" and "j < (N :: nat)"
  shows "\<exists>i<N. (t + i) mod N = j"
proof (cases "t \<le> j")
  case True
  with assms show ?thesis by (intro exI [of _ "j - t"]) simp
next
  case False
  with assms show ?thesis by (intro exI [of _ "N + j - t"]) simp
qed

lemma ring_overwrite:
  assumes rep: "ring_rep N z buf t q" and full: "length q = N" and dist: "distinct (x # q)"
  shows "hd q \<notin> set (buf[t := x])"
proof
  assume "hd q \<in> set (buf[t := x])"
  then obtain j where j: "j < N" "(buf[t := x]) ! j = hd q"
    using rep by (auto simp: in_set_conv_nth ring_rep_def)
  have t: "t < N" using rep by (simp add: ring_rep_def)
  obtain i where i: "i < N" "(t + i) mod N = j" using mod_offset_surj [OF t j(1)] by blast
  from ring_rep_update [OF rep _ i(1), of 0 x] i j(2) t full
  have "(if i = 0 then x else q ! i) = hd q" by (simp split: if_splits)
  moreover have "hd q = q ! 0" using full t by (cases q) simp_all
  ultimately show False
    using dist full i(1) t by (cases "i = 0") (auto simp: nth_eq_iff_index_eq)
qed

section \<open>Runs of slots\<close>

text \<open>Writing a list into consecutive slots, wrapping around.\<close>

primrec ring_write :: "nat \<Rightarrow> 'a list \<Rightarrow> nat \<Rightarrow> 'a list \<Rightarrow> 'a list" where
  "ring_write N r t [] = r"
| "ring_write N r t (x # xs) = ring_write N (r[t := x]) ((t + 1) mod N) xs"

lemma length_ring_write [simp]: "length (ring_write N r t xs) = length r"
  by (induction xs arbitrary: r t) simp_all

lemma ring_write_nth:
  assumes "length r = N" and "t < N" and "length xs \<le> N" and "k < N"
  shows "ring_write N r t xs ! ((t + k) mod N) = (if k < length xs then xs ! k else r ! ((t + k) mod N))"
  using assms
proof (induction xs arbitrary: r t k)
  case Nil
  then show ?case by simp
next
  case (Cons x xs)
  let ?t = "(t + 1) mod N"
  have shift: "(?t + j) mod N = (t + Suc j) mod N" for j by (simp add: mod_add_left_eq)
  show ?case
  proof (cases k)
    case 0
    have "(?t + (N - 1)) mod N = t" unfolding shift using Cons.prems(2) by simp
    moreover have "\<not> N - 1 < length xs" using Cons.prems by simp
    ultimately have "ring_write N (r[t := x]) ?t xs ! t = x"
      using Cons.IH [of "r[t := x]" ?t "N - 1"] Cons.prems by simp
    with 0 Cons.prems(2) show ?thesis by simp
  next
    case (Suc j)
    have "(t + Suc j) mod N \<noteq> t"
      using mod_offset_inj [of "Suc j" N 0 t] Cons.prems Suc by simp
    with Cons.IH [of "r[t := x]" ?t j, unfolded shift] Cons.prems Suc show ?thesis by simp
  qed
qed

section \<open>The transmit queue contract\<close>

datatype 'p tx_op = Xmit 'p | Complete

primrec traffic :: "('p \<Rightarrow> 's \<Rightarrow> 's) \<Rightarrow> ('s \<Rightarrow> 's) \<Rightarrow> 'p tx_op list \<Rightarrow> 's \<Rightarrow> 's" where
  "traffic xmit complete [] s = s"
| "traffic xmit complete (op # ops) s =
     traffic xmit complete ops (case op of Xmit x \<Rightarrow> xmit x s | Complete \<Rightarrow> complete s)"

text \<open>
  The traffic a queue of \<open>n\<close> packets and capacity \<open>cap\<close> can take: no send into a full queue and
  no completion of an empty one.
\<close>

primrec traffic_ok :: "('p \<Rightarrow> bool) \<Rightarrow> nat \<Rightarrow> nat \<Rightarrow> 'p tx_op list \<Rightarrow> bool" where
  "traffic_ok valid cap n [] \<longleftrightarrow> True"
| "traffic_ok valid cap n (op # ops) \<longleftrightarrow> (case op of
     Xmit x \<Rightarrow> n < cap \<and> valid x \<and> traffic_ok valid cap (Suc n) ops
   | Complete \<Rightarrow> 0 < n \<and> traffic_ok valid cap (n - 1) ops)"

definition sent :: "'p tx_op list \<Rightarrow> 'p list" where
  "sent ops = concat (map (\<lambda>op. case op of Xmit x \<Rightarrow> [x] | Complete \<Rightarrow> []) ops)"

lemma sent_simps [simp]:
  "sent [] = []" "sent (Xmit x # ops) = x # sent ops" "sent (Complete # ops) = sent ops"
  by (simp_all add: sent_def)

locale tx_queue =
  fixes rep :: "'s \<Rightarrow> 'p list \<Rightarrow> bool"
    and xmit :: "'p \<Rightarrow> 's \<Rightarrow> 's"
    and complete :: "'s \<Rightarrow> 's"
    and freed :: "'s \<Rightarrow> 'p list"
    and valid :: "'p \<Rightarrow> bool"
    and cap :: nat
  assumes xmit_rep: "rep s q \<Longrightarrow> length q < cap \<Longrightarrow> valid x \<Longrightarrow>
      rep (xmit x s) (q @ [x]) \<and> freed (xmit x s) = freed s"
    and complete_rep: "rep s (x # q) \<Longrightarrow> rep (complete s) q \<and> freed (complete s) = freed s @ [x]"
begin

lemma traffic_fifo:
  "rep s q \<Longrightarrow> traffic_ok valid cap (length q) ops \<Longrightarrow>
   \<exists>q'. rep (traffic xmit complete ops s) q' \<and> freed (traffic xmit complete ops s) @ q' = freed s @ q @ sent ops"
proof (induction ops arbitrary: s q)
  case Nil
  then show ?case by auto
next
  case (Cons op ops)
  show ?case
  proof (cases op)
    case (Xmit x)
    with Cons.prems have "rep (xmit x s) (q @ [x])" "freed (xmit x s) = freed s"
      "traffic_ok valid cap (length (q @ [x])) ops"
      using xmit_rep by auto
    with Cons.IH [OF this(1,3)] Xmit show ?thesis by auto
  next
    case Complete
    with Cons.prems obtain x q' where q: "q = x # q'" by (cases q) auto
    with Cons.prems Complete have "rep (complete s) q'" "freed (complete s) = freed s @ [x]"
      "traffic_ok valid cap (length q') ops"
      using complete_rep by auto
    with Cons.IH [OF this(1,3)] Complete q show ?thesis by auto
  qed
qed

end

end
