(* ===== verification/Nic.thy ===== *)
theory Nic
  imports Netdev_Contract Ring
begin

text \<open>
  The PCI network driver \<open>network/nic.c\<close>: probe and remove, open and stop, the transmit ring, the
  interrupt handler that completes transmitted packets, and the NAPI receive poll.

  The source leaves the hardware access open (register offsets and bits have no definition, the
  loop conditions are comments). These are the fields of the parameter \<open>H :: nic_hw\<close>; what
  \<open>nic.c\<close> itself does around them is modelled as written. \<open>nics\<close> is the private area of each
  \<open>net_device\<close>, \<open>netdevs\<close> its other fields; \<open>skb_bytes\<close>, \<open>skb_protocol\<close> and \<open>skb_ip_summed\<close> are the
  received buffers.

  Shown: probe and hot-plug for any number of devices, the transmit ring as a FIFO queue in
  every interleaving of sends and completions, the completion loop of the handler, the poll
  budget, and what the missing checks cause (overflow of the ring, length mismatch at
  unmapping, pending packets at removal).
\<close>

unbundle bit_operations_syntax

section \<open>State\<close>

abbreviation (input) MYNIC_TX_RING_SIZE :: nat where "MYNIC_TX_RING_SIZE \<equiv> 128"
abbreviation (input) MYNIC_RX_RING_SIZE :: nat where "MYNIC_RX_RING_SIZE \<equiv> 128"

record nic_hw =
  CONTROL_REG :: u64
  TX_REG :: u64
  INTR_STATUS_REG :: u64
  ENABLE_IRQ :: u32
  ENABLE_RX :: u32
  ENABLE_RX_IRQ :: u32
  KICK_TX :: u32
  RX_INTR :: u32
  TX_INTR :: u32
  skb_data :: "ptr \<Rightarrow> ptr"
  skb_headlen :: "ptr \<Rightarrow> u32"
  skb_len :: "ptr \<Rightarrow> u32"
  hw_tx_sent :: "kevent list \<Rightarrow> nat \<Rightarrow> bool"
  hw_tx_addr :: "kevent list \<Rightarrow> nat \<Rightarrow> u64"
  hw_rx_ready :: "kevent list \<Rightarrow> bool"
  hw_rx_len :: "kevent list \<Rightarrow> u32"
  hw_rx_buf :: "kevent list \<Rightarrow> u8 list"

text \<open>
  The private area. The ring indices are C \<open>int\<close>s that start at 0 and are only changed by
  \<open>(x + 1) % 128\<close>, hence natural numbers here.
\<close>

record mynic_priv =
  mmio :: ptr
  netdev :: ptr
  priv_pdev :: ptr
  rx_skbuff :: "ptr list"
  tx_skbuff :: "ptr list"
  rx_head :: nat
  rx_tail :: nat
  tx_head :: nat
  tx_tail :: nat

definition zero_mynic_priv :: mynic_priv where
  "zero_mynic_priv = \<lparr>mmio = NULL, netdev = NULL, priv_pdev = NULL,
     rx_skbuff = replicate MYNIC_RX_RING_SIZE NULL, tx_skbuff = replicate MYNIC_TX_RING_SIZE NULL,
     rx_head = 0, rx_tail = 0, tx_head = 0, tx_tail = 0\<rparr>"

text \<open>The fields of a \<open>net_device\<close> the driver sets; the transmit timeout in milliseconds.\<close>

record net_device_fields =
  nd_parent :: ptr
  nd_ops :: string
  nd_watchdog_ms :: nat

abbreviation (input) CHECKSUM_NONE :: nat where "CHECKSUM_NONE \<equiv> 0"

record nic_state = "kcall kstate" +
  drvdata :: "ptr \<Rightarrow> ptr"
  nics :: "ptr \<Rightarrow> mynic_priv"
  netdevs :: "ptr \<Rightarrow> net_device_fields"
  skb_bytes :: "ptr \<Rightarrow> u8 list"
  skb_protocol :: "ptr \<Rightarrow> u16"
  skb_ip_summed :: "ptr \<Rightarrow> nat"

definition set_nic :: "ptr \<Rightarrow> (mynic_priv \<Rightarrow> mynic_priv) \<Rightarrow> (nic_state, unit) state" where
  "set_nic dev f = modify (\<lambda>s. s\<lparr>nics := (nics s)(dev := f (nics s dev))\<rparr>)"

section \<open>Probe and remove\<close>

definition err_disable_pci :: "ptr \<Rightarrow> int \<Rightarrow> (nic_state, int) state" where
  "err_disable_pci pdev r = do {
     call_void (Pci (Pci_disable_device pdev));
     ret r
   }"

definition err_release_region :: "ptr \<Rightarrow> int \<Rightarrow> (nic_state, int) state" where
  "err_release_region pdev r = do {
     call_void (Pci (Pci_release_region pdev 0));
     err_disable_pci pdev r
   }"

definition err_iounmap :: "ptr \<Rightarrow> ptr \<Rightarrow> int \<Rightarrow> (nic_state, int) state" where
  "err_iounmap pdev m r = do {
     call_void (Io (Pci_iounmap pdev m));
     err_release_region pdev r
   }"

definition err_free_netdev :: "ptr \<Rightarrow> ptr \<Rightarrow> ptr \<Rightarrow> int \<Rightarrow> (nic_state, int) state" where
  "err_free_netdev pdev m dev r = do {
     call_void (Net (Free_netdev dev));
     err_iounmap pdev m r
   }"

definition err_unregister_netdev :: "ptr \<Rightarrow> ptr \<Rightarrow> ptr \<Rightarrow> int \<Rightarrow> (nic_state, int) state" where
  "err_unregister_netdev pdev m dev r = do {
     call_void (Net (Unregister_netdev dev));
     err_free_netdev pdev m dev r
   }"

text \<open>From the private data on: set it up, register, request the interrupt, add NAPI.\<close>

definition probe_netdev :: "linux \<Rightarrow> ptr \<Rightarrow> ptr \<Rightarrow> ptr \<Rightarrow> (nic_state, int) state" where
  "probe_netdev K pdev m dev = do {
     set_nic dev (\<lambda>d. zero_mynic_priv);
     set_nic dev (\<lambda>d. d\<lparr>mmio := m, netdev := dev, priv_pdev := pdev\<rparr>);
     call_void (Skb (Spin_lock_init dev));
     modify (\<lambda>s. s\<lparr>drvdata := (drvdata s)(pdev := dev)\<rparr>);
     modify (\<lambda>s. s\<lparr>netdevs := (netdevs s)(dev := (netdevs s dev)\<lparr>nd_parent := pdev,
       nd_ops := ''mynic_netdev_ops'', nd_watchdog_ms := 5000\<rparr>)\<rparr>);
     r \<leftarrow> call_int K (Net (Register_netdev dev));
     if r \<noteq> 0 then err_free_netdev pdev m dev r
     else do {
       r \<leftarrow> call_int K (Irqc (Request_irq (pdev_irq K pdev) ''mynic_interrupt'' False ''mynic'' dev));
       if r \<noteq> 0 then err_unregister_netdev pdev m dev r
       else do {
         call_void (Net (Netif_napi_add dev ''mynic_poll'' 64));
         ret 0
       }
     }
   }"

definition mynic_probe :: "linux \<Rightarrow> ptr \<Rightarrow> (nic_state, int) state" where
  "mynic_probe K pdev = do {
     r \<leftarrow> call_int K (Pci (Pci_enable_device pdev));
     if r \<noteq> 0 then ret r
     else do {
       r \<leftarrow> call_int K (Pci (Pci_request_region pdev 0 ''mynic-mmio''));
       if r \<noteq> 0 then err_disable_pci pdev r
       else do {
         m \<leftarrow> call_u64 K (Io (Pci_iomap pdev 0));
         if m = NULL then err_release_region pdev (- ENOMEM)
         else do {
           dev \<leftarrow> call_u64 K (Net (Alloc_etherdev ''mynic_priv''));
           if dev = NULL then err_iounmap pdev m (- ENOMEM)
           else probe_netdev K pdev m dev
         }
       }
     }
   }"

definition mynic_remove :: "linux \<Rightarrow> ptr \<Rightarrow> (nic_state, unit) state" where
  "mynic_remove K pdev = do {
     dev \<leftarrow> gets (\<lambda>s. drvdata s pdev);
     d \<leftarrow> gets (\<lambda>s. nics s dev);
     call_void (Irqc (Free_irq (pdev_irq K pdev) dev));
     call_void (Net (Unregister_netdev dev));
     call_void (Net (Netif_napi_del dev));
     call_void (Io (Pci_iounmap pdev (mmio d)));
     call_void (Net (Free_netdev dev));
     call_void (Pci (Pci_release_region pdev 0));
     call_void (Pci (Pci_disable_device pdev))
   }"

definition mynic_pci_tbl :: "(u16 \<times> u16) list" where
  "mynic_pci_tbl = [(0x1234, 0x5678)]"

definition mynic_driver :: "linux \<Rightarrow> nic_state pci_driver" where
  "mynic_driver K = \<lparr>drv_name = ''mynic'', id_table = mynic_pci_tbl,
     probe = mynic_probe K, remove = mynic_remove K\<rparr>"

definition mynic_init :: "linux \<Rightarrow> (nic_state, int) state" where
  "mynic_init K = call_int K (Pci (Pci_register_driver (drv_name (mynic_driver K))))"

definition mynic_exit :: "linux \<Rightarrow> (nic_state, unit) state" where
  "mynic_exit K = call_void (Pci (Pci_unregister_driver (drv_name (mynic_driver K))))"

section \<open>Open and stop\<close>

definition mynic_open :: "nic_hw \<Rightarrow> ptr \<Rightarrow> (nic_state, int) state" where
  "mynic_open H dev = do {
     d \<leftarrow> gets (\<lambda>s. nics s dev);
     call_void (Net (Napi_enable dev));
     call_void (Net (Netif_start_queue dev));
     call_void (Io (Writel (ENABLE_IRQ H OR ENABLE_RX H) (mmio d + CONTROL_REG H)));
     ret 0
   }"

definition mynic_stop :: "nic_hw \<Rightarrow> ptr \<Rightarrow> (nic_state, int) state" where
  "mynic_stop H dev = do {
     d \<leftarrow> gets (\<lambda>s. nics s dev);
     call_void (Io (Writel 0 (mmio d + CONTROL_REG H)));
     call_void (Net (Netif_stop_queue dev));
     call_void (Net (Napi_disable dev));
     ret 0
   }"

section \<open>Transmit\<close>

definition mynic_start_xmit :: "linux \<Rightarrow> nic_hw \<Rightarrow> ptr \<Rightarrow> ptr \<Rightarrow> (nic_state, netdev_tx_t) state" where
  "mynic_start_xmit K H skb dev = do {
     d \<leftarrow> gets (\<lambda>s. nics s dev);
     dma_addr \<leftarrow> call_u64 K (Memc (Dma_map_single (priv_pdev d) (skb_data H skb) (skb_headlen H skb)));
     call_void (Skb (Spin_lock dev));
     set_nic dev (\<lambda>d. d\<lparr>tx_skbuff := (tx_skbuff d)[tx_head d := skb]\<rparr>);
     set_nic dev (\<lambda>d. d\<lparr>tx_head := (tx_head d + 1) mod MYNIC_TX_RING_SIZE\<rparr>);
     call_void (Io (Writel (KICK_TX H) (mmio d + TX_REG H)));
     call_void (Skb (Spin_unlock dev));
     ret NETDEV_TX_OK
   }"

definition mynic_netdev_ops :: "linux \<Rightarrow> nic_hw \<Rightarrow> nic_state net_device_ops" where
  "mynic_netdev_ops K H = \<lparr>ndo_open = mynic_open H, ndo_stop = mynic_stop H,
     ndo_start_xmit = mynic_start_xmit K H\<rparr>"

text \<open>One round of the completion loop of the interrupt handler.\<close>

definition complete_one :: "nic_hw \<Rightarrow> ptr \<Rightarrow> (nic_state, unit) state" where
  "complete_one H dev = do {
     d \<leftarrow> gets (\<lambda>s. nics s dev);
     l \<leftarrow> gets klog;
     let idx = tx_tail d; skb = tx_skbuff d ! idx in do {
       (if skb \<noteq> NULL then do {
          call_void (Memc (Dma_unmap_single (priv_pdev d) (hw_tx_addr H l idx) (skb_len H skb)));
          call_void (Skb (Dev_kfree_skb_irq skb));
          set_nic dev (\<lambda>d. d\<lparr>tx_skbuff := (tx_skbuff d)[idx := NULL]\<rparr>)
        } else ret ());
       set_nic dev (\<lambda>d. d\<lparr>tx_tail := (tx_tail d + 1) mod MYNIC_TX_RING_SIZE\<rparr>)
     }
   }"

text \<open>
  The loop runs while the hardware reports packets as sent; \<open>i\<close> counts the tests, on which the
  report may depend. \<open>None\<close> is a loop that never ends.
\<close>

partial_function (option) complete_loop :: "nic_hw \<Rightarrow> ptr \<Rightarrow> nat \<Rightarrow> nic_state \<Rightarrow> nic_state option" where
  "complete_loop H dev i s = (if hw_tx_sent H (klog s) i
     then complete_loop H dev (Suc i) (exec (complete_one H dev) s) else Some s)"

definition mynic_interrupt ::
    "linux \<Rightarrow> nic_hw \<Rightarrow> int \<Rightarrow> ptr \<Rightarrow> nic_state \<Rightarrow> (irqreturn_t \<times> nic_state) option" where
  "mynic_interrupt K H irq dev s = (
     let d = nics s dev;
         (status, s1) = run_state (do {
            v \<leftarrow> call_u64 K (Io (Readl (mmio d + INTR_STATUS_REG H)));
            call_void (Io (Writel (ucast v) (mmio d + INTR_STATUS_REG H)));
            (if ucast v AND RX_INTR H \<noteq> 0 then call_void (Net (Napi_schedule dev)) else ret ());
            ret (ucast v :: u32)
          }) s
     in if status AND TX_INTR H \<noteq> 0 then
          (case complete_loop H dev 0 (exec (call_void (Skb (Spin_lock dev))) s1) of
             None \<Rightarrow> None
           | Some s2 \<Rightarrow> Some (IRQ_HANDLED, exec (do {
               call_void (Skb (Spin_unlock dev));
               call_void (Net (Netif_wake_queue dev))
             }) s2))
        else Some (IRQ_HANDLED, s1))"

section \<open>Receive\<close>

text \<open>\<open>n\<close> is the rest of the budget, \<open>budget - rx_done\<close>: the loop test \<open>rx_done < budget\<close> is \<open>0 < n\<close>.\<close>

primrec rx_loop :: "linux \<Rightarrow> nic_hw \<Rightarrow> ptr \<Rightarrow> nat \<Rightarrow> int \<Rightarrow> (nic_state, int) state" where
  "rx_loop K H dev 0 rx_done = ret rx_done"
| "rx_loop K H dev (Suc n) rx_done = do {
     d \<leftarrow> gets (\<lambda>s. nics s dev);
     l \<leftarrow> gets klog;
     if \<not> hw_rx_ready H l then ret rx_done
     else do {
       skb \<leftarrow> call_u64 K (Skb (Netdev_alloc_skb_ip_align (netdev d) (hw_rx_len H l)));
       if skb = NULL then ret rx_done
       else do {
         modify (\<lambda>s. s\<lparr>skb_bytes := (skb_bytes s)(skb := take (unat (hw_rx_len H l)) (hw_rx_buf H l))\<rparr>);
         p \<leftarrow> call_u64 K (Skb (Eth_type_trans skb (netdev d)));
         modify (\<lambda>s. s\<lparr>skb_protocol := (skb_protocol s)(skb := ucast p)\<rparr>);
         modify (\<lambda>s. s\<lparr>skb_ip_summed := (skb_ip_summed s)(skb := CHECKSUM_NONE)\<rparr>);
         call_void (Skb (Netif_receive_skb skb));
         rx_loop K H dev n (rx_done + 1)
       }
     }
   }"

definition mynic_poll :: "linux \<Rightarrow> nic_hw \<Rightarrow> ptr \<Rightarrow> int \<Rightarrow> (nic_state, int) state" where
  "mynic_poll K H dev budget = do {
     rx_done \<leftarrow> rx_loop K H dev (nat budget) 0;
     d \<leftarrow> gets (\<lambda>s. nics s dev);
     (if rx_done < budget then do {
        call_void (Net (Napi_complete_done dev rx_done));
        call_void (Io (Writel (ENABLE_RX_IRQ H) (mmio d + CONTROL_REG H)))
      } else ret ());
     ret rx_done
   }"

section \<open>Probe and remove against the ledger\<close>

definition nic_mapped :: "ptr \<Rightarrow> ptr \<Rightarrow> res list" where
  "nic_mapped pdev m = [Mapping m, Region pdev 0, PciDev pdev]"

definition nic_owns :: "linux \<Rightarrow> ptr \<Rightarrow> ptr \<Rightarrow> ptr \<Rightarrow> res list" where
  "nic_owns K pdev dev m =
     [Napi dev, Irq (pdev_irq K pdev) dev, NetdevReg dev, Netdev dev] @ nic_mapped pdev m"

definition nic_holds :: "linux \<Rightarrow> ptr \<Rightarrow> nic_state \<Rightarrow> res list" where
  "nic_holds K pdev s = nic_owns K pdev (drvdata s pdev) (mmio (nics s (drvdata s pdev)))"

definition fresh_nic :: "ptr \<Rightarrow> ptr \<Rightarrow> ptr \<Rightarrow> mynic_priv" where
  "fresh_nic pdev m dev = zero_mynic_priv\<lparr>mmio := m, netdev := dev, priv_pdev := pdev\<rparr>"

lemmas nic_unwind_defs = err_unregister_netdev_def err_free_netdev_def err_iounmap_def
  err_release_region_def err_disable_pci_def

lemma probe_netdev_moves:
  "run_state (probe_netdev K pdev m dev) s = (r, s') \<Longrightarrow>
   moves K (Netdev dev # nic_mapped pdev m) s (if r = 0 then nic_owns K pdev dev m else []) s' \<and>
   drvdata s' = (drvdata s)(pdev := dev) \<and> nics s' = (nics s)(dev := fresh_nic pdev m dev)"
  by (auto simp: probe_netdev_def nic_unwind_defs nic_mapped_def nic_owns_def moves_def set_nic_def
    fresh_nic_def split: if_splits)

lemma mynic_probe_cases:
  assumes "run_state (mynic_probe K pdev) s = (r, s')"
  obtains (early) "r \<noteq> 0" "moves K [] s [] s'" "drvdata s' = drvdata s" "nics s' = nics s"
  | (late) m dev l where "dev = k_u64 K l (Net (Alloc_etherdev ''mynic_priv''))" "dev \<noteq> NULL"
      "moves K [] s (nic_mapped pdev m) (s\<lparr>klog := l\<rparr>)"
      "run_state (probe_netdev K pdev m dev)
         (s\<lparr>klog := l @ [(Net (Alloc_etherdev ''mynic_priv''), RU64 dev)]\<rparr>) = (r, s')"
proof -
  let ?c1 = "Pci (Pci_enable_device pdev)"
  define l1 where "l1 = klog s @ [(?c1, RInt (k_int K (klog s) ?c1))]"
  let ?c2 = "Pci (Pci_request_region pdev 0 ''mynic-mmio'')"
  define l2 where "l2 = l1 @ [(?c2, RInt (k_int K l1 ?c2))]"
  let ?c3 = "Io (Pci_iomap pdev 0)"
  let ?m = "k_u64 K l2 ?c3"
  define l3 where "l3 = l2 @ [(?c3, RU64 ?m)]"
  let ?c4 = "Net (Alloc_etherdev ''mynic_priv'')"
  let ?dev = "k_u64 K l3 ?c4"
  note ls = l3_def l2_def l1_def
  show thesis
  proof (cases "k_int K (klog s) ?c1 = 0 \<and> k_int K l1 ?c2 = 0 \<and> ?m \<noteq> NULL \<and> ?dev \<noteq> NULL")
    case False
    with assms have "r \<noteq> 0 \<and> moves K [] s [] s' \<and> drvdata s' = drvdata s \<and> nics s' = nics s"
      by (auto simp: mynic_probe_def nic_unwind_defs moves_def ls split: if_splits)
    then show thesis using early by blast
  next
    case True
    then have T: "k_int K (klog s) ?c1 = 0" "k_int K l1 ?c2 = 0" "?m \<noteq> 0" "?dev \<noteq> 0" by auto
    note T2 = T(2) [simplified l1_def T(1)]
    note T3 = T(3,4) [simplified ls append_assoc append.simps T(1) T2]
    have "run_state (mynic_probe K pdev) s =
        run_state (probe_netdev K pdev ?m ?dev) (s\<lparr>klog := l3 @ [(?c4, RU64 ?dev)]\<rparr>)"
      by (simp add: mynic_probe_def ls T(1) T2 T3)
    moreover have "moves K [] s (nic_mapped pdev ?m) (s\<lparr>klog := l3\<rparr>)"
      by (simp add: moves_def nic_mapped_def ls T(1) T2 T3)
    ultimately show thesis using late [of ?dev l3 ?m] assms T(4) by simp
  qed
qed

lemma mynic_probe_moves:
  assumes "run_state (mynic_probe K pdev) s = (r, s')"
  shows "moves K [] s (if r = 0 then nic_holds K pdev s' else []) s'"
  using assms
proof (cases rule: mynic_probe_cases)
  case early
  then show ?thesis by simp
next
  case (late m dev l)
  let ?s1 = "s\<lparr>klog := l @ [(Net (Alloc_etherdev ''mynic_priv''), RU64 dev)]\<rparr>"
  have "moves K (nic_mapped pdev m) (s\<lparr>klog := l\<rparr>) (Netdev dev # nic_mapped pdev m) ?s1"
    using late(2) by (simp add: moves_def)
  from moves_trans [OF late(3) moves_trans [OF this conjunct1 [OF probe_netdev_moves [OF late(4)]]]]
  show ?thesis using probe_netdev_moves [OF late(4)]
    by (cases "r = 0") (simp_all add: nic_holds_def fresh_nic_def)
qed

lemma mynic_remove_held:
  "held K s = Some (M + mset (nic_holds K pdev s)) \<Longrightarrow> held K (exec (mynic_remove K pdev) s) = Some M"
  by (simp add: mynic_remove_def nic_holds_def nic_owns_def nic_mapped_def)

lemma mynic_remove_frame:
  "drvdata (exec (mynic_remove K pdev) s) = drvdata s \<and> nics (exec (mynic_remove K pdev) s) = nics s"
  by (simp add: mynic_remove_def)

section \<open>The PCI contract for any number of devices\<close>

lemma mynic_probe_new:
  assumes run: "run_state (mynic_probe K p) s = (r, s')" and "netdev_fresh K" and "held K s = Some M"
  shows "(r = 0 \<longrightarrow> Netdev (drvdata s' p) \<notin># M) \<and> (\<forall>q. q \<noteq> p \<longrightarrow> Netdev (drvdata s q) \<in># M \<longrightarrow>
    drvdata s' q = drvdata s q \<and> nics s' (drvdata s q) = nics s (drvdata s q))"
  using run
proof (cases rule: mynic_probe_cases)
  case early
  then show ?thesis by simp
next
  case (late m dev l)
  from moves_held [OF late(3), of M] assms(3)
  have "ledger (keff K) l = Some (M + mset (nic_mapped p m))" by simp
  then have "Netdev dev \<notin># M + mset (nic_mapped p m)"
    using assms(2) late(1,2) unfolding netdev_fresh_def by metis
  then have "Netdev dev \<notin># M" by simp
  with probe_netdev_moves [OF late(4)] show ?thesis by auto
qed

interpretation nic: netdev_driver
  "mynic_driver K" K "held K" drvdata "\<lambda>p s. mset (nic_holds K p s)"
  for K
proof (unfold_locales, goal_cases)
  case (1 a p s)
  then show ?case by (auto simp: nic_holds_def nic_owns_def nic_mapped_def)
next
  case (2 p s r s' M)
  then show ?case using moves_held [OF mynic_probe_moves, of K p s r s' M] by (simp add: mynic_driver_def)
next
  case (3 p s s' M)
  then show ?case using mynic_probe_new [of K p s 0 s' M] by (simp add: mynic_driver_def)
next
  case (4 p s r s' M q)
  then show ?case using mynic_probe_new [of K p s r s' M] by (simp add: mynic_driver_def nic_holds_def)
next
  case (5 p s s' M)
  then show ?case using mynic_remove_held [of K s M p] by (simp add: mynic_driver_def)
next
  case (6 p s s' q)
  then have "s' = exec (mynic_remove K p) s" by (simp add: mynic_driver_def)
  then show ?case using mynic_remove_frame [of K p s] by (simp add: nic_holds_def)
qed

interpretation nic_mod: pci_module
  "mynic_driver K" any_device "held K" "nic.netdevs_ok K" "\<lambda>p s. mset (nic_holds K p s)"
  "mynic_init K" "mynic_exit K"
  for K
  by unfold_locales (auto simp: mynic_init_def mynic_exit_def nic.netdevs_ok_def)

section \<open>The transmit ring as a queue\<close>

definition nic_ring :: "ptr \<Rightarrow> nic_state \<Rightarrow> ptr list \<Rightarrow> bool" where
  "nic_ring dev s q \<longleftrightarrow> ring_rep MYNIC_TX_RING_SIZE NULL (tx_skbuff (nics s dev)) (tx_tail (nics s dev)) q \<and>
     tx_head (nics s dev) = (tx_tail (nics s dev) + length q) mod MYNIC_TX_RING_SIZE"

text \<open>The packets completed in a history of calls, oldest first.\<close>

definition freed_skbs :: "kevent list \<Rightarrow> ptr list" where
  "freed_skbs l = concat (map (\<lambda>e. case fst e of Skb (Dev_kfree_skb_irq a) \<Rightarrow> [a] | _ \<Rightarrow> []) l)"

lemma freed_skbs_simps [simp]:
  "freed_skbs [] = []" "freed_skbs (l @ l') = freed_skbs l @ freed_skbs l'"
  "freed_skbs (e # l) = (case fst e of Skb (Dev_kfree_skb_irq a) \<Rightarrow> [a] | _ \<Rightarrow> []) @ freed_skbs l"
  by (simp_all add: freed_skbs_def)

lemma start_xmit_run:
  "run_state (mynic_start_xmit K H skb dev) s =
    (let d = nics s dev; c = Memc (Dma_map_single (priv_pdev d) (skb_data H skb) (skb_headlen H skb))
     in (NETDEV_TX_OK, s\<lparr>
       klog := klog s @ [(c, RU64 (k_u64 K (klog s) c)), (Skb (Spin_lock dev), RVoid),
         (Io (Writel (KICK_TX H) (mmio d + TX_REG H)), RVoid), (Skb (Spin_unlock dev), RVoid)],
       nics := (nics s)(dev := d\<lparr>tx_skbuff := (tx_skbuff d)[tx_head d := skb],
         tx_head := (tx_head d + 1) mod MYNIC_TX_RING_SIZE\<rparr>)\<rparr>))"
  by (simp add: mynic_start_xmit_def set_nic_def Let_def)

lemma complete_one_run:
  assumes "tx_skbuff (nics s dev) ! tx_tail (nics s dev) \<noteq> NULL"
  shows "exec (complete_one H dev) s =
    (let d = nics s dev; idx = tx_tail d; skb = tx_skbuff d ! idx in s\<lparr>
       klog := klog s @ [(Memc (Dma_unmap_single (priv_pdev d) (hw_tx_addr H (klog s) idx) (skb_len H skb)), RVoid),
         (Skb (Dev_kfree_skb_irq skb), RVoid)],
       nics := (nics s)(dev := d\<lparr>tx_skbuff := (tx_skbuff d)[idx := NULL],
         tx_tail := (idx + 1) mod MYNIC_TX_RING_SIZE\<rparr>)\<rparr>)"
  using assms by (simp add: complete_one_def set_nic_def Let_def)

interpretation nic_tx: tx_queue "nic_ring dev" "\<lambda>skb s. exec (mynic_start_xmit K H skb dev) s"
  "exec (complete_one H dev)" "\<lambda>s. freed_skbs (klog s)" "\<lambda>skb. skb \<noteq> NULL" MYNIC_TX_RING_SIZE
  for K H dev
proof (unfold_locales, goal_cases)
  case (1 s q x)
  then show ?case
    using ring_put [of 128 NULL "tx_skbuff (nics s dev)" "tx_tail (nics s dev)" q x]
    by (simp add: nic_ring_def start_xmit_run Let_def mod_Suc_eq)
next
  case (2 s x q)
  then have rep: "ring_rep 128 NULL (tx_skbuff (nics s dev)) (tx_tail (nics s dev)) (x # q)"
    and head: "tx_head (nics s dev) = (tx_tail (nics s dev) + Suc (length q)) mod 128"
    by (simp_all add: nic_ring_def)
  from ring_head [OF rep] ring_take [OF rep] head show ?case
    by (simp add: complete_one_run nic_ring_def Let_def mod_simps)
qed

lemma nic_ring_complete_many:
  "nic_ring dev s q \<Longrightarrow> n \<le> length q \<Longrightarrow>
   nic_ring dev ((exec (complete_one H dev) ^^ n) s) (drop n q) \<and>
   freed_skbs (klog ((exec (complete_one H dev) ^^ n) s)) = freed_skbs (klog s) @ take n q"
proof (induction n arbitrary: s q)
  case 0
  then show ?case by simp
next
  case (Suc n)
  then obtain x q' where q: "q = x # q'" by (cases q) auto
  with Suc.prems nic_tx.complete_rep [of dev s x q' H] have
    "nic_ring dev (exec (complete_one H dev) s) q'" "freed_skbs (klog (exec (complete_one H dev) s)) = freed_skbs (klog s) @ [x]"
    by simp_all
  with Suc.IH [of "exec (complete_one H dev) s" q'] Suc.prems q show ?case
    by (simp add: funpow_Suc_right del: funpow.simps(2))
qed

text \<open>The loop ends after \<open>n\<close> rounds when the hardware reports \<open>n\<close> packets.\<close>

definition hw_reports :: "nic_hw \<Rightarrow> nat \<Rightarrow> bool" where
  "hw_reports H n \<longleftrightarrow> (\<forall>l i. hw_tx_sent H l i \<longleftrightarrow> i < n)"

lemma complete_loop_rounds:
  "hw_reports H n \<Longrightarrow> complete_loop H dev (n - k) s = Some ((exec (complete_one H dev) ^^ k) s)" if "k \<le> n"
  using that
proof (induction k arbitrary: s)
  case 0
  then show ?case by (simp add: complete_loop.simps [of H dev n] hw_reports_def)
next
  case (Suc k)
  then have "Suc (n - Suc k) = n - k" by simp
  with Suc show ?case
    by (subst complete_loop.simps) (simp add: hw_reports_def funpow_Suc_right del: funpow.simps(2))
qed

section \<open>Receive polling\<close>

text \<open>The packets handed to the network stack in a history of calls.\<close>

definition received_skbs :: "kevent list \<Rightarrow> ptr list" where
  "received_skbs l = concat (map (\<lambda>e. case fst e of Skb (Netif_receive_skb a) \<Rightarrow> [a] | _ \<Rightarrow> []) l)"

lemma received_skbs_simps [simp]:
  "received_skbs [] = []" "received_skbs (l @ l') = received_skbs l @ received_skbs l'"
  "received_skbs (e # l) = (case fst e of Skb (Netif_receive_skb a) \<Rightarrow> [a] | _ \<Rightarrow> []) @ received_skbs l"
  by (simp_all add: received_skbs_def)

lemma rx_loop_run:
  "\<exists>es k. klog (exec (rx_loop K H dev n c) s) = klog s @ es \<and> result (rx_loop K H dev n c) s = c + int k \<and>
     k \<le> n \<and> length (received_skbs es) = k \<and> nics (exec (rx_loop K H dev n c) s) = nics s \<and>
     (\<forall>e\<in>set es. \<exists>x. fst e = Skb x)"
proof (induction n arbitrary: c s)
  case 0
  then show ?case by simp
next
  case (Suc n)
  let ?len = "hw_rx_len H (klog s)"
  let ?ca = "Skb (Netdev_alloc_skb_ip_align (netdev (nics s dev)) ?len)"
  let ?skb = "k_u64 K (klog s) ?ca"
  show ?case
  proof (cases "hw_rx_ready H (klog s) \<and> ?skb \<noteq> NULL")
    case False
    then show ?thesis by auto
  next
    case True
    define l1 where "l1 = klog s @ [(?ca, RU64 ?skb)]"
    let ?ce = "Skb (Eth_type_trans ?skb (netdev (nics s dev)))"
    let ?p = "k_u64 K l1 ?ce"
    define s1 where "s1 = s\<lparr>skb_bytes := (skb_bytes s)(?skb := take (unat ?len) (hw_rx_buf H (klog s))),
      skb_protocol := (skb_protocol s)(?skb := ucast ?p),
      skb_ip_summed := (skb_ip_summed s)(?skb := CHECKSUM_NONE),
      klog := l1 @ [(?ce, RU64 ?p), (Skb (Netif_receive_skb ?skb), RVoid)]\<rparr>"
    have eq: "run_state (rx_loop K H dev (Suc n) c) s = run_state (rx_loop K H dev n (c + 1)) s1"
      using True by (simp add: s1_def l1_def)
    obtain es k where ih: "klog (exec (rx_loop K H dev n (c + 1)) s1) = klog s1 @ es"
      "result (rx_loop K H dev n (c + 1)) s1 = c + 1 + int k" "k \<le> n" "length (received_skbs es) = k"
      "nics (exec (rx_loop K H dev n (c + 1)) s1) = nics s1" "\<forall>e\<in>set es. \<exists>x. fst e = Skb x"
      using Suc.IH by blast
    have "klog s1 = klog s @ [(?ca, RU64 ?skb), (?ce, RU64 ?p), (Skb (Netif_receive_skb ?skb), RVoid)]"
      "nics s1 = nics s" by (simp_all add: s1_def l1_def)
    with ih show ?thesis unfolding eq
      by (intro exI [of _ "[(?ca, RU64 ?skb), (?ce, RU64 ?p), (Skb (Netif_receive_skb ?skb), RVoid)] @ es"]
        exI [of _ "Suc k"]) simp
  qed
qed

section \<open>Properties\<close>

text \<open>Hardware and states for concrete runs.\<close>

definition sample_hw :: "nat \<Rightarrow> u32 \<Rightarrow> nic_hw" where
  "sample_hw n len = \<lparr>CONTROL_REG = 0, TX_REG = 4, INTR_STATUS_REG = 8, ENABLE_IRQ = 1, ENABLE_RX = 2,
     ENABLE_RX_IRQ = 2, KICK_TX = 1, RX_INTR = 1, TX_INTR = 0x3000, skb_data = (\<lambda>a. a + 64),
     skb_headlen = (\<lambda>a. 60), skb_len = (\<lambda>a. len), hw_tx_sent = (\<lambda>l i. i < n), hw_tx_addr = (\<lambda>l i. 4096),
     hw_rx_ready = (\<lambda>l. length l < 3 * n), hw_rx_len = (\<lambda>l. 60), hw_rx_buf = (\<lambda>l. replicate 60 1)\<rparr>"

abbreviation nic_start :: nic_state where
  "nic_start \<equiv> \<lparr>klog = [], drvdata = (\<lambda>p. NULL), nics = (\<lambda>a. zero_mynic_priv),
     netdevs = (\<lambda>a. \<lparr>nd_parent = NULL, nd_ops = [], nd_watchdog_ms = 0\<rparr>), skb_bytes = (\<lambda>a. []),
     skb_protocol = (\<lambda>a. 0), skb_ip_summed = (\<lambda>a. 0)\<rparr>"

lemma nic_start_ring [simp]: "nic_ring dev nic_start []"
  using ring_rep_empty [of 128 "NULL"] by (simp add: nic_ring_def zero_mynic_priv_def)

text \<open>
  C7: packets leave the transmit ring in the order they entered it. In every interleaving of
  \<open>mynic_start_xmit\<close> calls and rounds of the completion loop that neither sends into a full ring
  (128 packets) nor completes an empty one, the packets freed so far, followed by the packets still
  in the ring, are those that were there before followed by those sent, in order.
\<close>

theorem nic_tx_fifo:
  assumes "nic_ring dev s q" and "traffic_ok (\<lambda>skb. skb \<noteq> NULL) MYNIC_TX_RING_SIZE (length q) ops"
  shows "\<exists>q'. nic_ring dev (traffic (\<lambda>skb. exec (mynic_start_xmit K H skb dev)) (exec (complete_one H dev)) ops s) q' \<and>
    freed_skbs (klog (traffic (\<lambda>skb. exec (mynic_start_xmit K H skb dev)) (exec (complete_one H dev)) ops s)) @ q' =
    freed_skbs (klog s) @ q @ sent ops"
  using nic_tx.traffic_fifo [OF assms] .

theorem nic_tx_fifo_witness:
  "\<exists>q'. nic_ring 1 (traffic (\<lambda>skb. exec (mynic_start_xmit good_kernel (sample_hw 1 60) skb 1))
      (exec (complete_one (sample_hw 1 60) 1)) [Xmit 7, Xmit 8, Complete, Xmit 9] nic_start) q' \<and>
    freed_skbs (klog (traffic (\<lambda>skb. exec (mynic_start_xmit good_kernel (sample_hw 1 60) skb 1))
      (exec (complete_one (sample_hw 1 60) 1)) [Xmit 7, Xmit 8, Complete, Xmit 9] nic_start)) @ q' = [7, 8, 9]"
  using nic_tx_fifo [OF nic_start_ring [of 1], of "[Xmit 7, Xmit 8, Complete, Xmit 9]" good_kernel "sample_hw 1 60"]
  by simp

text \<open>
  C11: when the handler finds the transmit bit set and the hardware reports \<open>n\<close> packets of those
  in the ring as sent, it returns (the completion loop ends), acknowledges with the status it read,
  frees exactly the \<open>n\<close> oldest packets in order, keeps the rest queued, and wakes the queue last.
\<close>

theorem nic_interrupt_completes:
  assumes "nic_ring dev s q" and "hw_reports H n" and "n \<le> length q"
    and v: "v = k_u64 K (klog s) (Io (Readl (mmio (nics s dev) + INTR_STATUS_REG H)))"
    and tx: "ucast v AND TX_INTR H \<noteq> 0"
  shows "\<exists>s' es. mynic_interrupt K H irq dev s = Some (IRQ_HANDLED, s') \<and>
    klog s' = klog s @ [(Io (Readl (mmio (nics s dev) + INTR_STATUS_REG H)), RU64 v),
      (Io (Writel (ucast v) (mmio (nics s dev) + INTR_STATUS_REG H)), RVoid)] @
      es @ [(Net (Netif_wake_queue dev), RVoid)] \<and>
    nic_ring dev s' (drop n q) \<and> freed_skbs (klog s') = freed_skbs (klog s) @ take n q"
proof -
  let ?a = "mmio (nics s dev) + INTR_STATUS_REG H"
  let ?acks = "[(Io (Readl ?a), RU64 v), (Io (Writel (ucast v) ?a), RVoid)]"
  let ?rx = "if ucast v AND RX_INTR H \<noteq> 0 then [(Net (Napi_schedule dev), RVoid)] else []"
  define s1 where "s1 = s\<lparr>klog := klog s @ ?acks @ ?rx @ [(Skb (Spin_lock dev), RVoid)]\<rparr>"
  define s2 where "s2 = (exec (complete_one H dev) ^^ n) s1"
  have loop: "complete_loop H dev 0 s1 = Some s2"
    using complete_loop_rounds [of n n H dev s1] assms(2) by (simp add: s2_def)
  have "nic_ring dev s1 q" using assms(1) by (simp add: s1_def nic_ring_def)
  from nic_ring_complete_many [OF this assms(3), of H]
  have ring: "nic_ring dev s2 (drop n q)" "freed_skbs (klog s2) = freed_skbs (klog s1) @ take n q"
    by (simp_all add: s2_def)
  have f1: "freed_skbs (klog s1) = freed_skbs (klog s)" by (simp add: s1_def)
  have log1: "\<exists>es. klog ((exec (complete_one H dev) ^^ m) x) = klog x @ es" for m x
    by (induction m) (auto simp: complete_one_def set_nic_def Let_def)
  then obtain es where es: "klog s2 = klog s1 @ es" unfolding s2_def by blast
  define s' where "s' = s2\<lparr>klog := klog s2 @ [(Skb (Spin_unlock dev), RVoid), (Net (Netif_wake_queue dev), RVoid)]\<rparr>"
  have "mynic_interrupt K H irq dev s = Some (IRQ_HANDLED, s')"
    using tx loop by (cases "ucast v AND RX_INTR H = 0")
      (simp_all add: mynic_interrupt_def Let_def s'_def s1_def v [symmetric])
  moreover have "klog s' = klog s @ ?acks @ (?rx @ [(Skb (Spin_lock dev), RVoid)] @ es @ [(Skb (Spin_unlock dev), RVoid)]) @
      [(Net (Netif_wake_queue dev), RVoid)]"
    by (simp add: s'_def es s1_def)
  moreover have "nic_ring dev s' (drop n q)" using ring(1) by (simp add: s'_def nic_ring_def)
  moreover have "freed_skbs (klog s') = freed_skbs (klog s) @ take n q"
    using ring(2) f1 by (simp add: s'_def)
  ultimately show ?thesis by blast
qed

theorem nic_interrupt_completes_witness:
  "\<exists>s'. mynic_interrupt good_kernel (sample_hw 1 60) 17 1
      (exec (mynic_start_xmit good_kernel (sample_hw 1 60) 7 1) nic_start) = Some (IRQ_HANDLED, s') \<and>
    nic_ring 1 s' [] \<and> freed_skbs (klog s') = [7]"
proof -
  let ?H = "sample_hw 1 60"
  let ?s = "exec (mynic_start_xmit good_kernel ?H 7 1) nic_start"
  have ring: "nic_ring 1 ?s [7]"
    using nic_tx.xmit_rep [of 1 nic_start "[]" 7 good_kernel ?H] by simp
  have n: "hw_reports ?H 1" by (simp add: hw_reports_def sample_hw_def)
  have "klog ?s = [(Memc (Dma_map_single 0 71 60), RU64 4096), (Skb (Spin_lock 1), RVoid),
      (Io (Writel 1 4), RVoid), (Skb (Spin_unlock 1), RVoid)]"
    by (simp add: start_xmit_run Let_def sample_hw_def zero_mynic_priv_def)
  then have tx: "ucast (k_u64 good_kernel (klog ?s) (Io (Readl (mmio (nics ?s 1) + INTR_STATUS_REG ?H)))) AND TX_INTR ?H \<noteq> 0"
    by (simp add: sample_hw_def)
  have "freed_skbs (klog ?s) = []" using \<open>klog ?s = _\<close> by simp
  with nic_interrupt_completes [OF ring n _ refl tx, of 17] show ?thesis by auto
qed

text \<open>
  C34: \<open>mynic_start_xmit\<close> has no check for a full ring. With 128 packets in it, the next packet is
  accepted all the same and written over the oldest one, which is then in no slot any more: it has
  not been freed and no completion will ever free it. The queue is not stopped.
\<close>

theorem nic_tx_overflow_loses_packet:
  assumes "nic_ring dev s q" and "length q = MYNIC_TX_RING_SIZE" and "distinct (skb # q)"
  shows "result (mynic_start_xmit K H skb dev) s = NETDEV_TX_OK \<and>
    hd q \<notin> set (tx_skbuff (nics (exec (mynic_start_xmit K H skb dev) s) dev)) \<and>
    freed_skbs (klog (exec (mynic_start_xmit K H skb dev) s)) = freed_skbs (klog s) \<and>
    (\<exists>es. klog (exec (mynic_start_xmit K H skb dev) s) = klog s @ es \<and>
      Net (Netif_stop_queue dev) \<notin> fst ` set es)"
proof -
  let ?buf = "tx_skbuff (nics s dev)" and ?t = "tx_tail (nics s dev)"
  have rep: "ring_rep 128 NULL ?buf ?t q" using assms(1) by (simp add: nic_ring_def)
  have head: "tx_head (nics s dev) = ?t" using assms(1,2) rep by (simp add: nic_ring_def ring_rep_def)
  have "hd q \<notin> set (?buf[?t := skb])" by (rule ring_overwrite [OF rep assms(2,3)])
  with head show ?thesis by (simp add: start_xmit_run Let_def)
qed

lemma nic_fill:
  "length xs \<le> MYNIC_TX_RING_SIZE \<Longrightarrow> NULL \<notin> set xs \<Longrightarrow>
   nic_ring dev (traffic (\<lambda>skb. exec (mynic_start_xmit K H skb dev)) (exec (complete_one H dev))
     (map Xmit xs) nic_start) xs"
proof (induction xs rule: rev_induct)
  case Nil
  then show ?case by simp
next
  case (snoc x xs)
  have app: "traffic f g (ops @ [Xmit y]) s = f y (traffic f g ops s)"
    for f :: "ptr \<Rightarrow> nic_state \<Rightarrow> nic_state" and g ops y s
    by (induction ops arbitrary: s) simp_all
  from snoc nic_tx.xmit_rep [of dev _ xs x K H] show ?case by (simp add: app)
qed

theorem nic_tx_overflow_loses_packet_witness:
  "let s = traffic (\<lambda>skb. exec (mynic_start_xmit good_kernel (sample_hw 0 60) skb 1))
       (exec (complete_one (sample_hw 0 60) 1)) (map Xmit (map word_of_nat [1..<129])) nic_start
   in 1 \<notin> set (tx_skbuff (nics (exec (mynic_start_xmit good_kernel (sample_hw 0 60) 129 1) s) 1))"
proof -
  let ?q = "map word_of_nat [1..<129] :: ptr list"
  have inj: "word_of_nat a = (word_of_nat b :: ptr) \<longleftrightarrow> a = b" if "a < 256" "b < 256" for a b
    using that by (simp add: word_of_nat_eq_iff take_bit_nat_eq_self)
  have dist: "distinct (129 # ?q)"
    using inj [of 129] by (auto simp: distinct_map inj_on_def inj)
  have "NULL \<notin> set ?q" using inj [of 0] by auto
  then have ring: "nic_ring 1 (traffic (\<lambda>skb. exec (mynic_start_xmit good_kernel (sample_hw 0 60) skb 1))
       (exec (complete_one (sample_hw 0 60) 1)) (map Xmit ?q) nic_start) ?q"
    by (intro nic_fill) simp_all
  have "hd ?q = 1" by (simp add: hd_map)
  with nic_tx_overflow_loses_packet [OF ring _ dist, of good_kernel "sample_hw 0 60"] show ?thesis
    unfolding Let_def by simp
qed

text \<open>
  C35: the function \<open>mynic_start_xmit\<close> maps \<open>skb_headlen(skb)\<close> bytes and the completion unmaps \<open>skb->len\<close> bytes
  at the address the hardware descriptor gives. For a packet sent into an empty ring and then
  completed with the address it was mapped at, no other mapping of that address and of \<open>skb->len\<close> bytes being
  held, the mapping is given back exactly when the two lengths agree; for a packet with paged data they differ and the completion unmaps something that was never mapped.
\<close>

theorem nic_tx_unmap_matches_map:
  assumes "nic_ring dev s []" and "skb \<noteq> NULL" and "held K s = Some M"
    and m: "m = Memc (Dma_map_single (priv_pdev (nics s dev)) (skb_data H skb) (skb_headlen H skb))"
    and "\<forall>l. hw_tx_addr H l (tx_tail (nics s dev)) = k_u64 K (klog s) m"
    and "DmaMap (priv_pdev (nics s dev)) (k_u64 K (klog s) m) (skb_len H skb) \<notin># M"
  shows "held K (exec (complete_one H dev) (exec (mynic_start_xmit K H skb dev) s)) =
    (if skb_len H skb = skb_headlen H skb then Some M else None)"
proof -
  let ?d = "nics s dev"
  have t: "tx_head ?d = tx_tail ?d" "tx_tail ?d < length (tx_skbuff ?d)"
    using assms(1) by (simp_all add: nic_ring_def ring_rep_def)
  have "exec (complete_one H dev) (exec (mynic_start_xmit K H skb dev) s) =
      (let s1 = exec (mynic_start_xmit K H skb dev) s; d = nics s1 dev; idx = tx_tail d in s1\<lparr>
       klog := klog s1 @ [(Memc (Dma_unmap_single (priv_pdev d) (k_u64 K (klog s) m) (skb_len H skb)), RVoid),
         (Skb (Dev_kfree_skb_irq skb), RVoid)],
       nics := (nics s1)(dev := d\<lparr>tx_skbuff := (tx_skbuff d)[idx := NULL],
         tx_tail := (idx + 1) mod MYNIC_TX_RING_SIZE\<rparr>)\<rparr>)"
    using t assms(2,5) by (subst complete_one_run) (simp_all add: start_xmit_run Let_def)
  then show ?thesis using assms(3,6) by (simp add: start_xmit_run Let_def m [symmetric]) (simp add: m)
qed

theorem nic_tx_unmap_matches_map_witness:
  "held good_kernel (exec (complete_one (sample_hw 1 1500) 1)
     (exec (mynic_start_xmit good_kernel (sample_hw 1 1500) 7 1) nic_start)) = None"
  using nic_tx_unmap_matches_map [OF nic_start_ring [of 1], of 7 good_kernel "{#}" _ "sample_hw 1 1500"]
  by (simp add: sample_hw_def)

text \<open>
  C26: \<open>mynic_poll\<close> never delivers more packets than its budget, returns the number it delivered, and
  completes NAPI with that number and re-enables receive interrupts exactly when the number is
  below the budget, after the last packet.
\<close>

theorem nic_poll_budget:
  assumes "run_state (mynic_poll K H dev budget) s = (n, s')" and "0 \<le> budget"
  shows "0 \<le> n \<and> n \<le> budget \<and> nics s' = nics s \<and>
    (\<exists>es. klog s' = klog s @ es @ (if n < budget then [(Net (Napi_complete_done dev n), RVoid),
        (Io (Writel (ENABLE_RX_IRQ H) (mmio (nics s dev) + CONTROL_REG H)), RVoid)] else []) \<and>
      length (received_skbs es) = nat n \<and> (\<forall>e\<in>set es. \<exists>x. fst e = Skb x))"
proof -
  let ?loop = "rx_loop K H dev (nat budget) 0"
  obtain es k where loop: "klog (exec ?loop s) = klog s @ es" "result ?loop s = int k" "k \<le> nat budget"
    "length (received_skbs es) = k" "nics (exec ?loop s) = nics s" "\<forall>e\<in>set es. \<exists>x. fst e = Skb x"
    using rx_loop_run [of K H dev "nat budget" 0 s] by auto
  have "n = int k" "nics s' = nics s" and "klog s' = klog s @ es @ (if n < budget
      then [(Net (Napi_complete_done dev n), RVoid),
        (Io (Writel (ENABLE_RX_IRQ H) (mmio (nics s dev) + CONTROL_REG H)), RVoid)] else [])"
    using assms(1) loop by (auto simp: mynic_poll_def split_beta split: if_splits)
  with loop assms(2) show ?thesis by auto
qed

theorem nic_poll_budget_witness:
  "result (mynic_poll good_kernel (sample_hw 2 60) 1 64) nic_start \<le> 64 \<and>
   0 \<le> result (mynic_poll good_kernel (sample_hw 2 60) 1 64) nic_start"
  using nic_poll_budget [of good_kernel "sample_hw 2 60" 1 64 nic_start, OF prod.collapse [symmetric]] by simp

text \<open>
  Whatever the kernel answers, \<open>mynic_probe\<close> either returns 0 and has acquired exactly the
  device, BAR 0, its mapping, the \<open>net_device\<close>, its registration, the interrupt and the NAPI
  context, or returns an error and has given everything back, newest first.
\<close>

theorem nic_probe_unwinds:
  assumes "run_state (mynic_probe K pdev) s = (r, s')" and "held_stack K s = Some st"
  shows "held_stack K s' = Some (if r = 0 then nic_holds K pdev s' @ st else st)"
  using moves_stack [OF mynic_probe_moves [OF assms(1)] assms(2)] by simp

abbreviation no_irq_kernel :: linux where
  "no_irq_kernel \<equiv> sample_kernel (\<lambda>c. case c of Irqc (Request_irq i h sh n d) \<Rightarrow> -16 | _ \<Rightarrow> 0)"

lemmas nic_evaluation = mynic_probe_def probe_netdev_def nic_unwind_defs set_nic_def

theorem nic_probe_unwinds_witness:
  "result (mynic_probe no_irq_kernel 1) nic_start = -16 \<and>
   held_stack no_irq_kernel (exec (mynic_probe no_irq_kernel 1) nic_start) = Some []"
proof -
  have r: "result (mynic_probe no_irq_kernel 1) nic_start = -16" by (simp add: nic_evaluation)
  have "held_stack no_irq_kernel nic_start = Some []" by (simp add: lifo_def)
  from nic_probe_unwinds [OF _ this, of 1 "-16" "exec (mynic_probe no_irq_kernel 1) nic_start"] r
  show ?thesis by (simp add: prod_eq_iff)
qed

text \<open>
  With any number of network cards bound and unbound in any order, what the kernel holds is
  what it held at the start together with what the cards now bound own; the allocator is assumed
  not to hand out a \<open>net_device\<close> that is still in use.
\<close>

theorem nic_hotplug_accounting:
  assumes "core_run (mynic_driver K) any_device (s, {}) (t, B)" and "held K s = Some M"
    and "netdev_fresh K"
  shows "held K t = Some (M + (\<Sum>q\<in>B. mset (nic_holds K q t)))"
  using nic.core_accounting [OF assms(1) nic.netdevs_ok_empty [OF assms(3,2)] assms(2)] .

theorem nic_hotplug_accounting_witness:
  "held good_kernel (exec (mynic_remove good_kernel 1) (exec (mynic_probe good_kernel 1) nic_start)) =
     Some {#}"
proof -
  have "result (probe (mynic_driver good_kernel) 1) nic_start = 0"
    by (simp add: mynic_driver_def nic_evaluation)
  from bind_unbind_run [where may = any_device, OF this]
  have run: "core_run (mynic_driver good_kernel) any_device (nic_start, {})
      (exec (mynic_remove good_kernel 1) (exec (mynic_probe good_kernel 1) nic_start), {})"
    by (simp add: mynic_driver_def any_device_def)
  from nic_hotplug_accounting [OF run] show ?thesis by simp
qed

text \<open>
  Neither \<open>mynic_stop\<close> nor \<open>mynic_remove\<close> empties the transmit ring: a card that is probed,
  sends one packet, is stopped and removed before the packet is completed gives back all it owns
  except the DMA mapping of that packet.
\<close>

theorem nic_remove_leaks_pending_mapping:
  assumes "run_state (mynic_probe K p) s = (0, s1)" and "held K s = Some M"
    and d: "d = nics s1 (drvdata s1 p)"
    and m: "m = Memc (Dma_map_single (priv_pdev d) (skb_data H skb) (skb_headlen H skb))"
  shows "held K (exec (mynic_remove K p) (exec (mynic_stop H (drvdata s1 p))
      (exec (mynic_start_xmit K H skb (drvdata s1 p)) s1))) =
    Some (add_mset (DmaMap (priv_pdev d) (k_u64 K (klog s1) m) (skb_headlen H skb)) M)"
proof -
  let ?dev = "drvdata s1 p"
  let ?s2 = "exec (mynic_stop H ?dev) (exec (mynic_start_xmit K H skb ?dev) s1)"
  have "held K s1 = Some (M + mset (nic_holds K p s1))"
    using moves_held [OF mynic_probe_moves [OF assms(1)], of M] assms(2) by simp
  moreover have "nic_holds K p ?s2 = nic_holds K p s1"
    by (simp add: nic_holds_def mynic_stop_def start_xmit_run Let_def)
  ultimately have "held K ?s2 = Some (add_mset (DmaMap (priv_pdev d) (k_u64 K (klog s1) m) (skb_headlen H skb)) M +
      mset (nic_holds K p ?s2))"
    by (simp add: mynic_stop_def start_xmit_run Let_def d m)
  then show ?thesis by (rule mynic_remove_held)
qed

theorem nic_remove_leaks_pending_mapping_witness:
  "let s1 = exec (mynic_probe good_kernel 1) nic_start
   in \<exists>r. held good_kernel (exec (mynic_remove good_kernel 1) (exec (mynic_stop (sample_hw 1 60) (drvdata s1 1))
     (exec (mynic_start_xmit good_kernel (sample_hw 1 60) 7 (drvdata s1 1)) s1))) = Some {#r#}"
proof -
  let ?s1 = "exec (mynic_probe good_kernel 1) nic_start"
  have "run_state (mynic_probe good_kernel 1) nic_start = (0, ?s1)" by (simp add: nic_evaluation)
  from nic_remove_leaks_pending_mapping [OF this _ refl refl, of "{#}" "sample_hw 1 60" 7] show ?thesis
    unfolding Let_def by auto
qed

text \<open>
  A successful probe makes the card reachable before it is ready: \<open>register_netdev\<close> (after which
  the stack may call \<open>mynic_open\<close>, which enables NAPI) and \<open>request_irq\<close> (after which the handler
  may schedule NAPI) both return before \<open>netif_napi_add\<close> sets the NAPI context up.
\<close>

theorem nic_probe_registers_before_napi:
  assumes "run_state (mynic_probe K pdev) s = (0, s')"
  shows "\<exists>es. klog s' = klog s @ es @
    [(Net (Register_netdev (drvdata s' pdev)), RInt 0),
     (Irqc (Request_irq (pdev_irq K pdev) ''mynic_interrupt'' False ''mynic'' (drvdata s' pdev)), RInt 0),
     (Net (Netif_napi_add (drvdata s' pdev) ''mynic_poll'' 64), RVoid)] \<and>
    (\<forall>e\<in>set es. \<forall>d f n. fst e \<noteq> Net (Netif_napi_add d f n))"
  using assms
  by (auto simp: nic_evaluation split: if_splits)

theorem nic_probe_registers_before_napi_witness:
  "\<exists>es. klog (exec (mynic_probe good_kernel 1) nic_start) = es @
     [(Net (Netif_napi_add (drvdata (exec (mynic_probe good_kernel 1) nic_start) 1) ''mynic_poll'' 64), RVoid)]"
proof -
  let ?s1 = "exec (mynic_probe good_kernel 1) nic_start"
  have "run_state (mynic_probe good_kernel 1) nic_start = (0, ?s1)" by (simp add: nic_evaluation)
  from nic_probe_registers_before_napi [OF this] show ?thesis by auto
qed

text \<open>
  C22: after the module is loaded, with any number of network cards bound and unbound in any order,
  what the kernel holds is what it held before loading, the registration of the driver, and what
  the cards now bound own; once no device is bound, unloading the module leaves exactly what was
  held before loading. The allocator is assumed not to hand out a \<open>net_device\<close> that
  is still in use.
\<close>

theorem nic_module_lifecycle:
  assumes "run_state (mynic_init K) s = (0, s1)" and "held K s = Some M"
    and "core_run (mynic_driver K) any_device (s1, {}) (t, B)"
    and "netdev_fresh K"
  shows "held K t = Some (add_mset (PciDriver (drv_name (mynic_driver K))) M + (\<Sum>q\<in>B. mset (nic_holds K q t))) \<and>
    (B = {} \<longrightarrow> held K (exec (mynic_exit K) t) = Some M)"
  using nic_mod.lifecycle [OF assms(1,2) _ assms(3)] nic.netdevs_ok_empty [OF assms(4,2)] by simp

theorem nic_module_lifecycle_witness:
  "held good_kernel (exec (mynic_exit good_kernel) (exec (remove (mynic_driver good_kernel) 1) (exec (probe (mynic_driver good_kernel) 1)
     (exec (mynic_init good_kernel) nic_start)))) = Some {#}"
proof -
  let ?s1 = "exec (mynic_init good_kernel) nic_start"
  have load: "run_state (mynic_init good_kernel) nic_start = (0, ?s1)" by (simp add: mynic_init_def)
  have "result (probe (mynic_driver good_kernel) 1) ?s1 = 0"
    by (simp add: mynic_init_def mynic_driver_def nic_evaluation)
  from bind_unbind_run [where may = any_device, OF this]
  have run: "core_run (mynic_driver good_kernel) any_device (?s1, {})
      (exec (remove (mynic_driver good_kernel) 1) (exec (probe (mynic_driver good_kernel) 1) ?s1), {})"
    by (simp add: any_device_def)
  from nic_module_lifecycle [OF load _ run, of "{#}"] show ?thesis by (simp)
qed

end
