(* ===== verification/Nic_Session.thy ===== *)
theory Nic_Session
  imports Nic Session
begin

text \<open>
  The network card in use: the network stack, the interrupt line and the NAPI scheduler call the
  driver's operations in any order between probe and remove.

  What the card does is a hypothesis on the parameter \<open>H\<close>, stated over the history of calls:
  \<open>hw_ring\<close> reads a history as the card sees it (the buffers posted to it and not yet taken back,
  and how many have been taken back since the device was enabled), and \<open>hw_honest\<close> says that the
  card reports only posted buffers as sent and gives back the address it was given.

  The invariant \<open>nic_ok\<close> relates the driver's ring, the card's view and the resource ledger.
\<close>

unbundle bit_operations_syntax

section \<open>The card's view of a history\<close>

definition hw_event :: "ptr \<Rightarrow> kevent \<Rightarrow> (u64 \<times> u32) list \<times> nat \<Rightarrow> (u64 \<times> u32) list \<times> nat" where
  "hw_event p e x = (case fst e of
     Pci (Pci_enable_device q) \<Rightarrow> if q = p then ([], 0) else x
   | Memc (Dma_map_single d a n) \<Rightarrow> if d = p then (fst x @ [(value_of (snd e), n)], snd x) else x
   | Memc (Dma_unmap_single d a n) \<Rightarrow> if d = p then (tl (fst x), Suc (snd x)) else x
   | _ \<Rightarrow> x)"

definition hw_ring :: "ptr \<Rightarrow> kevent list \<Rightarrow> (u64 \<times> u32) list \<times> nat" where
  "hw_ring p l = fold (hw_event p) l ([], 0)"

abbreviation posted :: "ptr \<Rightarrow> kevent list \<Rightarrow> (u64 \<times> u32) list" where
  "posted p l \<equiv> fst (hw_ring p l)"

abbreviation reaped :: "ptr \<Rightarrow> kevent list \<Rightarrow> nat" where
  "reaped p l \<equiv> snd (hw_ring p l)"

definition hw_honest :: "nic_hw \<Rightarrow> ptr \<Rightarrow> bool" where
  "hw_honest H p \<longleftrightarrow> (\<forall>l i. hw_tx_sent H l i \<longrightarrow> posted p l \<noteq> []) \<and>
     (\<forall>l. posted p l \<noteq> [] \<longrightarrow>
       hw_tx_addr H l (reaped p l mod MYNIC_TX_RING_SIZE) = fst (hd (posted p l)))"

lemma hw_ring_append: "hw_ring p (l @ es) = fold (hw_event p) es (hw_ring p l)"
  by (simp add: hw_ring_def)

section \<open>The clients of the driver\<close>

text \<open>
  The stack hands in a packet only where a slot is free, which the driver does not check.
\<close>

datatype nic_call =
    Nic_open
  | Nic_stop
  | Nic_xmit ptr
  | Nic_irq int
  | Nic_poll int

fun nic_may :: "nic_hw \<Rightarrow> ptr \<Rightarrow> nic_call \<Rightarrow> nic_state \<Rightarrow> bool" where
  "nic_may H dev (Nic_xmit skb) s \<longleftrightarrow> skb \<noteq> NULL \<and> tx_skbuff (nics s dev) ! tx_head (nics s dev) = NULL"
| "nic_may H dev _ s \<longleftrightarrow> True"

fun nic_step :: "linux \<Rightarrow> nic_hw \<Rightarrow> ptr \<Rightarrow> nic_call \<Rightarrow> nic_state \<Rightarrow> nic_state option" where
  "nic_step K H dev Nic_open s = Some (exec (ndo_open (mynic_netdev_ops K H) dev) s)"
| "nic_step K H dev Nic_stop s = Some (exec (ndo_stop (mynic_netdev_ops K H) dev) s)"
| "nic_step K H dev (Nic_xmit skb) s = Some (exec (ndo_start_xmit (mynic_netdev_ops K H) skb dev) s)"
| "nic_step K H dev (Nic_irq irq) s = map_option snd (mynic_interrupt K H irq dev s)"
| "nic_step K H dev (Nic_poll budget) s = Some (exec (mynic_poll K H dev budget) s)"

definition xmitted :: "nic_call list \<Rightarrow> ptr list" where
  "xmitted es = concat (map (\<lambda>e. case e of Nic_xmit skb \<Rightarrow> [skb] | _ \<Rightarrow> []) es)"

lemma xmitted_snoc [simp]:
  "xmitted [] = []"
  "xmitted (es @ [e]) = xmitted es @ (case e of Nic_xmit skb \<Rightarrow> [skb] | _ \<Rightarrow> [])"
  by (simp_all add: xmitted_def)

section \<open>The invariant\<close>

definition dma_maps :: "ptr \<Rightarrow> (u64 \<times> u32) list \<Rightarrow> res multiset" where
  "dma_maps p ps = mset (map (\<lambda>(a, n). DmaMap p a n) ps)"

lemma dma_maps_simps [simp]:
  "dma_maps p [] = {#}" "dma_maps p ((a, n) # ps) = add_mset (DmaMap p a n) (dma_maps p ps)"
  "dma_maps p (ps @ qs) = dma_maps p ps + dma_maps p qs"
  by (simp_all add: dma_maps_def)

text \<open>The driver's queue \<open>q\<close> and what the card has been given agree, packet by packet.\<close>

definition nic_matches :: "nic_hw \<Rightarrow> ptr \<Rightarrow> nic_state \<Rightarrow> ptr \<Rightarrow> ptr list \<Rightarrow> bool" where
  "nic_matches H dev s p q \<longleftrightarrow> nic_ring dev s q \<and> priv_pdev (nics s dev) = p \<and>
     list_all2 (\<lambda>skb (a, n). n = skb_headlen H skb) q (posted p (klog s)) \<and>
     tx_tail (nics s dev) = reaped p (klog s) mod MYNIC_TX_RING_SIZE"

definition nic_ledger :: "linux \<Rightarrow> res multiset \<Rightarrow> ptr \<Rightarrow> nic_state \<Rightarrow> bool" where
  "nic_ledger K M p s \<longleftrightarrow>
     held K s = Some (M + mset (nic_holds K p s) + dma_maps p (posted p (klog s)))"

text \<open>
  Packets all of whose data is in the linear part. For these, what is mapped is what is unmapped; the ledger is
  followed as long as only such packets are sent (see \<open>nic_tx_unmap_matches_map\<close> for the others).
\<close>

definition linear_skbs :: "nic_hw \<Rightarrow> ptr list \<Rightarrow> bool" where
  "linear_skbs H skbs \<longleftrightarrow> list_all (\<lambda>skb. skb_len H skb = skb_headlen H skb) skbs"

lemma linear_skbs_simps [simp]:
  "linear_skbs H []" "linear_skbs H (x # xs) \<longleftrightarrow> skb_len H x = skb_headlen H x \<and> linear_skbs H xs"
  "linear_skbs H (xs @ ys) \<longleftrightarrow> linear_skbs H xs \<and> linear_skbs H ys"
  by (simp_all add: linear_skbs_def)

definition nic_ok ::
    "linux \<Rightarrow> nic_hw \<Rightarrow> res multiset \<Rightarrow> ptr \<Rightarrow> ptr \<Rightarrow> ptr list \<Rightarrow> nic_call list \<Rightarrow> nic_state \<Rightarrow> bool" where
  "nic_ok K H M p dev fr es s \<longleftrightarrow> drvdata s p = dev \<and>
     (linear_skbs H (xmitted es) \<longrightarrow> nic_ledger K M p s) \<and>
     (\<exists>q. nic_matches H dev s p q \<and> set q \<subseteq> set (xmitted es) \<and> freed_skbs (klog s) @ q = fr @ xmitted es)"

text \<open>Calls that neither the ledger nor the card's ring notices.\<close>

definition quiet_call :: "kcall \<Rightarrow> bool" where
  "quiet_call c \<longleftrightarrow> (case c of
     Skb x \<Rightarrow> (\<forall>a. x \<noteq> Dev_kfree_skb_irq a)
   | Net (Netif_start_queue d) \<Rightarrow> True | Net (Netif_stop_queue d) \<Rightarrow> True
   | Net (Netif_wake_queue d) \<Rightarrow> True | Net (Napi_enable d) \<Rightarrow> True | Net (Napi_disable d) \<Rightarrow> True
   | Net (Napi_schedule d) \<Rightarrow> True | Net (Napi_complete_done d n) \<Rightarrow> True
   | Io (Readl a) \<Rightarrow> True | Io (Writel v a) \<Rightarrow> True
   | _ \<Rightarrow> False)"

lemma quiet_call_step:
  assumes "quiet_call (fst e)"
  shows "ledger_step (keff K e) m = m" "hw_event p e x = x"
    "(case fst e of Skb (Dev_kfree_skb_irq a) \<Rightarrow> [a] | _ \<Rightarrow> []) = []"
  using assms
  by (auto simp: quiet_call_def keff_def hw_event_def split: kcall.splits net_call.splits io_call.splits skb_call.splits)

lemma quiet_calls:
  assumes "\<forall>e\<in>set es. quiet_call (fst e)"
  shows "ledger_from (keff K) m es = m" "fold (hw_event p) es x = x" "freed_skbs es = []"
  using assms by (induction es arbitrary: m x) (simp_all add: quiet_call_step)

lemma nic_ok_quiet:
  assumes "nic_ok K H M p dev fr es s" and "klog s' = klog s @ ls" and "\<forall>e\<in>set ls. quiet_call (fst e)"
    and "nics s' = nics s" and "drvdata s' = drvdata s" and "xmitted es' = xmitted es"
  shows "nic_ok K H M p dev fr es' s'"
  using assms quiet_calls [OF assms(3)]
  by (simp add: nic_ok_def nic_ledger_def nic_matches_def nic_ring_def nic_holds_def hw_ring_append)

section \<open>Every callback keeps the invariant\<close>

lemma free_slot_not_full:
  assumes "nic_ring dev s q" and "tx_skbuff (nics s dev) ! tx_head (nics s dev) = NULL"
  shows "length q < MYNIC_TX_RING_SIZE"
proof (rule ccontr)
  assume "\<not> length q < MYNIC_TX_RING_SIZE"
  with assms(1) have full: "length q = MYNIC_TX_RING_SIZE" by (simp add: nic_ring_def ring_rep_def)
  then obtain x q' where q: "q = x # q'" by (cases q) auto
  with assms(1) have "ring_rep MYNIC_TX_RING_SIZE NULL (tx_skbuff (nics s dev)) (tx_tail (nics s dev)) (x # q')"
    by (simp add: nic_ring_def)
  from ring_head [OF this] full assms show False by (simp add: nic_ring_def ring_rep_def)
qed

lemma xmit_keeps_ok:
  assumes ok: "nic_ok K H M p dev fr es s" and may: "nic_may H dev (Nic_xmit skb) s"
  shows "nic_ok K H M p dev fr (es @ [Nic_xmit skb]) (exec (mynic_start_xmit K H skb dev) s)"
proof -
  let ?s = "exec (mynic_start_xmit K H skb dev) s"
  from ok obtain q where q: "nic_matches H dev s p q" "freed_skbs (klog s) @ q = fr @ xmitted es"
    "set q \<subseteq> set (xmitted es)" by (auto simp: nic_ok_def)
  then have ring: "nic_ring dev s q" by (simp add: nic_matches_def)
  have ring': "nic_ring dev ?s (q @ [skb])" "freed_skbs (klog ?s) = freed_skbs (klog s)"
    using nic_tx.xmit_rep [OF ring] free_slot_not_full [OF ring] may by simp_all
  have "priv_pdev (nics ?s dev) = p" "tx_tail (nics ?s dev) = tx_tail (nics s dev)"
    using q(1) by (simp_all add: start_xmit_run Let_def nic_matches_def)
  moreover have hw: "\<exists>a. posted p (klog ?s) = posted p (klog s) @ [(a, skb_headlen H skb)] \<and>
      reaped p (klog ?s) = reaped p (klog s) \<and>
      held K ?s = ledger_step (Acquire (DmaMap p a (skb_headlen H skb))) (held K s)"
    using q(1) by (simp add: start_xmit_run Let_def hw_ring_append hw_event_def nic_matches_def)
  ultimately have "nic_matches H dev ?s p (q @ [skb])"
    using ring'(1) q(1) by (auto simp: nic_matches_def list_all2_appendI)
  moreover have "drvdata ?s = drvdata s" "nic_holds K p ?s = nic_holds K p s"
    by (simp_all add: start_xmit_run Let_def nic_holds_def)
  moreover from this hw ok have "linear_skbs H (xmitted es) \<longrightarrow> nic_ledger K M p ?s"
    by (auto simp: nic_ok_def nic_ledger_def)
  ultimately show ?thesis
    using ok ring'(2) q(2,3) by (auto simp: nic_ok_def intro!: exI [of _ "q @ [skb]"])
qed

lemma complete_keeps_ok:
  assumes ok: "nic_ok K H M p dev fr es s" and hw: "hw_honest H p" and busy: "posted p (klog s) \<noteq> []"
  shows "nic_ok K H M p dev fr es (exec (complete_one H dev) s) \<and>
    posted p (klog (exec (complete_one H dev) s)) = tl (posted p (klog s))"
proof -
  let ?s = "exec (complete_one H dev) s" and ?d = "nics s dev"
  from ok obtain q where q: "nic_matches H dev s p q" "freed_skbs (klog s) @ q = fr @ xmitted es"
    "set q \<subseteq> set (xmitted es)" by (auto simp: nic_ok_def)
  from busy obtain a n ps where ps: "posted p (klog s) = (a, n) # ps" by (cases "posted p (klog s)") auto
  with q(1) obtain skb q' where qq: "q = skb # q'" "n = skb_headlen H skb"
    "list_all2 (\<lambda>skb (a, n). n = skb_headlen H skb) q' ps"
    by (cases q) (auto simp: nic_matches_def)
  have ring: "nic_ring dev s (skb # q')" using q(1) by (simp add: nic_matches_def qq)
  then have slot: "tx_skbuff ?d ! tx_tail ?d = skb" "skb \<noteq> NULL"
    using ring_head [of 128 NULL "tx_skbuff ?d" "tx_tail ?d" skb q'] by (auto simp: nic_ring_def)
  have addr: "hw_tx_addr H (klog s) (tx_tail ?d) = a"
    using hw ps q(1) by (auto simp: hw_honest_def nic_matches_def)
  note run = complete_one_run [of s dev H, unfolded slot(1), OF slot(2)]
  have ring': "nic_ring dev ?s q'" "freed_skbs (klog ?s) = freed_skbs (klog s) @ [skb]"
    using nic_tx.complete_rep [OF ring] by simp_all
  have pdev: "priv_pdev ?d = p" using q(1) by (simp add: nic_matches_def)
  have view: "posted p (klog ?s) = ps" "reaped p (klog ?s) = Suc (reaped p (klog s))"
    using ps pdev by (simp_all add: run Let_def hw_ring_append hw_event_def)
  have "tx_tail (nics ?s dev) = reaped p (klog ?s) mod 128" "priv_pdev (nics ?s dev) = p"
    using q(1) view(2) pdev by (simp_all add: run Let_def nic_matches_def mod_Suc_eq)
  with ring' view qq have "nic_matches H dev ?s p q'" by (simp add: nic_matches_def)
  moreover have same: "drvdata ?s = drvdata s" "nic_holds K p ?s = nic_holds K p s"
    by (simp_all add: run Let_def nic_holds_def)
  moreover have "nic_ledger K M p ?s" if lin: "linear_skbs H (xmitted es)"
  proof -
    have "skb_len H skb = n" using lin q(3) qq(1,2) by (auto simp: linear_skbs_def list_all_iff)
    then have "held K ?s = ledger_step (Release (DmaMap p a n)) (held K s)"
      using pdev slot(1) addr by (simp add: run Let_def)
    with ok ps view(1) same lin show ?thesis by (simp add: nic_ok_def nic_ledger_def)
  qed
  ultimately show ?thesis
    using ok ring'(2) q(2,3) qq(1) view(1) ps by (auto simp: nic_ok_def)
qed

text \<open>The completion loop ends: every round takes one posted buffer back.\<close>

lemma complete_loop_keeps_ok:
  assumes "nic_ok K H M p dev fr es s" and hw: "hw_honest H p"
  shows "\<exists>s'. complete_loop H dev i s = Some s' \<and> nic_ok K H M p dev fr es s'"
  using assms(1)
proof (induction "length (posted p (klog s))" arbitrary: s i rule: less_induct)
  case less
  show ?case
  proof (cases "hw_tx_sent H (klog s) i")
    case True
    then have busy: "posted p (klog s) \<noteq> []" using hw by (auto simp: hw_honest_def)
    let ?s = "exec (complete_one H dev) s"
    from complete_keeps_ok [OF less.prems hw busy] have ok: "nic_ok K H M p dev fr es ?s"
      and "posted p (klog ?s) = tl (posted p (klog s))" by simp_all
    then have "length (posted p (klog ?s)) < length (posted p (klog s))"
      using busy by (cases "posted p (klog s)") simp_all
    from less.hyps [OF this ok, of "Suc i"] True show ?thesis by (subst complete_loop.simps) simp
  next
    case False
    with less.prems show ?thesis by (subst complete_loop.simps) simp
  qed
qed

lemma open_stop_keep_ok:
  assumes "nic_ok K H M p dev fr es s"
  shows "nic_ok K H M p dev fr (es @ [Nic_open]) (exec (mynic_open H dev) s)"
    and "nic_ok K H M p dev fr (es @ [Nic_stop]) (exec (mynic_stop H dev) s)"
  using nic_ok_quiet [OF assms] by (auto simp: mynic_open_def mynic_stop_def quiet_call_def)

lemma interrupt_keeps_ok:
  assumes ok: "nic_ok K H M p dev fr es s" and hw: "hw_honest H p"
  shows "\<exists>s'. mynic_interrupt K H irq dev s = Some (IRQ_HANDLED, s') \<and>
    nic_ok K H M p dev fr (es @ [Nic_irq irq]) s'"
proof -
  let ?a = "mmio (nics s dev) + INTR_STATUS_REG H"
  let ?v = "k_u64 K (klog s) (Io (Readl ?a))"
  let ?pre = "[(Io (Readl ?a), RU64 ?v), (Io (Writel (ucast ?v) ?a), RVoid)] @
    (if ucast ?v AND RX_INTR H \<noteq> 0 then [(Net (Napi_schedule dev), RVoid)] else [])"
  let ?s1 = "s\<lparr>klog := klog s @ ?pre\<rparr>"
  have pre: "\<forall>e\<in>set ?pre. quiet_call (fst e)" by (auto simp: quiet_call_def)
  show ?thesis
  proof (cases "ucast ?v AND TX_INTR H = 0")
    case True
    have "mynic_interrupt K H irq dev s = Some (IRQ_HANDLED, ?s1)"
      using True by (simp add: mynic_interrupt_def Let_def)
    moreover have "nic_ok K H M p dev fr (es @ [Nic_irq irq]) ?s1"
      by (rule nic_ok_quiet [OF ok _ pre]) simp_all
    ultimately show ?thesis by blast
  next
    case False
    let ?s2 = "s\<lparr>klog := klog s @ ?pre @ [(Skb (Spin_lock dev), RVoid)]\<rparr>"
    have "nic_ok K H M p dev fr es ?s2"
      using pre by (intro nic_ok_quiet [OF ok, of _ "?pre @ [(Skb (Spin_lock dev), RVoid)]"]) (auto simp: quiet_call_def)
    from complete_loop_keeps_ok [OF this hw, of 0] obtain s3 where
      loop: "complete_loop H dev 0 ?s2 = Some s3" and ok3: "nic_ok K H M p dev fr es s3" by blast
    let ?post = "[(Skb (Spin_unlock dev), RVoid), (Net (Netif_wake_queue dev), RVoid)]"
    have "mynic_interrupt K H irq dev s = Some (IRQ_HANDLED, s3\<lparr>klog := klog s3 @ ?post\<rparr>)"
      using False loop by (cases "ucast ?v AND RX_INTR H = 0") (simp_all add: mynic_interrupt_def Let_def)
    moreover have "nic_ok K H M p dev fr (es @ [Nic_irq irq]) (s3\<lparr>klog := klog s3 @ ?post\<rparr>)"
      by (rule nic_ok_quiet [OF ok3]) (auto simp: quiet_call_def)
    ultimately show ?thesis by blast
  qed
qed

text \<open>The receive path touches neither the transmit ring nor the ledger.\<close>

lemma rx_loop_quiet:
  "\<exists>ls. klog (exec (rx_loop K H dev n c) s) = klog s @ ls \<and> (\<forall>e\<in>set ls. quiet_call (fst e)) \<and>
     nics (exec (rx_loop K H dev n c) s) = nics s \<and> drvdata (exec (rx_loop K H dev n c) s) = drvdata s"
proof (induction n arbitrary: c s)
  case 0
  then show ?case by simp
next
  case (Suc n)
  let ?ca = "Skb (Netdev_alloc_skb_ip_align (netdev (nics s dev)) (hw_rx_len H (klog s)))"
  let ?skb = "k_u64 K (klog s) ?ca"
  let ?ce = "Skb (Eth_type_trans ?skb (netdev (nics s dev)))"
  show ?case
  proof (cases "hw_rx_ready H (klog s) \<and> ?skb \<noteq> NULL")
    case False
    then show ?thesis by (auto simp: quiet_call_def)
  next
    case True
    then obtain s1 v where eq: "run_state (rx_loop K H dev (Suc n) c) s = run_state (rx_loop K H dev n (c + 1)) s1"
      and s1: "klog s1 = klog s @ [(?ca, RU64 ?skb), (?ce, RU64 v), (Skb (Netif_receive_skb ?skb), RVoid)]"
        "nics s1 = nics s" "drvdata s1 = drvdata s"
      by simp
    from Suc.IH [of "c + 1" s1] show ?thesis
      unfolding eq s1 by (auto simp: quiet_call_def)
  qed
qed

lemma poll_keeps_ok:
  assumes "nic_ok K H M p dev fr es s"
  shows "nic_ok K H M p dev fr (es @ [Nic_poll budget]) (exec (mynic_poll K H dev budget) s)"
proof -
  obtain ls where ls: "klog (exec (rx_loop K H dev (nat budget) 0) s) = klog s @ ls"
    "\<forall>e\<in>set ls. quiet_call (fst e)" "nics (exec (rx_loop K H dev (nat budget) 0) s) = nics s"
    "drvdata (exec (rx_loop K H dev (nat budget) 0) s) = drvdata s"
    using rx_loop_quiet by blast
  then have "\<exists>ls. klog (exec (mynic_poll K H dev budget) s) = klog s @ ls \<and>
      (\<forall>e\<in>set ls. quiet_call (fst e)) \<and> nics (exec (mynic_poll K H dev budget) s) = nics s \<and>
      drvdata (exec (mynic_poll K H dev budget) s) = drvdata s"
    by (auto simp: mynic_poll_def split_beta quiet_call_def)
  then show ?thesis using nic_ok_quiet [OF assms] by auto
qed

interpretation nic_served: served "nic_may H dev" "nic_step K H dev"
  "\<lambda>es s. hw_honest H p \<and> nic_ok K H M p dev fr es s"
  for K H M p dev fr
proof (unfold_locales, goal_cases)
  case (1 es s e)
  then show ?case
    using open_stop_keep_ok [of K H M p dev fr es s] xmit_keeps_ok [of K H M p dev fr es s]
      interrupt_keeps_ok [of K H M p dev fr es s] poll_keeps_ok [of K H M p dev fr es s]
    by (cases e) (auto simp: mynic_netdev_ops_def, blast)
qed

section \<open>From probe to remove\<close>

lemma probe_view:
  assumes "run_state (mynic_probe K p) s = (0, s')"
  shows "hw_ring p (klog s') = ([], 0)" and "freed_skbs (klog s') = freed_skbs (klog s)"
    and "nic_ring (drvdata s' p) s' []" and "priv_pdev (nics s' (drvdata s' p)) = p"
    and "tx_tail (nics s' (drvdata s' p)) = 0"
  using assms ring_rep_empty [of 128 NULL]
  by (auto simp: nic_evaluation hw_ring_append hw_event_def nic_ring_def zero_mynic_priv_def split: if_splits)

lemma probe_starts_ok:
  assumes "run_state (mynic_probe K p) s = (0, s')" and "held K s = Some M"
  shows "nic_ok K H M p (drvdata s' p) (freed_skbs (klog s)) [] s'"
proof -
  note view = probe_view [OF assms(1)]
  have "nic_matches H (drvdata s' p) s' p []" using view by (simp add: nic_matches_def nic_ring_def)
  moreover have "nic_ledger K M p s'"
    using moves_held [OF mynic_probe_moves [OF assms(1)], of M] assms(2) view by (simp add: nic_ledger_def)
  ultimately show ?thesis using view by (simp add: nic_ok_def)
qed

lemma posted_lengths: "list_all2 (\<lambda>skb (a, n). n = skb_headlen H skb) q ps \<Longrightarrow> map snd ps = map (skb_headlen H) q"
  by (induction rule: list_all2_induct) auto

lemma remove_after_session:
  assumes "nic_ok K H M p dev fr es s" and "linear_skbs H (xmitted es)"
  shows "held K (exec (mynic_remove K p) s) = Some (M + dma_maps p (posted p (klog s)))"
  using assms mynic_remove_held [of K s "M + dma_maps p (posted p (klog s))" p]
  by (simp add: nic_ok_def nic_ledger_def ac_simps)

section \<open>Properties\<close>

text \<open>
  C3: a probed card with an honest device stays consistent whatever its callers do. The device is honest when
  it reports as sent only what was posted to it and names the address it was given. After any
  sequence of opens, stops, transmissions into a free slot, interrupts and polls, the ring is a
  queue \<open>q\<close> of at most 128 packets; the packets freed so far followed by
  \<open>q\<close> are those sent, in order; the card has been given exactly the packets of
  \<open>q\<close>; the next call returns, the interrupt handler's completion loop included; and if all packets sent were
  linear (the mapped length \<open>skb_headlen\<close> is the unmapped length \<open>skb->len\<close>), the kernel holds what the card owns
  and one DMA mapping for each packet of \<open>q\<close>.
\<close>

theorem nic_session_sound:
  assumes "run_state (mynic_probe K p) s = (0, s1)" and "held K s = Some M" and "hw_honest H p"
    and "dev = drvdata s1 p" and "session (nic_may H dev) (nic_step K H dev) s1 es t"
  shows "\<exists>q. nic_ring dev t q \<and> freed_skbs (klog t) @ q = freed_skbs (klog s) @ xmitted es \<and>
    length q \<le> MYNIC_TX_RING_SIZE \<and> map snd (posted p (klog t)) = map (skb_headlen H) q \<and>
    (linear_skbs H (xmitted es) \<longrightarrow>
      held K t = Some (M + mset (nic_holds K p t) + dma_maps p (posted p (klog t)))) \<and>
    (nic_may H dev e t \<longrightarrow> (\<exists>u. nic_step K H dev e t = Some u))"
proof -
  have start: "hw_honest H p \<and> nic_ok K H M p dev (freed_skbs (klog s)) [] s1"
    using assms(3) probe_starts_ok [OF assms(1,2)] by (simp add: assms(4))
  from nic_served.session_inv [OF assms(5) start] obtain q where q: "nic_matches H dev t p q"
    "freed_skbs (klog t) @ q = freed_skbs (klog s) @ xmitted es" "linear_skbs H (xmitted es) \<longrightarrow> nic_ledger K M p t"
    by (auto simp: nic_ok_def)
  then have "nic_ring dev t q" "map snd (posted p (klog t)) = map (skb_headlen H) q"
    by (auto simp: nic_matches_def posted_lengths)
  moreover from this(1) have "length q \<le> MYNIC_TX_RING_SIZE" by (simp add: nic_ring_def ring_rep_def)
  ultimately show ?thesis using q nic_served.never_stuck [OF assms(5) start, of e]
    by (intro exI [of _ q]) (simp add: nic_ledger_def)
qed

text \<open>A device that answers from its ring: it has sent whatever was posted to it.\<close>

definition honest_hw :: "ptr \<Rightarrow> nic_hw" where
  "honest_hw p = (sample_hw 0 60)\<lparr>hw_tx_sent := \<lambda>l i. posted p l \<noteq> [],
     hw_tx_addr := \<lambda>l idx. fst (hd (posted p l))\<rparr>"

lemma honest_hw_ok: "hw_honest (honest_hw p) p"
  by (simp add: hw_honest_def honest_hw_def)

lemma honest_hw_simps [simp]:
  "CONTROL_REG (honest_hw p) = 0" "skb_len (honest_hw p) a = 60" "skb_headlen (honest_hw p) a = 60"
  by (simp_all add: honest_hw_def sample_hw_def)

text \<open>A card that is probed, opened, sends two packets and is interrupted.\<close>

abbreviation nic_probed :: nic_state where
  "nic_probed \<equiv> exec (mynic_probe good_kernel 1) nic_start"

abbreviation sample_calls :: "nic_call list" where
  "sample_calls \<equiv> [Nic_open, Nic_xmit 7, Nic_xmit 8]"

lemma nic_probed_run: "run_state (mynic_probe good_kernel 1) nic_start = (0, nic_probed)"
  by (simp add: nic_evaluation)

lemma sample_calls_run:
  "\<exists>t. session (nic_may (honest_hw 1) (drvdata nic_probed 1)) (nic_step good_kernel (honest_hw 1) (drvdata nic_probed 1))
     nic_probed sample_calls t"
  by (simp add: session_iff_run mynic_netdev_ops_def nic_evaluation zero_mynic_priv_def mynic_open_def
    start_xmit_run Let_def)

theorem nic_session_sound_witness:
  "\<exists>t q. session (nic_may (honest_hw 1) (drvdata nic_probed 1))
     (nic_step good_kernel (honest_hw 1) (drvdata nic_probed 1)) nic_probed sample_calls t \<and>
     nic_ring (drvdata nic_probed 1) t q \<and> freed_skbs (klog t) @ q = [7, 8] \<and>
     (\<exists>u. nic_step good_kernel (honest_hw 1) (drvdata nic_probed 1) (Nic_irq 17) t = Some u)"
proof -
  obtain t where t: "session (nic_may (honest_hw 1) (drvdata nic_probed 1))
      (nic_step good_kernel (honest_hw 1) (drvdata nic_probed 1)) nic_probed sample_calls t"
    using sample_calls_run by blast
  from nic_session_sound [OF nic_probed_run _ honest_hw_ok refl this, of "{#}" "Nic_irq 17"] t
  show ?thesis by (auto simp: xmitted_def)
qed

text \<open>
  C24: after a session with an honest device (see above) in which linear packets were sent into free slots, removing the card
  gives back everything but the DMA mappings of the packets still in the
  ring: neither \<open>mynic_stop\<close> nor \<open>mynic_remove\<close> empties it. Exactly as
  many mappings stay behind as packets were sent and not completed, so nothing is leaked precisely
  when the ring was drained.
\<close>

theorem nic_session_remove:
  assumes "run_state (mynic_probe K p) s = (0, s1)" and "held K s = Some M" and "hw_honest H p"
    and "dev = drvdata s1 p" and "session (nic_may H dev) (nic_step K H dev) s1 es t"
    and "linear_skbs H (xmitted es)"
  shows "held K (exec (mynic_remove K p) t) = Some (M + dma_maps p (posted p (klog t))) \<and>
    size (dma_maps p (posted p (klog t))) + length (freed_skbs (klog t)) =
      length (freed_skbs (klog s)) + length (xmitted es)"
proof -
  have start: "hw_honest H p \<and> nic_ok K H M p dev (freed_skbs (klog s)) [] s1"
    using assms(3) probe_starts_ok [OF assms(1,2)] by (simp add: assms(4))
  from nic_served.session_inv [OF assms(5) start]
  have ok: "nic_ok K H M p dev (freed_skbs (klog s)) es t" by simp
  then obtain q where q: "list_all2 (\<lambda>skb (a, n). n = skb_headlen H skb) q (posted p (klog t))"
    "freed_skbs (klog t) @ q = freed_skbs (klog s) @ xmitted es"
    by (auto simp: nic_ok_def nic_matches_def)
  from arg_cong [OF q(2), of length] list_all2_lengthD [OF q(1)]
  have "size (dma_maps p (posted p (klog t))) + length (freed_skbs (klog t)) =
      length (freed_skbs (klog s)) + length (xmitted es)"
    by (simp add: dma_maps_def)
  with remove_after_session [OF ok assms(6)] show ?thesis by simp
qed

theorem nic_session_remove_witness:
  "\<exists>t L. session (nic_may (honest_hw 1) (drvdata nic_probed 1))
     (nic_step good_kernel (honest_hw 1) (drvdata nic_probed 1)) nic_probed sample_calls t \<and>
     held good_kernel (exec (mynic_remove good_kernel 1) t) = Some L \<and> size L + length (freed_skbs (klog t)) = 2"
proof -
  obtain t where t: "session (nic_may (honest_hw 1) (drvdata nic_probed 1))
      (nic_step good_kernel (honest_hw 1) (drvdata nic_probed 1)) nic_probed sample_calls t"
    using sample_calls_run by blast
  from nic_session_remove [OF nic_probed_run _ honest_hw_ok refl this, of "{#}"] t
  show ?thesis by (auto simp: xmitted_def)
qed

end
