(* ===== verification/Preemption.thy ===== *)
theory Preemption
  imports Prelude
begin

text \<open>
  Code with a spin lock, given by its program points: \<open>step p s\<close> is the next move of a context
  at \<open>p\<close>, \<open>None\<close> where it has finished. A context at a \<open>Take\<close> waits until the lock is free.

  This theory is the machine with one processor, where an interrupt may arrive between any two moves
  and \<open>spin_lock\<close> does not disable interrupts. \<open>spinning_handler_wedged\<close>: a
  handler that waits for a lock the interrupted code holds waits for ever.
\<close>

section \<open>Moves\<close>

datatype ('p, 's) move =
    Go 'p 's
  | Take 'p 's
  | Give 'p 's

section \<open>One processor\<close>

text \<open>
  The running contexts, innermost first, whether the lock is taken, and the driver's state. An
  interrupt starts the handler at \<open>h\<close>; a handler is not interrupted itself. Waiting for the
  lock is a step that changes nothing.
\<close>

type_synonym ('p, 's) cpu = "'p list \<times> bool \<times> 's"

inductive cpu_step ::
    "('p \<Rightarrow> 's \<Rightarrow> ('p, 's) move option) \<Rightarrow> 'p \<Rightarrow> ('p, 's) cpu \<Rightarrow> ('p, 's) cpu \<Rightarrow> bool"
  for step h
where
  go: "step p s = Some (Go p' s') \<Longrightarrow> cpu_step step h (p # cs, b, s) (p' # cs, b, s')"
| acquire: "step p s = Some (Take p' s') \<Longrightarrow> cpu_step step h (p # cs, False, s) (p' # cs, True, s')"
| spin: "step p s = Some (Take p' s') \<Longrightarrow> cpu_step step h (p # cs, True, s) (p # cs, True, s)"
| release: "step p s = Some (Give p' s') \<Longrightarrow> cpu_step step h (p # cs, True, s) (p' # cs, False, s')"
| interrupt: "cpu_step step h ([p], b, s) ([h, p], b, s)"
| iret: "step p s = None \<Longrightarrow> cpu_step step h ([p, c], b, s) ([c], b, s)"

abbreviation cpu_steps ::
    "('p \<Rightarrow> 's \<Rightarrow> ('p, 's) move option) \<Rightarrow> 'p \<Rightarrow> ('p, 's) cpu \<Rightarrow> ('p, 's) cpu \<Rightarrow> bool" where
  "cpu_steps step h \<equiv> (cpu_step step h)\<^sup>*\<^sup>*"

lemmas cpu_step_then = converse_rtranclp_into_rtranclp [where r = "cpu_step step h" for step h]

inductive_cases spinE: "cpu_step step h (p # c # cs, True, s) y"

text \<open>Nothing ever changes any more.\<close>

definition wedged :: "('p \<Rightarrow> 's \<Rightarrow> ('p, 's) move option) \<Rightarrow> 'p \<Rightarrow> ('p, 's) cpu \<Rightarrow> bool" where
  "wedged step h x \<longleftrightarrow> (\<forall>y. cpu_steps step h x y \<longrightarrow> y = x)"

lemma spinning_handler_wedged:
  assumes "step p s = Some (Take p' s')"
  shows "wedged step h (p # c # cs, True, s)"
  unfolding wedged_def
proof (intro allI impI)
  fix y
  assume "cpu_steps step h (p # c # cs, True, s) y"
  then show "y = (p # c # cs, True, s)"
    by induction (use assms in \<open>auto elim!: spinE\<close>)
qed

end
