(* ===== verification/Nic_Locking.thy ===== *)
theory Nic_Locking
  imports Nic Preemption
begin

text \<open>
  The transmit path and the interrupt handler of \<open>network/nic.c\<close> point by point: \<open>nic_move\<close> is the
  next access of a context to the kernel, the device, the lock or the ring. The handler carries the
  status that its register read returned and the number of completions it has made; whether it makes another
  is the hardware's answer at that moment. \<open>spin_lock\<close> waits for the lock and does not
  disable interrupts.

  Shown: run without interference the points are the functions of the theory \<open>Nic\<close>; on one
  processor, a transmit interrupt inside the critical section of the transmit path stops the processor for good.
\<close>

unbundle bit_operations_syntax

section \<open>Program points\<close>

datatype nic_pc =
    Xmit_call ptr
  | Xmit_lock ptr
  | Xmit_slot ptr
  | Xmit_head ptr
  | Xmit_kick ptr
  | Xmit_unlock ptr
  | Xmit_done ptr
  | Intr
  | Intr_ack u32
  | Intr_rx u32
  | Intr_tx u32
  | Intr_lock u32
  | Intr_while u32 nat
  | Intr_body u32 nat
  | Intr_unlock u32 nat
  | Intr_wake u32 nat
  | Intr_done u32 nat

abbreviation (input) call :: "kcall \<Rightarrow> nic_state \<Rightarrow> nic_state" where
  "call c s \<equiv> exec (call_void c) s"

text \<open>The interrupt status, as the handler reads it.\<close>

definition irq_status :: "linux \<Rightarrow> nic_hw \<Rightarrow> ptr \<Rightarrow> nic_state \<Rightarrow> u32" where
  "irq_status K H dev s = ucast (k_u64 K (klog s) (Io (Readl (mmio (nics s dev) + INTR_STATUS_REG H))))"

text \<open>\<open>mynic_start_xmit\<close>: map the data, take the lock, fill the slot, move the head, kick, give the lock back.\<close>

fun xmit_step :: "linux \<Rightarrow> nic_hw \<Rightarrow> ptr \<Rightarrow> nic_pc \<Rightarrow> nic_state \<Rightarrow> (nic_pc, nic_state) move option" where
  "xmit_step K H dev (Xmit_call skb) s = Some (Go (Xmit_lock skb)
     (exec (call_u64 K (Memc (Dma_map_single (priv_pdev (nics s dev)) (skb_data H skb) (skb_headlen H skb)))) s))"
| "xmit_step K H dev (Xmit_lock skb) s = Some (Take (Xmit_slot skb) (call (Skb (Spin_lock dev)) s))"
| "xmit_step K H dev (Xmit_slot skb) s = Some (Go (Xmit_head skb)
     (exec (set_nic dev (\<lambda>d. d\<lparr>tx_skbuff := (tx_skbuff d)[tx_head d := skb]\<rparr>)) s))"
| "xmit_step K H dev (Xmit_head skb) s = Some (Go (Xmit_kick skb)
     (exec (set_nic dev (\<lambda>d. d\<lparr>tx_head := (tx_head d + 1) mod MYNIC_TX_RING_SIZE\<rparr>)) s))"
| "xmit_step K H dev (Xmit_kick skb) s = Some (Go (Xmit_unlock skb)
     (call (Io (Writel (KICK_TX H) (mmio (nics s dev) + TX_REG H))) s))"
| "xmit_step K H dev (Xmit_unlock skb) s = Some (Give (Xmit_done skb) (call (Skb (Spin_unlock dev)) s))"
| "xmit_step K H dev p s = None"

text \<open>
  \<open>mynic_interrupt\<close>: read the status, acknowledge it, schedule the poll on a receive bit; on a transmit bit take the lock,
  complete packets while the hardware reports them as sent, give the lock back and wake the queue.
\<close>

fun intr_step :: "linux \<Rightarrow> nic_hw \<Rightarrow> ptr \<Rightarrow> nic_pc \<Rightarrow> nic_state \<Rightarrow> (nic_pc, nic_state) move option" where
  "intr_step K H dev Intr s = Some (Go (Intr_ack (irq_status K H dev s))
     (exec (call_u64 K (Io (Readl (mmio (nics s dev) + INTR_STATUS_REG H)))) s))"
| "intr_step K H dev (Intr_ack v) s = Some (Go (Intr_rx v)
     (call (Io (Writel v (mmio (nics s dev) + INTR_STATUS_REG H))) s))"
| "intr_step K H dev (Intr_rx v) s = Some (Go (Intr_tx v)
     (if v AND RX_INTR H \<noteq> 0 then call (Net (Napi_schedule dev)) s else s))"
| "intr_step K H dev (Intr_tx v) s = Some (Go
     (if v AND TX_INTR H \<noteq> 0 then Intr_lock v else Intr_done v 0) s)"
| "intr_step K H dev (Intr_lock v) s = Some (Take (Intr_while v 0) (call (Skb (Spin_lock dev)) s))"
| "intr_step K H dev (Intr_while v n) s = Some (Go
     (if hw_tx_sent H (klog s) n then Intr_body v n else Intr_unlock v n) s)"
| "intr_step K H dev (Intr_body v n) s = Some (Go (Intr_while v (Suc n)) (exec (complete_one H dev) s))"
| "intr_step K H dev (Intr_unlock v n) s = Some (Give (Intr_wake v n) (call (Skb (Spin_unlock dev)) s))"
| "intr_step K H dev (Intr_wake v n) s = Some (Go (Intr_done v n) (call (Net (Netif_wake_queue dev)) s))"
| "intr_step K H dev p s = None"

definition nic_move :: "linux \<Rightarrow> nic_hw \<Rightarrow> ptr \<Rightarrow> nic_pc \<Rightarrow> nic_state \<Rightarrow> (nic_pc, nic_state) move option" where
  "nic_move K H dev p s = (case xmit_step K H dev p s of None \<Rightarrow> intr_step K H dev p s | Some m \<Rightarrow> Some m)"

lemma nic_move_simps [simp]:
  "nic_move K H dev (Xmit_call skb) = xmit_step K H dev (Xmit_call skb)"
  "nic_move K H dev (Xmit_lock skb) = xmit_step K H dev (Xmit_lock skb)"
  "nic_move K H dev (Xmit_slot skb) = xmit_step K H dev (Xmit_slot skb)"
  "nic_move K H dev (Xmit_head skb) = xmit_step K H dev (Xmit_head skb)"
  "nic_move K H dev (Xmit_kick skb) = xmit_step K H dev (Xmit_kick skb)"
  "nic_move K H dev (Xmit_unlock skb) = xmit_step K H dev (Xmit_unlock skb)"
  "nic_move K H dev (Xmit_done skb) s = None"
  "nic_move K H dev Intr = intr_step K H dev Intr"
  "nic_move K H dev (Intr_ack v) = intr_step K H dev (Intr_ack v)"
  "nic_move K H dev (Intr_rx v) = intr_step K H dev (Intr_rx v)"
  "nic_move K H dev (Intr_tx v) = intr_step K H dev (Intr_tx v)"
  "nic_move K H dev (Intr_lock v) = intr_step K H dev (Intr_lock v)"
  "nic_move K H dev (Intr_while v n) = intr_step K H dev (Intr_while v n)"
  "nic_move K H dev (Intr_body v n) = intr_step K H dev (Intr_body v n)"
  "nic_move K H dev (Intr_unlock v n) = intr_step K H dev (Intr_unlock v n)"
  "nic_move K H dev (Intr_wake v n) = intr_step K H dev (Intr_wake v n)"
  "nic_move K H dev (Intr_done v n) s = None"
  by (simp_all add: nic_move_def fun_eq_iff)

definition nic_done :: "nic_pc \<Rightarrow> bool" where
  "nic_done p \<longleftrightarrow> (case p of Xmit_done skb \<Rightarrow> True | Intr_done v n \<Rightarrow> True | _ \<Rightarrow> False)"

lemma nic_done_simps [simp]: "nic_done (Xmit_done skb)" "nic_done (Intr_done v n)"
  by (simp_all add: nic_done_def)

lemma nic_done_iff: "nic_done p \<longleftrightarrow> nic_move K H dev p s = None"
  by (cases p) (simp_all add: nic_done_def)

section \<open>The points and the functions of the driver\<close>

abbreviation nic_cpu where
  "nic_cpu K H dev \<equiv> cpu_step (nic_move K H dev) Intr"

abbreviation nic_cpus where
  "nic_cpus K H dev \<equiv> cpu_steps (nic_move K H dev) Intr"

lemma go_then: "nic_move K H dev p s = Some (Go p' s') \<Longrightarrow> nic_cpus K H dev (p' # cs, b, s') y \<Longrightarrow>
    nic_cpus K H dev (p # cs, b, s) y"
  by (erule cpu_step_then [OF cpu_step.go])

lemma take_then: "nic_move K H dev p s = Some (Take p' s') \<Longrightarrow> nic_cpus K H dev (p' # cs, True, s') y \<Longrightarrow>
    nic_cpus K H dev (p # cs, False, s) y"
  by (erule cpu_step_then [OF cpu_step.acquire])

lemma give_then: "nic_move K H dev p s = Some (Give p' s') \<Longrightarrow> nic_cpus K H dev (p' # cs, False, s') y \<Longrightarrow>
    nic_cpus K H dev (p # cs, True, s) y"
  by (erule cpu_step_then [OF cpu_step.release])

text \<open>The state in which the transmit path has just taken the lock.\<close>

definition xmit_locked :: "linux \<Rightarrow> nic_hw \<Rightarrow> ptr \<Rightarrow> ptr \<Rightarrow> nic_state \<Rightarrow> nic_state" where
  "xmit_locked K H skb dev s = exec (do {
     call_u64 K (Memc (Dma_map_single (priv_pdev (nics s dev)) (skb_data H skb) (skb_headlen H skb)));
     call_void (Skb (Spin_lock dev))
   }) s"

lemma xmit_locks: "nic_cpus K H dev (Xmit_call skb # cs, False, s) (Xmit_slot skb # cs, True, xmit_locked K H skb dev s)"
  by (rule go_then, simp, rule take_then, simp) (simp add: xmit_locked_def)

lemma xmit_points:
  "nic_cpus K H dev (Xmit_call skb # cs, False, s) (Xmit_done skb # cs, False, exec (mynic_start_xmit K H skb dev) s)"
proof -
  have "nic_cpus K H dev (Xmit_slot skb # cs, True, xmit_locked K H skb dev s)
      (Xmit_done skb # cs, False, exec (mynic_start_xmit K H skb dev) s)"
    by (rule go_then, simp, rule go_then, simp, rule go_then, simp, rule give_then, simp)
      (simp add: xmit_locked_def mynic_start_xmit_def set_nic_def)
  with xmit_locks show ?thesis by (rule rtranclp_trans)
qed

lemma loop_points:
  "complete_loop H dev n s = Some s' \<Longrightarrow>
   \<exists>m. nic_cpus K H dev (Intr_while v n # cs, True, s) (Intr_unlock v m # cs, True, s')"
proof (erule complete_loop.raw_induct [rotated])
  fix loop H dev n s s'
  assume IH: "\<And>H dev n s s'. loop H dev n s = Some s' \<Longrightarrow>
      \<exists>m. nic_cpus K H dev (Intr_while v n # cs, True, s) (Intr_unlock v m # cs, True, s')"
    and run: "(if hw_tx_sent H (klog s) n then loop H dev (Suc n) (exec (complete_one H dev) s) else Some s) = Some s'"
  show "\<exists>m. nic_cpus K H dev (Intr_while v n # cs, True, s) (Intr_unlock v m # cs, True, s')"
  proof (cases "hw_tx_sent H (klog s) n")
    case True
    with run IH obtain m where "nic_cpus K H dev (Intr_while v (Suc n) # cs, True, exec (complete_one H dev) s)
        (Intr_unlock v m # cs, True, s')" by fastforce
    then have "nic_cpus K H dev (Intr_while v n # cs, True, s) (Intr_unlock v m # cs, True, s')"
      by (intro go_then [where p = "Intr_while v n" and p' = "Intr_body v n"]
        go_then [where p = "Intr_body v n"]) (simp_all add: True)
    then show ?thesis by blast
  next
    case False
    with run have "nic_cpus K H dev (Intr_while v n # cs, True, s) (Intr_unlock v n # cs, True, s')"
      by (intro go_then [where p = "Intr_while v n" and p' = "Intr_unlock v n" and s' = s]) (simp_all add: False)
    then show ?thesis by blast
  qed
qed

text \<open>The handler as far as the test of the transmit bit.\<close>

definition intr_acked :: "linux \<Rightarrow> nic_hw \<Rightarrow> ptr \<Rightarrow> nic_state \<Rightarrow> nic_state" where
  "intr_acked K H dev s = exec (do {
     v \<leftarrow> call_u64 K (Io (Readl (mmio (nics s dev) + INTR_STATUS_REG H)));
     call_void (Io (Writel (ucast v) (mmio (nics s dev) + INTR_STATUS_REG H)));
     (if ucast v AND RX_INTR H \<noteq> 0 then call_void (Net (Napi_schedule dev)) else ret ())
   }) s"

lemma intr_acks:
  "nic_cpus K H dev (Intr # cs, b, s) (Intr_tx (irq_status K H dev s) # cs, b, intr_acked K H dev s)"
  by (rule go_then, simp, rule go_then, simp, rule go_then, simp)
    (simp add: intr_acked_def irq_status_def)

lemma interrupt_run:
  "mynic_interrupt K H irq dev s =
    (if irq_status K H dev s AND TX_INTR H \<noteq> 0 then
       (case complete_loop H dev 0 (call (Skb (Spin_lock dev)) (intr_acked K H dev s)) of None \<Rightarrow> None
        | Some t \<Rightarrow> Some (IRQ_HANDLED, call (Net (Netif_wake_queue dev)) (call (Skb (Spin_unlock dev)) t)))
     else Some (IRQ_HANDLED, intr_acked K H dev s))"
  by (auto simp: mynic_interrupt_def intr_acked_def irq_status_def Let_def split: option.split)

lemma intr_points:
  assumes "mynic_interrupt K H irq dev s = Some (r, s')"
  shows "\<exists>n. nic_cpus K H dev (Intr # cs, False, s) (Intr_done (irq_status K H dev s) n # cs, False, s')"
proof (cases "irq_status K H dev s AND TX_INTR H = 0")
  case True
  let ?v = "irq_status K H dev s"
  have "nic_cpus K H dev (Intr_tx ?v # cs, False, intr_acked K H dev s) (Intr_done ?v 0 # cs, False, s')"
    using assms True by (intro go_then [where p = "Intr_tx ?v" and p' = "Intr_done ?v 0" and s' = s']) (simp_all add: interrupt_run)
  with intr_acks show ?thesis by (blast intro: rtranclp_trans)
next
  case False
  let ?v = "irq_status K H dev s"
  let ?l = "call (Skb (Spin_lock dev)) (intr_acked K H dev s)"
  from assms False obtain t where t: "complete_loop H dev 0 ?l = Some t"
    "s' = call (Net (Netif_wake_queue dev)) (call (Skb (Spin_unlock dev)) t)"
    by (auto simp: interrupt_run split: option.splits if_splits)
  obtain n where n: "nic_cpus K H dev (Intr_while ?v 0 # cs, True, ?l) (Intr_unlock ?v n # cs, True, t)"
    using loop_points [OF t(1)] by blast
  have "nic_cpus K H dev (Intr_unlock ?v n # cs, True, t) (Intr_done ?v n # cs, False, s')"
    by (rule give_then, simp, rule go_then, simp) (simp add: t(2))
  with n have "nic_cpus K H dev (Intr_while ?v 0 # cs, True, ?l) (Intr_done ?v n # cs, False, s')"
    by (rule rtranclp_trans)
  then have "nic_cpus K H dev (Intr_tx ?v # cs, False, intr_acked K H dev s) (Intr_done ?v n # cs, False, s')"
    by (intro go_then [where p = "Intr_tx ?v" and p' = "Intr_lock ?v"]
      take_then [where p = "Intr_lock ?v"]) (simp_all add: False)
  with intr_acks show ?thesis by (blast intro: rtranclp_trans)
qed

section \<open>Properties\<close>

text \<open>
  C25: \<open>mynic_start_xmit\<close> takes the lock with interrupts enabled, and the handler
  takes the same lock. The transmit path reaches the instant after \<open>spin_lock\<close>; from there, and from every
  other point at which it holds the lock, an interrupt whose status has the transmit bit leads to a
  configuration that is never left: the handler waits for the interrupted transmit path,
  which does not run before the handler returns. \<open>spin_lock_irqsave\<close> is what the
  transmit path needs.
\<close>

theorem nic_irq_deadlock:
  "nic_cpus K H dev ([Xmit_call skb], False, s) ([Xmit_slot skb], True, xmit_locked K H skb dev s) \<and>
   (\<forall>p t. nic_cpus K H dev ([Xmit_call skb], False, s) ([p], True, t) \<longrightarrow> irq_status K H dev t AND TX_INTR H \<noteq> 0 \<longrightarrow>
     (\<exists>x. nic_cpus K H dev ([Xmit_call skb], False, s) x \<and> wedged (nic_move K H dev) Intr x \<and> length (fst x) = 2))"
proof (intro conjI allI impI)
  show "nic_cpus K H dev ([Xmit_call skb], False, s) ([Xmit_slot skb], True, xmit_locked K H skb dev s)"
    by (rule xmit_locks)
  fix p t
  assume reach: "nic_cpus K H dev ([Xmit_call skb], False, s) ([p], True, t)" and tx: "irq_status K H dev t AND TX_INTR H \<noteq> 0"
  let ?v = "irq_status K H dev t" and ?u = "intr_acked K H dev t"
  have "nic_cpu K H dev ([p], True, t) ([Intr, p], True, t)" by (rule cpu_step.interrupt)
  moreover have "nic_cpus K H dev ([Intr, p], True, t) ([Intr_tx ?v, p], True, ?u)" by (rule intr_acks)
  moreover have "nic_cpu K H dev ([Intr_tx ?v, p], True, ?u) ([Intr_lock ?v, p], True, ?u)"
    using tx by (intro cpu_step.go) simp
  ultimately have "nic_cpus K H dev ([Xmit_call skb], False, s) ([Intr_lock ?v, p], True, ?u)"
    using reach by (meson rtranclp.rtrancl_into_rtrancl rtranclp_trans)
  moreover have "wedged (nic_move K H dev) Intr ([Intr_lock ?v, p], True, ?u)"
    by (rule spinning_handler_wedged) simp
  ultimately show "\<exists>x. nic_cpus K H dev ([Xmit_call skb], False, s) x \<and> wedged (nic_move K H dev) Intr x \<and> length (fst x) = 2"
    by force
qed

theorem nic_irq_deadlock_witness:
  "\<exists>x. cpu_steps (nic_move good_kernel (sample_hw 1 60) 1) Intr ([Xmit_call 7], False, nic_start) x \<and>
    wedged (nic_move good_kernel (sample_hw 1 60) 1) Intr x"
proof -
  have "irq_status good_kernel (sample_hw 1 60) 1 (xmit_locked good_kernel (sample_hw 1 60) 7 1 nic_start)
    AND TX_INTR (sample_hw 1 60) \<noteq> 0"
    by (simp add: xmit_locked_def irq_status_def sample_hw_def zero_mynic_priv_def)
  with nic_irq_deadlock [of good_kernel "sample_hw 1 60" 1 7 nic_start] show ?thesis by blast
qed

end
