(* ===== verification/Smp.thy ===== *)
theory Smp
  imports Preemption
begin

text \<open>
  Several processors with one spin lock between them, each running one context of the code.

  The locale \<open>critical_section\<close> is the discipline of a code with one critical section: outside it a
  context leaves the protected part of the state, its \<open>view\<close>, alone; inside, the change it has made to
  the view so far is a function of its program point. \<open>smp_serialises\<close> shows that under this
  discipline the sections take effect one after the other, and
  \<open>smp_no_deadlock\<close> that the processors never all wait.

  \<open>cpu_smp\<close> relates this machine to that of the theory \<open>Preemption\<close>: what one processor does when interrupted is
  something several processors could do.
\<close>

section \<open>The machine\<close>

type_synonym ('p, 's) smp = "'p list \<times> nat option \<times> 's"

inductive smp_step ::
    "('p \<Rightarrow> 's \<Rightarrow> ('p, 's) move option) \<Rightarrow> ('p, 's) smp \<Rightarrow> nat \<Rightarrow> ('p, 's) smp \<Rightarrow> bool"
  for step
where
  smp_go: "i < length ps \<Longrightarrow> step (ps ! i) s = Some (Go p' s') \<Longrightarrow>
    smp_step step (ps, w, s) i (ps[i := p'], w, s')"
| smp_take: "i < length ps \<Longrightarrow> step (ps ! i) s = Some (Take p' s') \<Longrightarrow>
    smp_step step (ps, None, s) i (ps[i := p'], Some i, s')"
| smp_give: "i < length ps \<Longrightarrow> step (ps ! i) s = Some (Give p' s') \<Longrightarrow>
    smp_step step (ps, Some i, s) i (ps[i := p'], None, s')"

inductive_cases smp_stepE: "smp_step step (ps, w, s) i y"

inductive smp_run ::
    "('p \<Rightarrow> 's \<Rightarrow> ('p, 's) move option) \<Rightarrow> ('p, 's) smp \<Rightarrow> nat list \<Rightarrow> ('p, 's) smp \<Rightarrow> bool"
  for step
where
  smp_start: "smp_run step x [] x"
| smp_more: "smp_run step x is y \<Longrightarrow> smp_step step y i z \<Longrightarrow> smp_run step x (is @ [i]) z"

text \<open>The executable form: the processors step in the order given.\<close>

definition smp_next ::
    "('p \<Rightarrow> 's \<Rightarrow> ('p, 's) move option) \<Rightarrow> nat \<Rightarrow> ('p, 's) smp \<Rightarrow> ('p, 's) smp option" where
  "smp_next step i y = (case y of (ps, w, s) \<Rightarrow>
     if i < length ps then (case step (ps ! i) s of
         None \<Rightarrow> None
       | Some (Go p' s') \<Rightarrow> Some (ps[i := p'], w, s')
       | Some (Take p' s') \<Rightarrow> if w = None then Some (ps[i := p'], Some i, s') else None
       | Some (Give p' s') \<Rightarrow> if w = Some i then Some (ps[i := p'], None, s') else None)
     else None)"

primrec smp_exec ::
    "('p \<Rightarrow> 's \<Rightarrow> ('p, 's) move option) \<Rightarrow> nat list \<Rightarrow> ('p, 's) smp \<Rightarrow> ('p, 's) smp option" where
  "smp_exec step [] y = Some y"
| "smp_exec step (i # is) y = (case smp_next step i y of None \<Rightarrow> None | Some z \<Rightarrow> smp_exec step is z)"

lemma smp_next_step: "smp_next step i y = Some z \<Longrightarrow> smp_step step y i z"
  by (auto simp: smp_next_def split: prod.splits if_splits option.splits move.splits intro: smp_step.intros)

lemma smp_run_Cons: "smp_run step y is z \<Longrightarrow> smp_step step x i y \<Longrightarrow> smp_run step x (i # is) z"
proof (induction rule: smp_run.induct)
  case (smp_start y)
  then show ?case using smp_more [OF smp_run.smp_start, of step x i y] by simp
next
  case (smp_more y "is" z j u)
  then show ?case using smp_run.smp_more [of step x "i # is" z j u] by simp
qed

lemma smp_exec_run: "smp_exec step is x = Some y \<Longrightarrow> smp_run step x is y"
  by (induction "is" arbitrary: x) (auto intro: smp_start smp_run_Cons smp_next_step split: option.splits)

lemma smp_step_length: "smp_step step y i z \<Longrightarrow> length (fst z) = length (fst y) \<and> i < length (fst y)"
  by (induction rule: smp_step.induct) simp_all

lemma smp_run_length: "smp_run step x is y \<Longrightarrow> length (fst y) = length (fst x)"
  by (induction rule: smp_run.induct) (auto dest: smp_step_length)

text \<open>A context that has not started yet makes no difference.\<close>

lemma smp_step_idle:
  "smp_step step x i y \<Longrightarrow> smp_step step (fst x @ [p], snd x) i (fst y @ [p], snd y)"
  by (induction rule: smp_step.induct)
    (auto simp: list_update_append1 nth_append intro!: smp_step.intros simp flip: list_update_append1)

lemma smp_run_idle:
  "smp_run step x is y \<Longrightarrow> smp_run step (fst x @ [p], snd x) is (fst y @ [p], snd y)"
  by (induction rule: smp_run.induct) (auto intro: smp_run.intros smp_step_idle)

section \<open>What every context knows\<close>

text \<open>
  A property of a program point and the state that the steps of the context itself establish and those of the
  others keep.
\<close>

fun move_point :: "('p, 's) move \<Rightarrow> 'p" where
  "move_point (Go p s) = p"
| "move_point (Take p s) = p"
| "move_point (Give p s) = p"

fun move_state :: "('p, 's) move \<Rightarrow> 's" where
  "move_state (Go p s) = s"
| "move_state (Take p s) = s"
| "move_state (Give p s) = s"

lemma smp_step_move:
  assumes "smp_step step (ps, w, s) i z"
  obtains m w' where "i < length ps" "step (ps ! i) s = Some m" "z = (ps[i := move_point m], w', move_state m)"
  using assms by (cases rule: smp_step.cases) (auto dest: that)

locale local_facts =
  fixes step :: "'p \<Rightarrow> 's \<Rightarrow> ('p, 's) move option"
    and J :: "nat \<Rightarrow> 'p \<Rightarrow> 's \<Rightarrow> bool"
  assumes own: "J i p s \<Longrightarrow> step p s = Some m \<Longrightarrow> J i (move_point m) (move_state m)"
    and others: "J i p s \<Longrightarrow> J j q s \<Longrightarrow> step q s = Some m \<Longrightarrow> J i p (move_state m)"
begin

lemma run_keeps:
  assumes "smp_run step x is y" and "\<And>i. i < length (fst x) \<Longrightarrow> J i (fst x ! i) (snd (snd x))"
  shows "\<forall>i<length (fst y). J i (fst y ! i) (snd (snd y))"
  using assms
proof (induction rule: smp_run.induct)
  case (smp_start x)
  then show ?case by blast
next
  case (smp_more x "is" y j z)
  obtain ps w s where y: "y = (ps, w, s)" by (cases y)
  from smp_more have J: "\<forall>i<length ps. J i (ps ! i) s" by (simp add: y)
  from smp_more.hyps(2) obtain m w' where m: "j < length ps" "step (ps ! j) s = Some m"
    "z = (ps[j := move_point m], w', move_state m)" unfolding y by (elim smp_step_move)
  show ?case
  proof (intro allI impI)
    fix i
    assume "i < length (fst z)"
    then show "J i (fst z ! i) (snd (snd z))"
      using J m own [of j "ps ! j" s m] others [of i "ps ! i" s j "ps ! j" m] by (cases "i = j") auto
  qed
qed

end

section \<open>The locking discipline\<close>

datatype phase = Before | Inside | After

locale critical_section =
  fixes step :: "'p \<Rightarrow> 's \<Rightarrow> ('p, 's) move option"
    and phase :: "'p \<Rightarrow> phase"
    and sofar :: "'p \<Rightarrow> 'v \<Rightarrow> 'v"
    and view :: "'s \<Rightarrow> 'v"
  assumes go_outside: "step p s = Some (Go p' s') \<Longrightarrow> phase p \<noteq> Inside \<Longrightarrow>
      view s' = view s \<and> phase p' \<noteq> Inside \<and> (phase p = After \<longrightarrow> phase p' = After) \<and> sofar p' = sofar p"
    and go_inside: "step p s = Some (Go p' s') \<Longrightarrow> phase p = Inside \<Longrightarrow>
      phase p' = Inside \<and> (view s = sofar p v \<longrightarrow> view s' = sofar p' v)"
    and taking: "step p s = Some (Take p' s') \<Longrightarrow>
      phase p = Before \<and> phase p' = Inside \<and> view s' = view s \<and> sofar p' = id"
    and giving: "step p s = Some (Give p' s') \<Longrightarrow>
      phase p = Inside \<and> phase p' = After \<and> view s' = view s \<and> sofar p' = sofar p"
    and before: "phase p = Before \<Longrightarrow> sofar p = id"
    and finished: "step p s = None \<Longrightarrow> phase p = After \<and> step p t = None"
begin

text \<open>
  The state of a run: \<open>L\<close> is an order of the contexts that are past their beginning, the one inside its section the last,
  in which their changes give the view.
\<close>

definition serial :: "'v \<Rightarrow> nat list \<Rightarrow> ('p, 's) smp \<Rightarrow> bool" where
  "serial v0 L y \<longleftrightarrow> (case y of (ps, w, t) \<Rightarrow>
     (\<forall>i<length ps. phase (ps ! i) = Inside \<longleftrightarrow> w = Some i) \<and>
     distinct L \<and> set L = {i. i < length ps \<and> phase (ps ! i) \<noteq> Before} \<and>
     (\<forall>i. w = Some i \<longrightarrow> i < length ps \<and> L \<noteq> [] \<and> last L = i) \<and>
     view t = fold (\<lambda>i. sofar (ps ! i)) L v0)"

lemma fold_update_other:
  "i \<notin> set L \<Longrightarrow> fold (\<lambda>j. sofar (ps[i := p] ! j)) L v = fold (\<lambda>j. sofar (ps ! j)) L v"
  by (rule fold_cong) (metis nth_list_update_neq)+

lemma fold_update_same:
  "sofar p = sofar (ps ! i) \<Longrightarrow> fold (\<lambda>j. sofar (ps[i := p] ! j)) L v = fold (\<lambda>j. sofar (ps ! j)) L v"
  by (rule fold_cong) (metis list_update_beyond linorder_not_less nth_list_update_eq nth_list_update_neq)+

lemma serial_go:
  assumes ser: "serial v0 L (ps, w, t)" and i: "i < length ps" "step (ps ! i) t = Some (Go p' t')"
  shows "\<exists>L'. serial v0 L' (ps[i := p'], w, t')"
proof (cases "phase (ps ! i) = Inside")
  case True
  with ser i have w: "w = Some i" by (simp add: serial_def)
  with ser have "L \<noteq> []" "last L = i" by (simp_all add: serial_def)
  then obtain L1 where L: "L = L1 @ [i]" by (metis append_butlast_last_id)
  note in' = go_inside [OF i(2) True]
  from ser have "i \<notin> set L1" "view t = sofar (ps ! i) (fold (\<lambda>i. sofar (ps ! i)) L1 v0)"
    by (auto simp: serial_def L)
  with in' have "view t' = fold (\<lambda>j. sofar (ps[i := p'] ! j)) L v0"
    by (simp add: L fold_update_other i)
  with ser i in' w True have "serial v0 L (ps[i := p'], w, t')"
    by (auto simp: serial_def nth_list_update)
  then show ?thesis by blast
next
  case False
  note out = go_outside [OF i(2) False]
  have eff: "fold (\<lambda>j. sofar (ps[i := p'] ! j)) L v0 = fold (\<lambda>j. sofar (ps ! j)) L v0"
    using out by (simp add: fold_update_same)
  show ?thesis
  proof (cases "phase (ps ! i) = Before \<and> phase p' = After")
    case True
    with ser i have "i \<notin> set L" by (simp add: serial_def)
    moreover have "sofar p' = id" using out True before by metis
    ultimately have "serial v0 (i # L) (ps[i := p'], w, t')"
      using ser i out True eff False by (auto simp: serial_def nth_list_update)
    then show ?thesis by blast
  next
    case keep: False
    with out False have "phase p' = phase (ps ! i)" by (cases "phase (ps ! i)"; cases "phase p'") auto
    with ser i out eff False have "serial v0 L (ps[i := p'], w, t')"
      by (auto simp: serial_def nth_list_update)
    then show ?thesis by blast
  qed
qed

lemma serial_take:
  assumes ser: "serial v0 L (ps, None, t)" and i: "i < length ps" "step (ps ! i) t = Some (Take p' t')"
  shows "serial v0 (L @ [i]) (ps[i := p'], Some i, t')"
proof -
  note tk = taking [OF i(2)]
  with ser i have "i \<notin> set L" by (simp add: serial_def)
  from fold_update_other [OF this, of ps p' v0] ser i tk this show ?thesis
    unfolding serial_def prod.case by (auto simp: nth_list_update)
qed

lemma serial_give:
  assumes ser: "serial v0 L (ps, Some i, t)" and i: "i < length ps" "step (ps ! i) t = Some (Give p' t')"
  shows "serial v0 L (ps[i := p'], None, t')"
proof -
  note gv = giving [OF i(2)]
  then have "fold (\<lambda>j. sofar (ps[i := p'] ! j)) L v0 = fold (\<lambda>j. sofar (ps ! j)) L v0"
    by (simp add: fold_update_same)
  with ser i gv show ?thesis by (auto simp: serial_def nth_list_update)
qed

lemma serial_step:
  assumes ser: "serial v0 L y" and stp: "smp_step step y i z"
  shows "\<exists>L'. serial v0 L' z"
  using stp
proof (cases rule: smp_step.cases)
  case (smp_go ps s p' s' w)
  with ser serial_go show ?thesis by blast
next
  case (smp_take ps s p' s')
  with ser serial_take show ?thesis by blast
next
  case (smp_give ps s p' s')
  with ser serial_give show ?thesis by blast
qed

lemma smp_run_serial:
  assumes "smp_run step (ps, None, s) is y" and "\<forall>p\<in>set ps. phase p = Before"
  shows "\<exists>L. serial (view s) L y"
  using assms
proof (induction "(ps, None :: nat option, s)" "is" y rule: smp_run.induct)
  case smp_start
  then have "serial (view s) [] (ps, None, s)" by (auto simp: serial_def)
  then show ?case by blast
next
  case (smp_more "is" y i z)
  then show ?case using serial_step by blast
qed

text \<open>When all contexts are past their sections, these have taken effect one by one.\<close>

lemma smp_serialises:
  assumes run: "smp_run step (ps, None, s) is (ps', w, t)" and start: "\<forall>p\<in>set ps. phase p = Before"
    and thru: "\<forall>p\<in>set ps'. phase p = After"
  shows "w = None \<and> (\<exists>L. distinct L \<and> set L = {..<length ps'} \<and> view t = fold (\<lambda>i. sofar (ps' ! i)) L (view s))"
proof -
  obtain L where ser: "serial (view s) L (ps', w, t)" using smp_run_serial [OF run start] by blast
  have "w = None" using ser thru by (cases w) (force simp: serial_def)+
  moreover have "set L = {..<length ps'}" using ser thru by (force simp: serial_def)
  ultimately show ?thesis using ser by (auto simp: serial_def)
qed

text \<open>Some processor can always go on.\<close>

lemma smp_no_deadlock:
  assumes run: "smp_run step (ps, None, s) is (ps', w, t)" and start: "\<forall>p\<in>set ps. phase p = Before"
    and more: "\<exists>p\<in>set ps'. step p t \<noteq> None"
  shows "\<exists>i z. smp_step step (ps', w, t) i z"
proof -
  obtain L where ser: "serial (view s) L (ps', w, t)" using smp_run_serial [OF run start] by blast
  obtain i where i: "i < length ps'" "step (ps' ! i) t \<noteq> None" "w = None \<or> w = Some i"
  proof (cases w)
    case None
    then show thesis using that more by (auto simp: in_set_conv_nth)
  next
    case (Some i)
    then have i: "i < length ps'" "phase (ps' ! i) = Inside" using ser by (auto simp: serial_def)
    have "step (ps' ! i) t \<noteq> None"
    proof
      assume "step (ps' ! i) t = None"
      from finished [OF this, of t] i show False by simp
    qed
    with i Some show thesis using that by blast
  qed
  have own: "phase (ps' ! i) = Inside \<longleftrightarrow> w = Some i" using ser i by (auto simp: serial_def)
  obtain m where m: "step (ps' ! i) t = Some m" using i(2) by blast
  show ?thesis
  proof (cases m)
    case (Go p s)
    with m have "step (ps' ! i) t = Some (Go p s)" by simp
    from smp_go [where step = step, OF i(1) this] show ?thesis by blast
  next
    case (Take p s)
    with m have t: "step (ps' ! i) t = Some (Take p s)" by simp
    with own i(3) have "w = None" by (auto dest: taking)
    with smp_take [where step = step, OF i(1) t] show ?thesis by blast
  next
    case (Give p s)
    with m have g: "step (ps' ! i) t = Some (Give p s)" by simp
    with own have "w = Some i" by (auto dest: giving)
    with smp_give [where step = step, OF i(1) g] show ?thesis by blast
  qed
qed

section \<open>One processor as several\<close>

text \<open>
  The interrupted context as the first processor, each handler run as one more: the handlers that
  have returned, then the one that runs.
\<close>

definition mirrors :: "'p \<Rightarrow> 'p \<Rightarrow> 's \<Rightarrow> ('p, 's) cpu \<Rightarrow> bool" where
  "mirrors h p0 s0 x \<longleftrightarrow> (case x of (cs, b, t) \<Rightarrow> \<exists>k hs is w p.
     smp_run step (p0 # replicate k h, None, s0) is (p # hs, w, t) \<and> (b \<longleftrightarrow> w \<noteq> None) \<and>
     (cs = [p] \<and> (\<forall>q\<in>set hs. step q t = None) \<or>
      (\<exists>hs' q. hs = hs' @ [q] \<and> cs = [q, p] \<and> (\<forall>q\<in>set hs'. step q t = None))))"

text \<open>The one that gives the lock back is the one that has it.\<close>

lemma giver_owns:
  assumes "smp_run step (ps, None, s) is (ps', w, t)" and "\<forall>p\<in>set ps. phase p = Before"
    and "i < length ps'" and "step (ps' ! i) t = Some (Give p' t')"
  shows "w = Some i"
  using smp_run_serial [OF assms(1,2)] assms(3) giving [OF assms(4)] by (auto simp: serial_def)

text \<open>A step of the running context is a step of its processor, or waiting.\<close>

lemma running_step:
  assumes run: "smp_run step (ps0, None, s0) is (ps, w, t)" and bef: "\<forall>p\<in>set ps0. phase p = Before"
    and i: "i < length ps" and m: "step (ps ! i) t = Some m"
    and x: "cpu_step step h (ps ! i # cs, w \<noteq> None, t) x" "cs = [] \<Longrightarrow> x \<noteq> ([h, ps ! i], w \<noteq> None, t)"
  shows "x = (ps ! i # cs, w \<noteq> None, t) \<or> (\<exists>p' w' t'. x = (p' # cs, w' \<noteq> None, t') \<and>
    smp_run step (ps0, None, s0) (is @ [i]) (ps[i := p'], w', t'))"
proof (cases m)
  case (Go p' t')
  have "smp_run step (ps0, None, s0) (is @ [i]) (ps[i := p'], w, t')"
    by (rule smp_more [OF run smp_go [where step = step, OF i m [unfolded Go]]])
  moreover have "x = (p' # cs, w \<noteq> None, t')"
    using x m Go by (auto elim: cpu_step.cases)
  ultimately show ?thesis by blast
next
  case (Take p' t')
  show ?thesis
  proof (cases w)
    case None
    have "smp_run step (ps0, None, s0) (is @ [i]) (ps[i := p'], Some i, t')"
      by (rule smp_more [OF run [unfolded None] smp_take [where step = step, OF i m [unfolded Take]]])
    moreover have "x = (p' # cs, True, t')"
      using x m Take None by (auto elim: cpu_step.cases)
    ultimately show ?thesis by blast
  next
    case (Some j)
    have "x = (ps ! i # cs, True, t)" using x m Take Some by (auto elim: cpu_step.cases)
    then show ?thesis using Some by simp
  qed
next
  case (Give p' t')
  have w: "w = Some i" by (rule giver_owns [OF run bef i m [unfolded Give]])
  have "smp_run step (ps0, None, s0) (is @ [i]) (ps[i := p'], None, t')"
    by (rule smp_more [OF run [unfolded w] smp_give [where step = step, OF i m [unfolded Give]]])
  moreover have "x = (p' # cs, False, t')"
    using x m Give by (auto elim: cpu_step.cases)
  ultimately show ?thesis by blast
qed

lemma mirrors_step:
  assumes mir: "mirrors h p0 s0 x" and x: "cpu_step step h x y" and bef: "phase p0 = Before" "phase h = Before"
  shows "mirrors h p0 s0 y"
proof -
  obtain cs b t where xx: "x = (cs, b, t)" by (cases x)
  from mir obtain k hs "is" w p where run: "smp_run step (p0 # replicate k h, None, s0) is (p # hs, w, t)"
    and b: "b = (w \<noteq> None)" and cs: "cs = [p] \<and> (\<forall>q\<in>set hs. step q t = None) \<or>
      (\<exists>hs' q. hs = hs' @ [q] \<and> cs = [q, p] \<and> (\<forall>q\<in>set hs'. step q t = None))"
    by (auto simp: xx mirrors_def)
  have bef': "\<forall>p\<in>set (p0 # replicate k h). phase p = Before" using bef by simp
  have stays: "\<forall>q\<in>set hs'. step q s = None" if "\<forall>q\<in>set hs'. step q t = None" for hs' s
    using that finished by blast
  from cs show ?thesis
  proof (elim disjE exE conjE)
    assume c: "cs = [p]" "\<forall>q\<in>set hs. step q t = None"
    show ?thesis
    proof (cases "y = ([h, p], b, t)")
      case True
      have "p0 # replicate (Suc k) h = (p0 # replicate k h) @ [h]" by (simp add: replicate_append_same)
      with smp_run_idle [OF run, of h] have "smp_run step (p0 # replicate (Suc k) h, None, s0) is (p # hs @ [h], w, t)"
        by simp
      with True b c(2) show ?thesis unfolding mirrors_def by blast
    next
      case False
      then obtain m where "step p t = Some m" using x unfolding xx c(1) by (auto elim: cpu_step.cases)
      with running_step [OF run bef', of 0 m h "[]" y] x False b c(1) xx
      have "y = x \<or> (\<exists>p' w' t'. y = ([p'], w' \<noteq> None, t') \<and>
          smp_run step (p0 # replicate k h, None, s0) (is @ [0]) (p' # hs, w', t'))" by simp
      with mir stays [OF c(2)] show ?thesis unfolding mirrors_def by blast
    qed
  next
    fix hs' q
    assume c: "hs = hs' @ [q]" "cs = [q, p]" "\<forall>q\<in>set hs'. step q t = None"
    let ?i = "Suc (length hs')"
    show ?thesis
    proof (cases "step q t")
      case None
      then have "y = ([p], b, t)" using x unfolding xx c(2) by (auto elim: cpu_step.cases)
      moreover have "\<forall>q\<in>set hs. step q t = None" using None c by auto
      ultimately show ?thesis using run b unfolding mirrors_def by blast
    next
      case (Some m)
      have q: "(p # hs) ! ?i = q" "?i < length (p # hs)" by (simp_all add: c(1) nth_append)
      with running_step [OF run bef' q(2) Some [folded q(1)], of h "[p]" y] x b xx
      have "y = x \<or> (\<exists>q' w' t'. y = ([q', p], w' \<noteq> None, t') \<and>
          smp_run step (p0 # replicate k h, None, s0) (is @ [?i]) (p # hs' @ [q'], w', t'))"
        unfolding q(1) by (simp add: c list_update_append)
      with mir stays [OF c(3)] show ?thesis unfolding mirrors_def by blast
    qed
  qed
qed

lemma cpu_smp:
  assumes "cpu_steps step h ([p0], False, s0) x" and "phase p0 = Before" and "phase h = Before"
  shows "mirrors h p0 s0 x"
  using assms
proof (induction rule: rtranclp_induct)
  case base
  have "smp_run step (p0 # replicate 0 h, None, s0) [] ([p0], None, s0)" by (simp add: smp_start)
  then show ?case unfolding mirrors_def by fastforce
next
  case (step x y)
  then show ?case using mirrors_step by blast
qed

end

end
