(* ===== verification/Nic_Smp.thy ===== *)
theory Nic_Smp
  imports Nic_Locking Smp "HOL-Library.Sublist"
begin

text \<open>
  The lock of \<open>nic.c\<close> between processors: any number of them, each in \<open>mynic_start_xmit\<close> or in
  \<open>mynic_interrupt\<close>, interleaved at every point of the theory \<open>Nic_Locking\<close>; and one processor whose transmit path is
  interrupted anywhere.

  The protected view is the transmit ring with its two indices and the packets freed. Shown: the
  ring ends up as if the functions \<open>mynic_start_xmit\<close> and \<open>mynic_interrupt\<close> of the theory \<open>Nic\<close> had run one after the
  other, each handler with the status it read and the number of packets the hardware reported to
  it, and the processors never all wait. (On one processor the lock is not enough, see
  \<open>nic_irq_deadlock\<close>.)
\<close>

unbundle bit_operations_syntax

section \<open>The functions one after the other\<close>

text \<open>
  The call a context that is through has made, run as a whole: the kernel answers the status read
  with \<open>v\<close>, and the hardware reports \<open>n\<close> packets.
\<close>

definition with_status :: "linux \<Rightarrow> u32 \<Rightarrow> linux" where
  "with_status K v = K\<lparr>k_u64 := \<lambda>l c. case c of Io (Readl a) \<Rightarrow> ucast v | _ \<Rightarrow> k_u64 K l c\<rparr>"

fun serial_call :: "linux \<Rightarrow> nic_hw \<Rightarrow> ptr \<Rightarrow> nic_pc \<Rightarrow> nic_state \<Rightarrow> nic_state option" where
  "serial_call K H dev (Xmit_done skb) s = Some (exec (mynic_start_xmit K H skb dev) s)"
| "serial_call K H dev (Intr_done v n) s = map_option snd
     (mynic_interrupt (with_status K v) (H\<lparr>hw_tx_sent := \<lambda>l i. i < n\<rparr>) (pdev_irq K (priv_pdev (nics s dev))) dev s)"
| "serial_call K H dev p s = None"

primrec serial_calls :: "linux \<Rightarrow> nic_hw \<Rightarrow> ptr \<Rightarrow> nic_pc list \<Rightarrow> nic_state \<Rightarrow> nic_state option" where
  "serial_calls K H dev [] s = Some s"
| "serial_calls K H dev (p # ps) s = (case serial_call K H dev p s of
     None \<Rightarrow> None | Some s' \<Rightarrow> serial_calls K H dev ps s')"

section \<open>What they do to the ring\<close>

type_synonym tx_view = "ptr list \<times> nat \<times> nat \<times> ptr list"

definition tx_view :: "ptr \<Rightarrow> nic_state \<Rightarrow> tx_view" where
  "tx_view dev s = (tx_skbuff (nics s dev), tx_head (nics s dev), tx_tail (nics s dev), freed_skbs (klog s))"

definition fill_slot :: "ptr \<Rightarrow> tx_view \<Rightarrow> tx_view" where
  "fill_slot skb v = (case v of (ring, h, t, fr) \<Rightarrow> (ring[h := skb], h, t, fr))"

definition put_skb :: "ptr \<Rightarrow> tx_view \<Rightarrow> tx_view" where
  "put_skb skb v = (case v of (ring, h, t, fr) \<Rightarrow> (ring[h := skb], (h + 1) mod MYNIC_TX_RING_SIZE, t, fr))"

definition complete_skb :: "tx_view \<Rightarrow> tx_view" where
  "complete_skb v = (case v of (ring, h, t, fr) \<Rightarrow>
     let skb = ring ! t; t' = (t + 1) mod MYNIC_TX_RING_SIZE in
     if skb \<noteq> NULL then (ring[t := NULL], h, t', fr @ [skb]) else (ring, h, t', fr))"

lemma xmit_view: "tx_view dev (exec (mynic_start_xmit K H skb dev) s) = put_skb skb (tx_view dev s)"
  by (simp add: tx_view_def put_skb_def mynic_start_xmit_def set_nic_def)

lemma complete_view: "tx_view dev (exec (complete_one H dev) s) = complete_skb (tx_view dev s)"
  by (simp add: tx_view_def complete_skb_def complete_one_def set_nic_def Let_def)

lemma complete_rounds_view:
  "tx_view dev ((exec (complete_one H dev) ^^ n) s) = (complete_skb ^^ n) (tx_view dev s)"
  by (induction n) (simp_all add: complete_view)

lemma view_log [simp]: "freed_skbs es = [] \<Longrightarrow> tx_view dev (s\<lparr>klog := klog s @ es\<rparr>) = tx_view dev s"
  by (simp add: tx_view_def)

lemma acked_view [simp]: "tx_view dev (intr_acked K H dev s) = tx_view dev s"
  by (simp add: intr_acked_def tx_view_def)

lemma with_status_read [simp]: "irq_status (with_status K v) H dev s = v"
  by (simp add: with_status_def irq_status_def) (simp add: ucast_up_ucast_id is_up)

lemma interrupt_view:
  "\<exists>s'. serial_call K H dev (Intr_done v n) s = Some s' \<and>
     tx_view dev s' = (complete_skb ^^ (if v AND TX_INTR H \<noteq> 0 then n else 0)) (tx_view dev s)"
proof -
  let ?H = "H\<lparr>hw_tx_sent := \<lambda>l i. i < n\<rparr>"
  have "hw_reports ?H n" by (simp add: hw_reports_def)
  from complete_loop_rounds [OF le_refl this, of dev] show ?thesis
    by (simp add: interrupt_run complete_rounds_view)
qed

section \<open>They keep to the locking discipline\<close>

fun nic_phase :: "nic_pc \<Rightarrow> phase" where
  "nic_phase (Xmit_call skb) = Before"
| "nic_phase (Xmit_lock skb) = Before"
| "nic_phase (Xmit_done skb) = After"
| "nic_phase Intr = Before"
| "nic_phase (Intr_ack v) = Before"
| "nic_phase (Intr_rx v) = Before"
| "nic_phase (Intr_tx v) = Before"
| "nic_phase (Intr_lock v) = Before"
| "nic_phase (Intr_wake v n) = After"
| "nic_phase (Intr_done v n) = After"
| "nic_phase p = Inside"

fun nic_sofar :: "nic_pc \<Rightarrow> tx_view \<Rightarrow> tx_view" where
  "nic_sofar (Xmit_head skb) = fill_slot skb"
| "nic_sofar (Xmit_kick skb) = put_skb skb"
| "nic_sofar (Xmit_unlock skb) = put_skb skb"
| "nic_sofar (Xmit_done skb) = put_skb skb"
| "nic_sofar (Intr_while v n) = complete_skb ^^ n"
| "nic_sofar (Intr_body v n) = complete_skb ^^ n"
| "nic_sofar (Intr_unlock v n) = complete_skb ^^ n"
| "nic_sofar (Intr_wake v n) = complete_skb ^^ n"
| "nic_sofar (Intr_done v n) = complete_skb ^^ n"
| "nic_sofar p = id"

lemma slot_view:
  "tx_view dev (exec (set_nic dev (\<lambda>d. d\<lparr>tx_skbuff := (tx_skbuff d)[tx_head d := skb]\<rparr>)) s) = fill_slot skb (tx_view dev s)"
  by (simp add: tx_view_def fill_slot_def set_nic_def)

lemma head_view:
  "tx_view dev s = fill_slot skb v \<Longrightarrow>
   tx_view dev (exec (set_nic dev (\<lambda>d. d\<lparr>tx_head := Suc (tx_head d) mod MYNIC_TX_RING_SIZE\<rparr>)) s) = put_skb skb v"
  by (auto simp: tx_view_def fill_slot_def put_skb_def set_nic_def split: prod.splits)

interpretation nic_lock: critical_section "nic_move K H dev" nic_phase nic_sofar "tx_view dev"
  for K H dev
proof (unfold_locales, goal_cases)
  case (1 p s p' s')
  then show ?case by (cases p) (auto split: if_splits)
next
  case (2 p s p' s' v)
  then show ?case by (cases p) (auto simp: slot_view head_view complete_view split: if_splits)
next
  case (3 p s p' s')
  then show ?case by (cases p) (auto simp: id_def)
next
  case (4 p s p' s')
  then show ?case by (cases p) auto
next
  case (5 p)
  then show ?case by (cases p) auto
next
  case (6 p s t)
  then show ?case by (cases p) auto
qed

section \<open>What the handlers were told\<close>

text \<open>
  \<open>status_read\<close>: \<open>v\<close> is what the kernel answered when the status register at \<open>a\<close> was read.
  \<open>told\<close>: at some moment of the history the hardware gave the answer \<open>b\<close> to test number \<open>k\<close> of the loop.
\<close>

definition status_read :: "linux \<Rightarrow> ptr \<Rightarrow> kevent list \<Rightarrow> u32 \<Rightarrow> bool" where
  "status_read K a l v \<longleftrightarrow> (\<exists>l'. prefix (l' @ [(Io (Readl a), RU64 (k_u64 K l' (Io (Readl a))))]) l \<and>
     v = ucast (k_u64 K l' (Io (Readl a))))"

definition told :: "nic_hw \<Rightarrow> kevent list \<Rightarrow> nat \<Rightarrow> bool \<Rightarrow> bool" where
  "told H l k b \<longleftrightarrow> (\<exists>l'. prefix l' l \<and> hw_tx_sent H l' k = b)"

text \<open>
  What a handler that is through has done: the status is the one it read; without the transmit bit it has
  completed nothing; with the transmit bit it has gone on as long as the hardware reported packets, and no longer.
\<close>

definition intr_outcome :: "linux \<Rightarrow> nic_hw \<Rightarrow> ptr \<Rightarrow> kevent list \<Rightarrow> u32 \<Rightarrow> nat \<Rightarrow> bool" where
  "intr_outcome K H a l v n \<longleftrightarrow> status_read K a l v \<and>
     (if v AND TX_INTR H \<noteq> 0 then (\<forall>k<n. told H l k True) \<and> told H l n False else n = 0)"

text \<open>The call a context is in, and what it knows of the history.\<close>

fun nic_fact :: "linux \<Rightarrow> nic_hw \<Rightarrow> ptr \<Rightarrow> nic_pc \<Rightarrow> nic_pc \<Rightarrow> kevent list \<Rightarrow> bool" where
  "nic_fact K H a p0 (Intr_ack v) l = (p0 = Intr \<and> status_read K a l v)"
| "nic_fact K H a p0 (Intr_rx v) l = (p0 = Intr \<and> status_read K a l v)"
| "nic_fact K H a p0 (Intr_tx v) l = (p0 = Intr \<and> status_read K a l v)"
| "nic_fact K H a p0 (Intr_lock v) l = (p0 = Intr \<and> status_read K a l v \<and> v AND TX_INTR H \<noteq> 0)"
| "nic_fact K H a p0 (Intr_while v n) l =
     (p0 = Intr \<and> status_read K a l v \<and> v AND TX_INTR H \<noteq> 0 \<and> (\<forall>k<n. told H l k True))"
| "nic_fact K H a p0 (Intr_body v n) l =
     (p0 = Intr \<and> status_read K a l v \<and> v AND TX_INTR H \<noteq> 0 \<and> (\<forall>k<Suc n. told H l k True))"
| "nic_fact K H a p0 (Intr_unlock v n) l = (p0 = Intr \<and> v AND TX_INTR H \<noteq> 0 \<and> intr_outcome K H a l v n)"
| "nic_fact K H a p0 (Intr_wake v n) l = (p0 = Intr \<and> v AND TX_INTR H \<noteq> 0 \<and> intr_outcome K H a l v n)"
| "nic_fact K H a p0 (Intr_done v n) l = (p0 = Intr \<and> intr_outcome K H a l v n)"
| "nic_fact K H a p0 Intr l = (p0 = Intr)"
| "nic_fact K H a p0 (Xmit_call skb) l = (p0 = Xmit_call skb)"
| "nic_fact K H a p0 (Xmit_lock skb) l = (p0 = Xmit_call skb)"
| "nic_fact K H a p0 (Xmit_slot skb) l = (p0 = Xmit_call skb)"
| "nic_fact K H a p0 (Xmit_head skb) l = (p0 = Xmit_call skb)"
| "nic_fact K H a p0 (Xmit_kick skb) l = (p0 = Xmit_call skb)"
| "nic_fact K H a p0 (Xmit_unlock skb) l = (p0 = Xmit_call skb)"
| "nic_fact K H a p0 (Xmit_done skb) l = (p0 = Xmit_call skb)"

lemma told_mono: "told H l k b \<Longrightarrow> prefix l l' \<Longrightarrow> told H l' k b"
  unfolding told_def using prefix_order.trans by blast

lemma status_mono: "status_read K a l v \<Longrightarrow> prefix l l' \<Longrightarrow> status_read K a l' v"
  unfolding status_read_def using prefix_order.trans by blast

lemma fact_mono: "nic_fact K H a p0 p l \<Longrightarrow> prefix l l' \<Longrightarrow> nic_fact K H a p0 p l'"
  by (cases p) (auto simp: intr_outcome_def intro: told_mono status_mono split: if_splits)

lemma told_now: "told H l k (hw_tx_sent H l k)"
  unfolding told_def by blast

lemma complete_one_frame:
  "mmio (nics (exec (complete_one H dev) s) dev) = mmio (nics s dev) \<and> prefix (klog s) (klog (exec (complete_one H dev) s))"
  by (simp add: complete_one_def set_nic_def Let_def)

lemma nic_move_frame:
  "nic_move K H dev p s = Some m \<Longrightarrow>
   mmio (nics (move_state m) dev) = mmio (nics s dev) \<and> prefix (klog s) (klog (move_state m))"
  by (cases p) (auto simp: complete_one_frame set_nic_def)

lemma nic_move_fact:
  assumes "nic_move K H dev p s = Some m" and "nic_fact K H a p0 p (klog s)" and "a = mmio (nics s dev) + INTR_STATUS_REG H"
  shows "nic_fact K H a p0 (move_point m) (klog (move_state m))"
proof -
  have mono: "told H (klog s) k b \<Longrightarrow> told H (klog (move_state m)) k b"
    "status_read K a (klog s) v \<Longrightarrow> status_read K a (klog (move_state m)) v" for k b v
    using nic_move_frame [OF assms(1)] told_mono status_mono by blast+
  show ?thesis
    using assms(1,2)
  proof (cases p)
    case Intr
    then show ?thesis using assms by (auto simp: status_read_def irq_status_def)
  next
    case (Intr_while v n)
    then show ?thesis using assms told_now [of H "klog s" n] by (auto simp: intr_outcome_def less_Suc_eq)
  qed (use mono in \<open>auto simp: intr_outcome_def set_nic_def split: if_splits\<close>)
qed

interpretation nic_facts: local_facts "nic_move K H dev"
  "\<lambda>i p s. a = mmio (nics s dev) + INTR_STATUS_REG H \<and> nic_fact K H a (ps ! i) p (klog s)"
  for K H dev a ps
proof (unfold_locales, goal_cases)
  case (1 i p s m)
  then show ?case using nic_move_frame [of K H dev p s m] nic_move_fact [of K H dev p s m a "ps ! i"] by auto
next
  case (2 i p s j q m)
  then show ?case using nic_move_frame [of K H dev q s m] fact_mono [of K H a "ps ! i" p "klog s"] by auto
qed

section \<open>How long a run is\<close>






section \<open>Properties\<close>

text \<open>The calls of contexts that are through, one after the other.\<close>

lemma serial_call_view:
  assumes "nic_done p" and "nic_fact K H a p0 p l"
  shows "\<exists>s'. serial_call K H dev p s = Some s' \<and> tx_view dev s' = nic_sofar p (tx_view dev s)"
proof (cases p)
  case (Xmit_done skb)
  then show ?thesis by (simp add: xmit_view)
next
  case (Intr_done v n)
  with assms(2) have "(if v AND TX_INTR H \<noteq> 0 then n else 0) = n" by (auto simp: intr_outcome_def)
  with interrupt_view [of K H dev v n s] Intr_done show ?thesis by (simp del: serial_call.simps)
qed (use assms in \<open>simp_all add: nic_done_def\<close>)

lemma serial_calls_view:
  "\<forall>p\<in>set ps. nic_done p \<and> (\<exists>p0. nic_fact K H a p0 p l) \<Longrightarrow>
   \<exists>s'. serial_calls K H dev ps s = Some s' \<and> tx_view dev s' = fold nic_sofar ps (tx_view dev s)"
proof (induction ps arbitrary: s)
  case Nil
  then show ?case by simp
next
  case (Cons p ps)
  then obtain p0 where "nic_done p" "nic_fact K H a p0 p l" by auto
  from serial_call_view [OF this, of dev s] obtain s1 where
    "serial_call K H dev p s = Some s1" "tx_view dev s1 = nic_sofar p (tx_view dev s)" by blast
  with Cons.IH [of s1] Cons.prems show ?case by simp
qed

text \<open>The calls are at their first point to begin with.\<close>

definition nic_begin :: "nic_pc \<Rightarrow> bool" where
  "nic_begin p \<longleftrightarrow> p = Intr \<or> (\<exists>skb. p = Xmit_call skb)"

lemma nic_done_phase: "nic_done p \<Longrightarrow> nic_phase p = After"
  by (cases p) (simp_all add: nic_done_def)

lemma nic_begin_phase: "nic_begin p \<Longrightarrow> nic_phase p = Before"
  by (auto simp: nic_begin_def)

lemma nic_run_facts:
  assumes "smp_run (nic_move K H dev) (ps, None, s) is (ps', w, t)" and "\<forall>p\<in>set ps. nic_begin p"
    and "a = mmio (nics s dev) + INTR_STATUS_REG H" and "i < length ps"
  shows "nic_fact K H a (ps ! i) (ps' ! i) (klog t)"
proof -
  have "nic_fact K H a (ps ! i) (ps ! i) (klog s)" if "i < length ps" for i
    using assms(2) nth_mem [OF that] by (auto simp: nic_begin_def)
  with nic_facts.run_keeps [OF assms(1), of a ps] assms(3)
  have "\<forall>i<length ps'. nic_fact K H a (ps ! i) (ps' ! i) (klog t)" by (metis fst_conv snd_conv)
  with smp_run_length [OF assms(1)] assms(4) show ?thesis by simp
qed

lemma nic_run_serial:
  assumes run: "smp_run (nic_move K H dev) (ps, None, s) is (ps', w, t)" and start: "\<forall>p\<in>set ps. nic_begin p"
    and thru: "\<forall>p\<in>set ps'. nic_done p"
  shows "w = None \<and> (\<exists>L s'. distinct L \<and> set L = {..<length ps} \<and>
    serial_calls K H dev (map ((!) ps') L) s = Some s' \<and> tx_view dev s' = tx_view dev t)"
proof -
  have len: "length ps' = length ps" using smp_run_length [OF run] by simp
  have "\<forall>p\<in>set ps. nic_phase p = Before" "\<forall>p\<in>set ps'. nic_phase p = After"
    using start thru nic_begin_phase nic_done_phase by blast+
  from nic_lock.smp_serialises [OF run this] obtain L where L: "w = None" "distinct L" "set L = {..<length ps}"
    "tx_view dev t = fold (\<lambda>i. nic_sofar (ps' ! i)) L (tx_view dev s)" using len by auto
  have "\<forall>p\<in>set (map ((!) ps') L). nic_done p \<and>
      (\<exists>p0. nic_fact K H (mmio (nics s dev) + INTR_STATUS_REG H) p0 p (klog t))"
    using thru L(3) len nic_run_facts [OF run start refl] by auto
  from serial_calls_view [OF this, of dev s] L show ?thesis by (auto simp: fold_map comp_def)
qed




text \<open>
  C17: on one processor, where the handler may interrupt the transmit path between any two of its steps, a
  transmission that comes to its end has given the lock back and leaves the ring, its indices and the list
  of packets freed as \<open>mynic_start_xmit\<close> and some runs of \<open>mynic_interrupt\<close> before and after it leave them,
  each with the status its handler read and the completions the hardware reported to it. (A
  handler that finds no transmit bit may run inside the critical section; it does not touch the ring. One
  that finds it there never returns, see \<open>nic_irq_deadlock\<close>.)
\<close>

theorem nic_interrupted_xmit:
  assumes run: "nic_cpus K H dev ([Xmit_call skb], False, s) ([p], b, t)" and fin: "nic_done p"
  shows "p = Xmit_done skb \<and> \<not> b \<and> (\<exists>as bs s'.
    (\<forall>c\<in>set (as @ bs). \<exists>v n. c = Intr_done v n \<and> intr_outcome K H (mmio (nics s dev) + INTR_STATUS_REG H) (klog t) v n) \<and>
    serial_calls K H dev (as @ Xmit_done skb # bs) s = Some s' \<and> tx_view dev s' = tx_view dev t)"
proof -
  have "nic_lock.mirrors K H dev Intr (Xmit_call skb) s ([p], b, t)" by (rule nic_lock.cpu_smp [OF run]) simp_all
  then obtain k hs "is" w where smp: "smp_run (nic_move K H dev) (Xmit_call skb # replicate k Intr, None, s) is (p # hs, w, t)"
    and b: "b = (w \<noteq> None)" and hs: "\<forall>q\<in>set hs. nic_move K H dev q t = None"
    by (auto simp: nic_lock.mirrors_def)
  let ?ps = "Xmit_call skb # replicate k Intr"
  have start: "\<forall>p\<in>set ?ps. nic_begin p" by (simp add: nic_begin_def)
  have thru: "\<forall>q\<in>set (p # hs). nic_done q" using fin hs nic_done_iff by auto
  have len: "length hs = k" using smp_run_length [OF smp] by simp
  note fact = nic_run_facts [OF smp start refl]
  have p: "p = Xmit_done skb" using fact [of 0] fin by (cases p) (auto simp: nic_done_def)
  from nic_run_serial [OF smp start thru] obtain L s' where L: "w = None" "distinct L" "set L = {..<Suc k}"
    "serial_calls K H dev (map ((!) (p # hs)) L) s = Some s'" "tx_view dev s' = tx_view dev t" by auto
  from L(3) obtain L1 L2 where L12: "L = L1 @ 0 # L2" using split_list [of 0 L] by auto
  have "\<exists>v n. (p # hs) ! i = Intr_done v n \<and> intr_outcome K H (mmio (nics s dev) + INTR_STATUS_REG H) (klog t) v n"
    if "i \<in> set (L1 @ L2)" for i
  proof -
    have "i \<noteq> 0" using that L(2) unfolding L12 by auto
    moreover have "i \<in> set L" using that unfolding L12 by auto
    then have "i < Suc k" unfolding L(3) by simp
    ultimately have i: "i < length ?ps" "?ps ! i = Intr" "i < length (p # hs)" using len by (simp_all add: nth_Cons')
    have "nic_done ((p # hs) ! i)" using thru nth_mem [OF i(3)] by blast
    with fact [OF i(1)] i(2) show ?thesis by (cases "(p # hs) ! i") (auto simp: nic_done_def)
  qed
  then have "\<forall>c\<in>set (map ((!) (p # hs)) L1 @ map ((!) (p # hs)) L2). \<exists>v n. c = Intr_done v n \<and>
      intr_outcome K H (mmio (nics s dev) + INTR_STATUS_REG H) (klog t) v n" by auto
  moreover have "serial_calls K H dev (map ((!) (p # hs)) L1 @ Xmit_done skb # map ((!) (p # hs)) L2) s = Some s'"
    using L(4) by (simp add: L12 p)
  ultimately show ?thesis using p b L(1,5) by blast
qed

theorem nic_interrupted_xmit_witness:
  "\<exists>t as bs s'. cpu_steps (nic_move good_kernel (sample_hw 1 60) 1) Intr ([Xmit_call 7], False, nic_start) ([Xmit_done 7], False, t) \<and>
    serial_calls good_kernel (sample_hw 1 60) 1 (as @ Xmit_done 7 # bs) nic_start = Some s' \<and> tx_view 1 s' = tx_view 1 t"
proof -
  let ?K = good_kernel and ?H = "sample_hw 1 60"
  have "hw_reports ?H 1" by (simp add: hw_reports_def sample_hw_def)
  then have loop: "complete_loop ?H 1 0 s \<noteq> None" for s using complete_loop_rounds [of 1 1 ?H 1 s] by simp
  have "mynic_interrupt ?K ?H 17 1 nic_start \<noteq> None"
    using loop unfolding interrupt_run by (simp only: option.case_eq_if split: if_splits) simp
  then obtain r u where "mynic_interrupt ?K ?H 17 1 nic_start = Some (r, u)" by auto
  from intr_points [OF this, of "[Xmit_call 7]"] obtain v n where
    "nic_cpus ?K ?H 1 ([Intr, Xmit_call 7], False, nic_start) ([Intr_done v n, Xmit_call 7], False, u)" by blast
  moreover have "nic_cpu ?K ?H 1 ([Intr_done v n, Xmit_call 7], False, u) ([Xmit_call 7], False, u)" by (rule cpu_step.iret) simp
  moreover have "nic_cpus ?K ?H 1 ([Xmit_call 7], False, u) ([Xmit_done 7], False, exec (mynic_start_xmit ?K ?H 7 1) u)"
    by (rule xmit_points)
  ultimately have run: "nic_cpus ?K ?H 1 ([Xmit_call 7], False, nic_start) ([Xmit_done 7], False, exec (mynic_start_xmit ?K ?H 7 1) u)"
    by (meson cpu_step.interrupt cpu_step_then rtranclp_trans)
  from nic_interrupted_xmit [OF run] run show ?thesis by auto
qed

end
