(* ===== verification/Simple_Nic.thy ===== *)
theory Simple_Nic
  imports Netdev_Contract
begin

text \<open>
  The minimal PCI network driver \<open>network/simple_nic.c\<close>: one \<open>net_device\<close> per PCI device, kept in the
  driver data. Shown: the network-driver contract for any number of devices, and that a
  transmitted packet is consumed exactly once.
\<close>

section \<open>State and operations\<close>

record simple_nic_state = "kcall kstate" +
  drvdata :: "ptr \<Rightarrow> ptr"
  netdev_ops :: "ptr \<Rightarrow> string"

definition mynic_open :: "ptr \<Rightarrow> (simple_nic_state, int) state" where
  "mynic_open dev = do {
     call_void (Net (Netif_start_queue dev));
     ret 0
   }"

definition mynic_stop :: "ptr \<Rightarrow> (simple_nic_state, int) state" where
  "mynic_stop dev = do {
     call_void (Net (Netif_stop_queue dev));
     ret 0
   }"

definition mynic_xmit :: "ptr \<Rightarrow> ptr \<Rightarrow> (simple_nic_state, netdev_tx_t) state" where
  "mynic_xmit skb dev = do {
     call_void (Skb (Dev_kfree_skb skb));
     ret NETDEV_TX_OK
   }"

definition mynic_ops :: "simple_nic_state net_device_ops" where
  "mynic_ops = \<lparr>ndo_open = mynic_open, ndo_stop = mynic_stop, ndo_start_xmit = mynic_xmit\<rparr>"

definition mynic_probe :: "linux \<Rightarrow> ptr \<Rightarrow> (simple_nic_state, int) state" where
  "mynic_probe K pdev = do {
     dev \<leftarrow> call_u64 K (Net (Alloc_etherdev ''''));
     if dev = NULL then ret (- ENOMEM)
     else do {
       modify (\<lambda>s. s\<lparr>netdev_ops := (netdev_ops s)(dev := ''mynic_ops'')\<rparr>);
       modify (\<lambda>s. s\<lparr>drvdata := (drvdata s)(pdev := dev)\<rparr>);
       err \<leftarrow> call_int K (Net (Register_netdev dev));
       if err \<noteq> 0 then do {
         call_void (Net (Free_netdev dev));
         ret err
       } else ret 0
     }
   }"

definition mynic_remove :: "ptr \<Rightarrow> (simple_nic_state, unit) state" where
  "mynic_remove pdev = do {
     dev \<leftarrow> gets (\<lambda>s. drvdata s pdev);
     call_void (Net (Unregister_netdev dev));
     call_void (Net (Free_netdev dev))
   }"

definition mynic_ids :: "(u16 \<times> u16) list" where
  "mynic_ids = [(0x1234, 0x5678)]"

definition mynic_driver :: "linux \<Rightarrow> simple_nic_state pci_driver" where
  "mynic_driver K = \<lparr>drv_name = ''mynic'', id_table = mynic_ids,
     probe = mynic_probe K, remove = mynic_remove\<rparr>"

text \<open>The init and exit functions that \<open>module_pci_driver(mynic_driver)\<close> stands for.\<close>

definition mynic_init :: "linux \<Rightarrow> (simple_nic_state, int) state" where
  "mynic_init K = call_int K (Pci (Pci_register_driver (drv_name (mynic_driver K))))"

definition mynic_exit :: "linux \<Rightarrow> (simple_nic_state, unit) state" where
  "mynic_exit K = call_void (Pci (Pci_unregister_driver (drv_name (mynic_driver K))))"

section \<open>The contract\<close>

definition simple_nic_holds :: "ptr \<Rightarrow> simple_nic_state \<Rightarrow> res list" where
  "simple_nic_holds pdev s = [NetdevReg (drvdata s pdev), Netdev (drvdata s pdev)]"

lemma simple_probe_moves:
  "run_state (mynic_probe K p) s = (r, s') \<Longrightarrow>
   moves K [] s (if r = 0 then simple_nic_holds p s' else []) s' \<and>
   (\<forall>q. q \<noteq> p \<longrightarrow> drvdata s' q = drvdata s q) \<and>
   (r = 0 \<longrightarrow> drvdata s' p = k_u64 K (klog s) (Net (Alloc_etherdev '''')) \<and> drvdata s' p \<noteq> NULL)"
  by (auto simp: mynic_probe_def simple_nic_holds_def moves_def split: if_splits)

lemma simple_remove_moves: "moves K (simple_nic_holds p s) s [] (exec (mynic_remove p) s)"
  by (simp add: mynic_remove_def simple_nic_holds_def moves_def)

interpretation simple_nic: netdev_driver
  "mynic_driver K" K "held K" drvdata "\<lambda>p s. mset (simple_nic_holds p s)"
  for K
proof (unfold_locales, goal_cases)
  case (1 a p s)
  then show ?case by (simp add: simple_nic_holds_def)
next
  case (2 p s r s' M)
  then show ?case using moves_held [OF conjunct1 [OF simple_probe_moves], of K p s r s' M]
    by (simp add: mynic_driver_def)
next
  case (3 p s s' M)
  then show ?case using simple_probe_moves [of K p s 0 s'] by (auto simp: mynic_driver_def netdev_fresh_def)
next
  case (4 p s r s' M q)
  then show ?case using simple_probe_moves [of K p s r s'] by (simp add: mynic_driver_def simple_nic_holds_def)
next
  case (5 p s s' M)
  then show ?case using moves_held [OF simple_remove_moves [of K p s], of M] by (simp add: mynic_driver_def)
next
  case (6 p s s' q)
  then have "s' = exec (mynic_remove p) s" by (simp add: mynic_driver_def)
  then show ?case by (simp add: mynic_remove_def simple_nic_holds_def)
qed

interpretation simple_nic_mod: pci_module
  "mynic_driver K" any_device "held K" "simple_nic.netdevs_ok K" "\<lambda>p s. mset (simple_nic_holds p s)"
  "mynic_init K" "mynic_exit K"
  for K
  by unfold_locales (auto simp: mynic_init_def mynic_exit_def simple_nic.netdevs_ok_def)

section \<open>Properties\<close>

text \<open>
  With any number of devices bound and unbound in any order, what the kernel holds is what it
  held at the start together with one \<open>net_device\<close> and its registration per device now bound;
  packets sent in between neither acquire nor release anything of the ledger.
\<close>

theorem simple_nic_hotplug_accounting:
  assumes "core_run (mynic_driver K) any_device (s, {}) (t, B)" and "held K s = Some M"
    and "netdev_fresh K"
  shows "held K (exec (mynic_xmit skb dev) t) =
    Some (M + (\<Sum>q\<in>B. {#NetdevReg (drvdata t q), Netdev (drvdata t q)#}))"
proof -
  from simple_nic.core_accounting [OF assms(1) simple_nic.netdevs_ok_empty [OF assms(3,2)] assms(2)]
  show ?thesis by (simp add: mynic_xmit_def simple_nic_holds_def)
qed

abbreviation simple_nic_start :: simple_nic_state where
  "simple_nic_start \<equiv> \<lparr>klog = [], drvdata = (\<lambda>p. NULL), netdev_ops = (\<lambda>d. [])\<rparr>"

theorem simple_nic_hotplug_accounting_witness:
  "held good_kernel (exec (mynic_xmit 7 4096)
     (exec (mynic_remove 1) (exec (mynic_probe good_kernel 1) simple_nic_start))) = Some {#}"
proof -
  have "result (probe (mynic_driver good_kernel) 1) simple_nic_start = 0"
    by (simp add: mynic_driver_def mynic_probe_def)
  from bind_unbind_run [where may = any_device, OF this]
  have run: "core_run (mynic_driver good_kernel) any_device (simple_nic_start, {})
      (exec (mynic_remove 1) (exec (mynic_probe good_kernel 1) simple_nic_start), {})"
    by (simp add: mynic_driver_def any_device_def)
  from simple_nic_hotplug_accounting [OF run] show ?thesis by simp
qed

text \<open>
  C29: after the module is loaded, with any number of devices bound and unbound in any order, what
  the kernel holds is what it held before loading, the registration of the driver, and what the
  devices now bound own; once no device is bound, unloading the module leaves exactly what was
  held before loading.
\<close>

theorem simple_nic_module_lifecycle:
  assumes "run_state (mynic_init K) s = (0, s1)" and "held K s = Some M"
    and "core_run (mynic_driver K) any_device (s1, {}) (t, B)"
    and "netdev_fresh K"
  shows "held K t = Some (add_mset (PciDriver (drv_name (mynic_driver K))) M + (\<Sum>q\<in>B. mset (simple_nic_holds q t))) \<and>
    (B = {} \<longrightarrow> held K (exec (mynic_exit K) t) = Some M)"
  using simple_nic_mod.lifecycle [OF assms(1,2) _ assms(3)] simple_nic.netdevs_ok_empty [OF assms(4,2)] by simp

theorem simple_nic_module_lifecycle_witness:
  "held good_kernel (exec (mynic_exit good_kernel) (exec (remove (mynic_driver good_kernel) 1) (exec (probe (mynic_driver good_kernel) 1)
     (exec (mynic_init good_kernel) simple_nic_start)))) = Some {#}"
proof -
  let ?s1 = "exec (mynic_init good_kernel) simple_nic_start"
  have load: "run_state (mynic_init good_kernel) simple_nic_start = (0, ?s1)" by (simp add: mynic_init_def)
  have "result (probe (mynic_driver good_kernel) 1) ?s1 = 0"
    by (simp add: mynic_init_def mynic_driver_def mynic_probe_def)
  from bind_unbind_run [where may = any_device, OF this]
  have run: "core_run (mynic_driver good_kernel) any_device (?s1, {})
      (exec (remove (mynic_driver good_kernel) 1) (exec (probe (mynic_driver good_kernel) 1) ?s1), {})"
    by (simp add: any_device_def)
  from simple_nic_module_lifecycle [OF load _ run, of "{#}"] show ?thesis by (simp)
qed

end
