(* ===== verification/Loopback.thy ===== *)
theory Loopback
  imports Module_Contract Netdev_Contract
begin

text \<open>
  The loopback network driver \<open>network/simple_loopback.c\<close>: a module with one \<open>net_device\<close>, whose transmit
  function hands each packet back to the stack as received.

  \<open>alloc_netdev\<close> calls the set-up function on the new device before it returns it.
  \<open>netif_rx\<close> takes the packet over, so what the driver finds in \<open>skb->len\<close> afterwards is up to the
  kernel: the parameter \<open>len\<close> gives the field after a history of calls.

  Shown: loading and unloading where the kernel calls succeed, what is left behind where they
  fail, and the counters and deliveries of a sequence of transmitted packets.
\<close>

unbundle bit_operations_syntax

section \<open>State and operations\<close>

record net_device =
  netdev_ops :: string
  flags :: u32
  tx_packets :: u64
  tx_bytes :: u64
  rx_packets :: u64
  rx_bytes :: u64

abbreviation (input) IFF_LOOPBACK :: u32 where "IFF_LOOPBACK \<equiv> 8"

record loop_state = "kcall kstate" +
  myloop_dev :: ptr
  netdevs :: "ptr \<Rightarrow> net_device"
  skb_protocol :: "ptr \<Rightarrow> u16"

definition myloop_open :: "ptr \<Rightarrow> (loop_state, int) state" where
  "myloop_open dev = do {
     call_void (Net (Netif_start_queue dev));
     ret 0
   }"

definition myloop_stop :: "ptr \<Rightarrow> (loop_state, int) state" where
  "myloop_stop dev = do {
     call_void (Net (Netif_stop_queue dev));
     ret 0
   }"

definition set_netdev :: "ptr \<Rightarrow> (net_device \<Rightarrow> net_device) \<Rightarrow> (loop_state, unit) state" where
  "set_netdev dev f = modify (\<lambda>s. s\<lparr>netdevs := (netdevs s)(dev := f (netdevs s dev))\<rparr>)"

definition read_len :: "(kevent list \<Rightarrow> ptr \<Rightarrow> u32) \<Rightarrow> ptr \<Rightarrow> (loop_state, u64) state" where
  "read_len len skb = gets (\<lambda>s. ucast (len (klog s) skb))"

definition myloop_xmit ::
    "linux \<Rightarrow> (kevent list \<Rightarrow> ptr \<Rightarrow> u32) \<Rightarrow> ptr \<Rightarrow> ptr \<Rightarrow> (loop_state, netdev_tx_t) state" where
  "myloop_xmit K len skb dev = do {
     call_void (Skb (Skb_orphan skb));
     protocol \<leftarrow> call_u64 K (Skb (Eth_type_trans skb dev));
     modify (\<lambda>s. s\<lparr>skb_protocol := (skb_protocol s)(skb := ucast protocol)\<rparr>);
     call_int K (Skb (Netif_rx skb));
     set_netdev dev (\<lambda>d. d\<lparr>tx_packets := tx_packets d + 1\<rparr>);
     n \<leftarrow> read_len len skb;
     set_netdev dev (\<lambda>d. d\<lparr>tx_bytes := tx_bytes d + n\<rparr>);
     set_netdev dev (\<lambda>d. d\<lparr>rx_packets := rx_packets d + 1\<rparr>);
     n \<leftarrow> read_len len skb;
     set_netdev dev (\<lambda>d. d\<lparr>rx_bytes := rx_bytes d + n\<rparr>);
     ret NETDEV_TX_OK
   }"

definition myloop_ops :: "linux \<Rightarrow> (kevent list \<Rightarrow> ptr \<Rightarrow> u32) \<Rightarrow> loop_state net_device_ops" where
  "myloop_ops K len = \<lparr>ndo_open = myloop_open, ndo_stop = myloop_stop, ndo_start_xmit = myloop_xmit K len\<rparr>"

definition myloop_setup :: "ptr \<Rightarrow> (loop_state, unit) state" where
  "myloop_setup dev = do {
     call_void (Net (Ether_setup dev));
     set_netdev dev (\<lambda>d. d\<lparr>netdev_ops := ''myloop_ops''\<rparr>);
     set_netdev dev (\<lambda>d. d\<lparr>flags := flags d OR IFF_LOOPBACK\<rparr>)
   }"

text \<open>
  \<open>myloop_init\<close> passes what \<open>alloc_netdev\<close> returned to \<open>register_netdev\<close> without a check;
  \<open>register_netdev\<close> dereferences its argument, so a null device is the error value \<open>None\<close>.
\<close>

definition myloop_init :: "linux \<Rightarrow> loop_state \<Rightarrow> (int \<times> loop_state) option" where
  "myloop_init K s = (
     let (dev, s1) = run_state (do {
           dev \<leftarrow> call_u64 K (Net (Alloc_netdev ''myloop%d''));
           (if dev \<noteq> NULL then myloop_setup dev else ret ());
           modify (\<lambda>s. s\<lparr>myloop_dev := dev\<rparr>);
           ret dev
         }) s
     in if dev = NULL then None else Some (run_state (call_int K (Net (Register_netdev dev))) s1))"

definition myloop_exit :: "loop_state \<Rightarrow> loop_state option" where
  "myloop_exit s = Some (exec (do {
     dev \<leftarrow> gets myloop_dev;
     call_void (Net (Unregister_netdev dev));
     call_void (Net (Free_netdev dev))
   }) s)"

section \<open>Loading and unloading\<close>

definition loop_reset :: "loop_state \<Rightarrow> loop_state" where
  "loop_reset s = s\<lparr>myloop_dev := NULL\<rparr>"

lemma myloop_init_run:
  assumes "dev = k_u64 K (klog s) (Net (Alloc_netdev ''myloop%d''))"
  shows "dev = NULL \<Longrightarrow> myloop_init K s = None"
    and "dev \<noteq> NULL \<Longrightarrow> \<exists>r s'. myloop_init K s = Some (r, s') \<and> myloop_dev s' = dev \<and>
      moves K [] s ((if r = 0 then [NetdevReg dev] else []) @ [Netdev dev]) s' \<and>
      netdev_ops (netdevs s' dev) = ''myloop_ops'' \<and> bit (flags (netdevs s' dev)) 3 \<and>
      (Net (Register_netdev dev), RInt r) \<in> set (klog s')"
proof -
  have b: "bit (x OR 8) 3" for x :: u32 by (simp add: bit_simps)
  show "dev = NULL \<Longrightarrow> myloop_init K s = None" using assms by (simp add: myloop_init_def split_beta)
  show "\<exists>r s'. myloop_init K s = Some (r, s') \<and> myloop_dev s' = dev \<and>
      moves K [] s ((if r = 0 then [NetdevReg dev] else []) @ [Netdev dev]) s' \<and>
      netdev_ops (netdevs s' dev) = ''myloop_ops'' \<and> bit (flags (netdevs s' dev)) 3 \<and>
      (Net (Register_netdev dev), RInt r) \<in> set (klog s')" if "dev \<noteq> NULL"
    using that assms by (auto simp: myloop_init_def myloop_setup_def set_netdev_def moves_def b)
qed

text \<open>The kernel grants the allocation and the registration.\<close>

definition netdev_calls_succeed :: "linux \<Rightarrow> bool" where
  "netdev_calls_succeed K \<longleftrightarrow> (\<forall>l n. k_u64 K l (Net (Alloc_netdev n)) \<noteq> NULL) \<and>
     (\<forall>l d. k_int K l (Net (Register_netdev d)) = 0)"

definition loop_idle :: "linux \<Rightarrow> res multiset \<Rightarrow> loop_state \<Rightarrow> bool" where
  "loop_idle K M s \<longleftrightarrow> netdev_calls_succeed K \<and> held K s = Some M"

definition loop_loaded :: "linux \<Rightarrow> res multiset \<Rightarrow> loop_state \<Rightarrow> bool" where
  "loop_loaded K M s \<longleftrightarrow> netdev_calls_succeed K \<and>
     held K s = Some (M + {#NetdevReg (myloop_dev s), Netdev (myloop_dev s)#})"

lemma myloop_init_ok:
  assumes "loop_idle K M s"
  shows "\<exists>s'. myloop_init K (loop_reset s) = Some (0, s') \<and> loop_loaded K M s'"
proof -
  have ok: "netdev_calls_succeed K" "held K (loop_reset s) = Some M"
    using assms by (simp_all add: loop_idle_def loop_reset_def)
  let ?dev = "k_u64 K (klog (loop_reset s)) (Net (Alloc_netdev ''myloop%d''))"
  have "?dev \<noteq> NULL" using ok(1) by (simp add: netdev_calls_succeed_def)
  from myloop_init_run(2) [OF refl this] obtain r s' where i: "myloop_init K (loop_reset s) = Some (r, s')"
    "myloop_dev s' = ?dev" "moves K [] (loop_reset s) ((if r = 0 then [NetdevReg ?dev] else []) @ [Netdev ?dev]) s'"
    by blast
  have "r = 0" using i(1) ok(1)
    by (auto simp: myloop_init_def myloop_setup_def split_beta netdev_calls_succeed_def split: if_splits)
  with i moves_held [OF i(3), of M] ok show ?thesis by (simp add: loop_loaded_def)
qed

interpretation loopback: module_contract
  "myloop_init K" myloop_exit loop_reset "loop_idle K" "loop_loaded K"
  for K
proof (unfold_locales, goal_cases)
  case (1 M s)
  then show ?case using myloop_init_ok [of K M s] by blast
next
  case (2 M s r s')
  then show ?case using myloop_init_ok [of K M s] by auto
next
  case (3 M s s')
  then show ?case using myloop_init_ok [of K M s] by auto
next
  case (4 M s)
  then show ?case by (simp add: loop_loaded_def myloop_exit_def loop_idle_def)
qed

section \<open>Properties\<close>

abbreviation loop_start :: loop_state where
  "loop_start \<equiv> \<lparr>klog = [], myloop_dev = NULL, netdevs = (\<lambda>a. \<lparr>netdev_ops = '''', flags = 0,
     tx_packets = 0, tx_bytes = 0, rx_packets = 0, rx_bytes = 0\<rparr>), skb_protocol = (\<lambda>a. 0)\<rparr>"

text \<open>
  Where the kernel grants the device and its registration, the module can be loaded and unloaded
  any number of times and the kernel ends up holding what it held before.
\<close>

theorem loop_load_unload_balanced:
  assumes "netdev_calls_succeed K" and "held K s = Some M"
  shows "\<exists>s'. module_cycles (myloop_init K) myloop_exit loop_reset n s = Some s' \<and> held K s' = Some M"
proof -
  have "loop_idle K M s" using assms by (simp add: loop_idle_def)
  from loopback.cycles_keep_idle [OF this, of n] show ?thesis by (auto simp: loop_idle_def)
qed

definition one_page_kernel :: linux where
  "one_page_kernel = good_kernel\<lparr>k_u64 := (\<lambda>l c. 4096)\<rparr>"

theorem loop_load_unload_balanced_witness:
  "\<exists>s'. module_cycles (myloop_init one_page_kernel) myloop_exit loop_reset 3 loop_start = Some s' \<and>
     held one_page_kernel s' = Some {#}"
  by (rule loop_load_unload_balanced) (simp_all add: netdev_calls_succeed_def one_page_kernel_def)

text \<open>
  \<open>myloop_init\<close> checks neither of its two calls. When \<open>alloc_netdev\<close> returns a null pointer it is
  passed to \<open>register_netdev\<close>, which is undefined behaviour; when \<open>register_netdev\<close> fails, the error
  is returned but the device stays allocated, and no exit function will free it.
\<close>

theorem loop_init_failures_unchecked:
  assumes "dev = k_u64 K (klog s) (Net (Alloc_netdev ''myloop%d''))" and "held K s = Some M"
  shows "(dev = NULL \<longrightarrow> myloop_init K s = None) \<and>
    (dev \<noteq> NULL \<longrightarrow> (\<exists>r s'. myloop_init K s = Some (r, s') \<and>
      (r \<noteq> 0 \<longrightarrow> held K s' = Some (add_mset (Netdev dev) M))))"
proof (intro conjI impI)
  assume "dev \<noteq> NULL"
  from myloop_init_run(2) [OF assms(1) this] obtain r s' where "myloop_init K s = Some (r, s')"
    and m: "moves K [] s ((if r = 0 then [NetdevReg dev] else []) @ [Netdev dev]) s'" by blast
  moreover from moves_held [OF m, of M] assms(2) have "r \<noteq> 0 \<longrightarrow> held K s' = Some (add_mset (Netdev dev) M)"
    by simp
  ultimately show "\<exists>r s'. myloop_init K s = Some (r, s') \<and> (r \<noteq> 0 \<longrightarrow> held K s' = Some (add_mset (Netdev dev) M))"
    by blast
qed (use myloop_init_run(1) [OF assms(1)] in simp)

theorem loop_init_failures_unchecked_witness:
  "\<exists>s'. myloop_init (sample_kernel (\<lambda>c. -17)) loop_start = Some (-17, s') \<and>
     held (sample_kernel (\<lambda>c. -17)) s' = Some {#Netdev 4096#}"
proof -
  let ?K = "sample_kernel (\<lambda>c. -17)"
  have d: "k_u64 ?K (klog loop_start) (Net (Alloc_netdev ''myloop%d'')) = 4096" by simp
  obtain r s' where i: "myloop_init ?K loop_start = Some (r, s')"
    "r \<noteq> 0 \<longrightarrow> held ?K s' = Some (add_mset (Netdev 4096) {#})"
    using loop_init_failures_unchecked [OF d [symmetric], of "{#}"] by auto
  have "r = -17" using i(1) by (simp add: myloop_init_def myloop_setup_def set_netdev_def)
  with i show ?thesis by auto
qed

section \<open>Transmission\<close>

primrec send_all ::
    "linux \<Rightarrow> (kevent list \<Rightarrow> ptr \<Rightarrow> u32) \<Rightarrow> ptr \<Rightarrow> ptr list \<Rightarrow> loop_state \<Rightarrow> loop_state" where
  "send_all K len dev [] s = s"
| "send_all K len dev (skb # skbs) s = send_all K len dev skbs (exec (myloop_xmit K len skb dev) s)"

definition delivered :: "kevent list \<Rightarrow> ptr list" where
  "delivered l = concat (map (\<lambda>e. case fst e of Skb (Netif_rx a) \<Rightarrow> [a] | _ \<Rightarrow> []) l)"

lemma myloop_xmit_run:
  "\<exists>es. klog (exec (myloop_xmit K len skb dev) s) = klog s @ es \<and> delivered es = [skb] \<and>
    netdevs (exec (myloop_xmit K len skb dev) s) = (netdevs s)(dev :=
      let d = netdevs s dev; n = ucast (len (klog s @ es) skb) in
      d\<lparr>tx_packets := tx_packets d + 1, tx_bytes := tx_bytes d + n, rx_packets := rx_packets d + 1,
        rx_bytes := rx_bytes d + n\<rparr>)"
  by (simp add: myloop_xmit_def set_netdev_def read_len_def delivered_def Let_def)

text \<open>
  The length the driver reads for each packet: the field as it is after the packet has been given away with \<open>netif_rx\<close>.
\<close>

primrec lengths_read ::
    "linux \<Rightarrow> (kevent list \<Rightarrow> ptr \<Rightarrow> u32) \<Rightarrow> ptr \<Rightarrow> ptr list \<Rightarrow> kevent list \<Rightarrow> u32 list" where
  "lengths_read K len dev [] l = []"
| "lengths_read K len dev (skb # skbs) l = (
     let l1 = l @ [(Skb (Skb_orphan skb), RVoid)];
         l2 = l1 @ [(Skb (Eth_type_trans skb dev), RU64 (k_u64 K l1 (Skb (Eth_type_trans skb dev))))];
         l3 = l2 @ [(Skb (Netif_rx skb), RInt (k_int K l2 (Skb (Netif_rx skb))))]
     in len l3 skb # lengths_read K len dev skbs l3)"

lemma myloop_xmit_step:
  "\<exists>l. klog (exec (myloop_xmit K len skb dev) s) = l \<and> delivered l = delivered (klog s) @ [skb] \<and>
    lengths_read K len dev (skb # skbs) (klog s) = len l skb # lengths_read K len dev skbs l \<and>
    netdevs (exec (myloop_xmit K len skb dev) s) = (netdevs s)(dev :=
      let d = netdevs s dev; n = ucast (len l skb) in
      d\<lparr>tx_packets := tx_packets d + 1, tx_bytes := tx_bytes d + n, rx_packets := rx_packets d + 1,
        rx_bytes := rx_bytes d + n\<rparr>)"
  by (simp add: myloop_xmit_def set_netdev_def read_len_def delivered_def Let_def)

text \<open>
  C38: a sequence of transmitted packets is delivered back to the stack in order, each once; the packet
  counters grow by their number, and both byte counters by the sum of the length fields as the driver reads them, which is
  after \<open>eth_type_trans\<close> and \<open>netif_rx\<close>. (What these leave in the field is theirs to say:
  \<open>loop_xmit_reads_given_away_packet\<close>.)
\<close>

theorem loop_xmit_all:
  "delivered (klog (send_all K len dev skbs s)) = delivered (klog s) @ skbs \<and>
   tx_packets (netdevs (send_all K len dev skbs s) dev) = tx_packets (netdevs s dev) + of_nat (length skbs) \<and>
   rx_packets (netdevs (send_all K len dev skbs s) dev) = rx_packets (netdevs s dev) + of_nat (length skbs) \<and>
   tx_bytes (netdevs (send_all K len dev skbs s) dev) =
     tx_bytes (netdevs s dev) + (\<Sum>n\<leftarrow>lengths_read K len dev skbs (klog s). ucast n) \<and>
   rx_bytes (netdevs (send_all K len dev skbs s) dev) =
     rx_bytes (netdevs s dev) + (\<Sum>n\<leftarrow>lengths_read K len dev skbs (klog s). ucast n)"
proof (induction skbs arbitrary: s)
  case Nil
  then show ?case by simp
next
  case (Cons skb skbs)
  define s1 where "s1 = exec (myloop_xmit K len skb dev) s"
  obtain l where l: "klog s1 = l" "delivered l = delivered (klog s) @ [skb]"
    "lengths_read K len dev (skb # skbs) (klog s) = len l skb # lengths_read K len dev skbs l"
    "netdevs s1 = (netdevs s)(dev := let d = netdevs s dev; n = ucast (len l skb) in
      d\<lparr>tx_packets := tx_packets d + 1, tx_bytes := tx_bytes d + n, rx_packets := rx_packets d + 1,
        rx_bytes := rx_bytes d + n\<rparr>)"
    using myloop_xmit_step [of K len skb dev s skbs] unfolding s1_def by blast
  have "send_all K len dev (skb # skbs) s = send_all K len dev skbs s1" by (simp add: s1_def)
  with Cons.IH [of s1] l show ?case by (simp add: Let_def add.assoc del: lengths_read.simps send_all.simps)
qed

text \<open>
  The byte counters record what the length field holds after the packet has been given away: if
  \<open>netif_rx\<close> has freed the packet and its memory reads \<open>x\<close>, the counter grows by \<open>x\<close>, whatever the
  length of the packet was before.
\<close>

theorem loop_xmit_reads_given_away_packet:
  assumes "\<forall>l. Skb (Netif_rx skb) \<in> fst ` set l \<longrightarrow> len l skb = x"
  shows "tx_bytes (netdevs (exec (myloop_xmit K len skb dev) s) dev) = tx_bytes (netdevs s dev) + ucast x"
  using assms by (simp add: myloop_xmit_def set_netdev_def read_len_def)

theorem loop_xmit_reads_given_away_packet_witness:
  "tx_bytes (netdevs (exec (myloop_xmit good_kernel
     (\<lambda>l a. if Skb (Netif_rx 7) \<in> fst ` set l then 0x6B6B6B6B else 60) 7 4096) loop_start) 4096) = 0x6B6B6B6B"
  using loop_xmit_reads_given_away_packet [of 7 "\<lambda>l a. if Skb (Netif_rx 7) \<in> fst ` set l then 0x6B6B6B6B else 60"
    "0x6B6B6B6B" good_kernel 4096 loop_start] by simp

end
