(* ===== verification/Pmd.thy ===== *)
theory Pmd
  imports Ring
begin

text \<open>
  The DPDK poll-mode driver \<open>network/dpdk/pmd.c\<close>: probe and remove, queue set-up, the receive and
  transmit bursts over descriptor rings, start, stop and link update.

  The DPDK functions are calls answered by the parameter \<open>D :: dpdk\<close>. Memory from
  \<open>rte_zmalloc\<close> is a map from addresses to arrays; an access through a null or
  unknown pointer or beyond the end of an array is the error value \<open>None\<close>. The loop conditions the
  source leaves as comments ("HW ring not empty", "HW ring not full") are predicates on the number
  of packets handled so far. Sizes are counted in array elements.

  Shown: what a burst does to rings of the size the code assumes, the round trip from the
  transmit to the receive side, and what happens with other ring sizes and queue numbers.
\<close>

section \<open>External calls\<close>

datatype eth_link = Eth_link (link_status: bool) (link_speed: nat) (full_duplex: bool)

datatype dcall =
    Rte_pci_map_resource ptr
  | Rte_eth_dev_allocate string ptr
  | Rte_zmalloc string nat
  | Rte_zmalloc_socket string nat nat
  | Rte_eth_dev_release_port int
  | Rte_eth_linkstatus_set ptr eth_link
  | Rte_eal_pci_register

text \<open>
  \<open>data_dev_private\<close> and \<open>data_port_id\<close> are the fields \<open>dev->data->dev_private\<close> and
  \<open>dev->data->port_id\<close>, filled in by \<open>rte_eth_dev_allocate\<close>.
\<close>

record dpdk = "dcall kernel" +
  data_dev_private :: "ptr \<Rightarrow> ptr"
  data_port_id :: "ptr \<Rightarrow> int"

section \<open>State\<close>

abbreviation (input) MY_PMD_NB_RX_QUEUES :: nat where "MY_PMD_NB_RX_QUEUES \<equiv> 4"
abbreviation (input) MY_PMD_NB_TX_QUEUES :: nat where "MY_PMD_NB_TX_QUEUES \<equiv> 4"
abbreviation (input) MY_PMD_NB_DESC :: nat where "MY_PMD_NB_DESC \<equiv> 1024"

record my_queue =
  rx_ring :: ptr
  tx_ring :: ptr
  rx_head :: u16
  rx_tail :: u16
  tx_head :: u16
  tx_tail :: u16
  hw_ring_base :: ptr

record my_pmd_private =
  pci_dev :: ptr
  mmio_base :: ptr
  rx_queues :: "my_queue list"
  tx_queues :: "my_queue list"
  mac_addr :: "u8 list"
  port_id :: int
  link_up :: bool

text \<open>The fields of a \<open>rte_eth_dev\<close> the driver sets; functions by their names.\<close>

record eth_dev_fields =
  dev_ops :: string
  rx_pkt_burst :: string
  tx_pkt_burst :: string

record pmd_state = "dcall kstate" +
  privs :: "ptr \<Rightarrow> my_pmd_private"
  eth_devs :: "ptr \<Rightarrow> eth_dev_fields"
  rings :: "ptr \<rightharpoonup> ptr list"
  mac_addrs :: "ptr \<Rightarrow> ptr"
  macs :: "ptr \<Rightarrow> u8 list"
  dev_private :: "ptr \<Rightarrow> ptr"

definition set_priv :: "ptr \<Rightarrow> (my_pmd_private \<Rightarrow> my_pmd_private) \<Rightarrow> (pmd_state, unit) state" where
  "set_priv a f = modify (\<lambda>s. s\<lparr>privs := (privs s)(a := f (privs s a))\<rparr>)"

section \<open>Probe, remove, start, stop, link\<close>

text \<open>
  \<open>rte_zmalloc\<close> for the MAC address is not checked before \<open>memcpy\<close>: a null pointer is \<open>None\<close>.
\<close>

definition my_pmd_pci_probe :: "dpdk \<Rightarrow> ptr \<Rightarrow> pmd_state \<Rightarrow> (int \<times> pmd_state) option" where
  "my_pmd_pci_probe D pdev s = (
     let (mmio, s1) = run_state (call_u64 D (Rte_pci_map_resource pdev)) s in
     if mmio = NULL then Some (- ENOMEM, s1) else
     let (eth_dev, s2) = run_state (call_u64 D (Rte_eth_dev_allocate ''my_pmd'' pdev)) s1 in
     if eth_dev = NULL then Some (- ENOMEM, s2) else
     let priv = data_dev_private D eth_dev;
         mac = [0xaa, 0xbb, 0xcc, 0xdd, 0xee, 0xff];
         (addr, s3) = run_state (do {
           set_priv priv (\<lambda>d. d\<lparr>pci_dev := pdev, mmio_base := mmio, port_id := data_port_id D eth_dev\<rparr>);
           set_priv priv (\<lambda>d. d\<lparr>mac_addr := mac\<rparr>);
           modify (\<lambda>s. s\<lparr>eth_devs := (eth_devs s)(eth_dev := (eth_devs s eth_dev)\<lparr>dev_ops := ''my_pmd_eth_dev_ops''\<rparr>)\<rparr>);
           addr \<leftarrow> call_u64 D (Rte_zmalloc ''mac_addr'' 6);
           modify (\<lambda>s. s\<lparr>mac_addrs := (mac_addrs s)(eth_dev := addr)\<rparr>);
           ret addr
         }) s2
     in if addr = NULL then None
        else Some (0, s3\<lparr>macs := (macs s3)(addr := mac),
          eth_devs := (eth_devs s3)(eth_dev := (eth_devs s3 eth_dev)\<lparr>rx_pkt_burst := ''my_pmd_rx_burst'',
            tx_pkt_burst := ''my_pmd_tx_burst''\<rparr>),
          dev_private := (dev_private s3)(pdev := priv)\<rparr>))"

definition my_pmd_pci_remove :: "ptr \<Rightarrow> (pmd_state, int) state" where
  "my_pmd_pci_remove pdev = do {
     priv \<leftarrow> gets (\<lambda>s. dev_private s pdev);
     d \<leftarrow> gets (\<lambda>s. privs s priv);
     call_void (Rte_eth_dev_release_port (port_id d));
     ret 0
   }"

definition my_pmd_dev_configure :: "ptr \<Rightarrow> (pmd_state, int) state" where
  "my_pmd_dev_configure dev = ret 0"

definition my_pmd_start :: "dpdk \<Rightarrow> ptr \<Rightarrow> (pmd_state, int) state" where
  "my_pmd_start D dev = do {
     set_priv (data_dev_private D dev) (\<lambda>d. d\<lparr>link_up := True\<rparr>);
     ret 0
   }"

definition my_pmd_stop :: "dpdk \<Rightarrow> ptr \<Rightarrow> (pmd_state, unit) state" where
  "my_pmd_stop D dev = set_priv (data_dev_private D dev) (\<lambda>d. d\<lparr>link_up := False\<rparr>)"

definition my_pmd_close :: "ptr \<Rightarrow> (pmd_state, unit) state" where
  "my_pmd_close dev = ret ()"

definition my_pmd_link_update :: "dpdk \<Rightarrow> ptr \<Rightarrow> (pmd_state, int) state" where
  "my_pmd_link_update D dev = do {
     d \<leftarrow> gets (\<lambda>s. privs s (data_dev_private D dev));
     call_void (Rte_eth_linkstatus_set dev (Eth_link (link_up d) 10000 True));
     ret 0
   }"

section \<open>Queue set-up\<close>

text \<open>\<open>priv->rx_queues[queue_idx]\<close> with an index of 4 or more lies outside the array.\<close>

definition my_pmd_rx_queue_setup :: "dpdk \<Rightarrow> ptr \<Rightarrow> u16 \<Rightarrow> u16 \<Rightarrow> nat \<Rightarrow> pmd_state \<Rightarrow> (int \<times> pmd_state) option" where
  "my_pmd_rx_queue_setup D dev queue_idx nb_desc socket_id s = (
     let priv = data_dev_private D dev in
     if unat queue_idx \<ge> MY_PMD_NB_RX_QUEUES then None
     else Some (run_state (do {
       ring \<leftarrow> call_u64 D (Rte_zmalloc_socket ''rx_ring'' (unat nb_desc) socket_id);
       (if ring \<noteq> NULL then modify (\<lambda>s. s\<lparr>rings := (rings s)(ring \<mapsto> replicate (unat nb_desc) NULL)\<rparr>) else ret ());
       set_priv priv (\<lambda>d. d\<lparr>rx_queues := (rx_queues d)[unat queue_idx :=
         (rx_queues d ! unat queue_idx)\<lparr>rx_ring := ring, rx_head := 0, rx_tail := 0\<rparr>]\<rparr>);
       ret 0
     }) s))"

definition my_pmd_tx_queue_setup :: "dpdk \<Rightarrow> ptr \<Rightarrow> u16 \<Rightarrow> u16 \<Rightarrow> nat \<Rightarrow> pmd_state \<Rightarrow> (int \<times> pmd_state) option" where
  "my_pmd_tx_queue_setup D dev queue_idx nb_desc socket_id s = (
     let priv = data_dev_private D dev in
     if unat queue_idx \<ge> MY_PMD_NB_TX_QUEUES then None
     else Some (run_state (do {
       ring \<leftarrow> call_u64 D (Rte_zmalloc_socket ''tx_ring'' (unat nb_desc) socket_id);
       (if ring \<noteq> NULL then modify (\<lambda>s. s\<lparr>rings := (rings s)(ring \<mapsto> replicate (unat nb_desc) NULL)\<rparr>) else ret ());
       set_priv priv (\<lambda>d. d\<lparr>tx_queues := (tx_queues d)[unat queue_idx :=
         (tx_queues d ! unat queue_idx)\<lparr>tx_ring := ring, tx_head := 0, tx_tail := 0\<rparr>]\<rparr>);
       ret 0
     }) s))"

section \<open>Bursts\<close>

text \<open>\<open>(i + 1) % MY_PMD_NB_DESC\<close>, computed in \<open>int\<close> and stored in a \<open>uint16_t\<close>.\<close>

definition next_desc :: "u16 \<Rightarrow> u16" where
  "next_desc i = of_nat ((unat i + 1) mod MY_PMD_NB_DESC)"

text \<open>
  The loop of \<open>my_pmd_rx_burst\<close>: \<open>n\<close> is \<open>nb_pkts - received\<close>, \<open>pkts\<close> the filled part of \<open>rx_pkts\<close>.
\<close>

fun rx_loop :: "(nat \<Rightarrow> bool) \<Rightarrow> (ptr \<rightharpoonup> ptr list) \<Rightarrow> nat \<Rightarrow> ptr list \<Rightarrow> my_queue \<Rightarrow> (ptr list \<times> my_queue) option" where
  "rx_loop nonempty h 0 pkts q = Some (pkts, q)"
| "rx_loop nonempty h (Suc n) pkts q = (
     if \<not> nonempty (length pkts) then Some (pkts, q)
     else case h (rx_ring q) of
       None \<Rightarrow> None
     | Some r \<Rightarrow> if unat (rx_head q) < length r
         then rx_loop nonempty h n (pkts @ [r ! unat (rx_head q)]) (q\<lparr>rx_head := next_desc (rx_head q)\<rparr>)
         else None)"

definition my_pmd_rx_burst ::
    "(nat \<Rightarrow> bool) \<Rightarrow> ptr \<Rightarrow> nat \<Rightarrow> u16 \<Rightarrow> pmd_state \<Rightarrow> (u16 \<times> ptr list \<times> pmd_state) option" where
  "my_pmd_rx_burst nonempty priv qi nb_pkts s =
     (case rx_loop nonempty (rings s) (unat nb_pkts) [] (rx_queues (privs s priv) ! qi) of
        None \<Rightarrow> None
      | Some (pkts, q) \<Rightarrow> Some (of_nat (length pkts), pkts,
          s\<lparr>privs := (privs s)(priv := (privs s priv)\<lparr>rx_queues := (rx_queues (privs s priv))[qi := q]\<rparr>)\<rparr>))"

text \<open>
  The loop of \<open>my_pmd_tx_burst\<close>: \<open>k\<close> is \<open>nb_pkts - sent\<close> and \<open>n\<close> is \<open>sent\<close>. A read beyond the
  packets the caller has in \<open>tx_pkts\<close> is \<open>None\<close>.
\<close>

fun tx_loop :: "(nat \<Rightarrow> bool) \<Rightarrow> ptr list \<Rightarrow> nat \<Rightarrow> nat \<Rightarrow> my_queue \<Rightarrow> (ptr \<rightharpoonup> ptr list) \<Rightarrow>
    (nat \<times> my_queue \<times> (ptr \<rightharpoonup> ptr list)) option" where
  "tx_loop room pkts 0 n q h = Some (n, q, h)"
| "tx_loop room pkts (Suc k) n q h = (
     if \<not> room n then Some (n, q, h)
     else if n \<ge> length pkts then None
     else case h (tx_ring q) of
       None \<Rightarrow> None
     | Some r \<Rightarrow> if unat (tx_tail q) < length r
         then tx_loop room pkts k (n + 1) (q\<lparr>tx_tail := next_desc (tx_tail q)\<rparr>)
           (h(tx_ring q \<mapsto> r[unat (tx_tail q) := pkts ! n]))
         else None)"

lemmas tx_loop_numeral [simp] = tx_loop.simps(2) [of _ _ "pred_numeral k" for k, folded numeral_eq_Suc]

definition my_pmd_tx_burst ::
    "(nat \<Rightarrow> bool) \<Rightarrow> ptr \<Rightarrow> nat \<Rightarrow> ptr list \<Rightarrow> u16 \<Rightarrow> pmd_state \<Rightarrow> (u16 \<times> pmd_state) option" where
  "my_pmd_tx_burst room priv qi tx_pkts nb_pkts s =
     (case tx_loop room tx_pkts (unat nb_pkts) 0 (tx_queues (privs s priv) ! qi) (rings s) of
        None \<Rightarrow> None
      | Some (n, q, h) \<Rightarrow> Some (of_nat n, s\<lparr>rings := h,
          privs := (privs s)(priv := (privs s priv)\<lparr>tx_queues := (tx_queues (privs s priv))[qi := q]\<rparr>)\<rparr>))"

record rte_pci_driver =
  pci_id_table :: "(u16 \<times> u16) list"
  need_mapping :: bool
  pmd_probe :: "ptr \<Rightarrow> pmd_state \<Rightarrow> (int \<times> pmd_state) option"
  pmd_remove :: "ptr \<Rightarrow> (pmd_state, int) state"

definition pci_id_my_pmd_map :: "(u16 \<times> u16) list" where
  "pci_id_my_pmd_map = [(0x1234, 0x5678)]"

definition my_pmd_driver :: "dpdk \<Rightarrow> rte_pci_driver" where
  "my_pmd_driver D = \<lparr>pci_id_table = pci_id_my_pmd_map, need_mapping = True,
     pmd_probe = my_pmd_pci_probe D, pmd_remove = my_pmd_pci_remove\<rparr>"

definition my_pmd_init :: "dpdk \<Rightarrow> (pmd_state, int) state" where
  "my_pmd_init D = call_int D Rte_eal_pci_register"

section \<open>Bursts on rings of the assumed size\<close>

definition advance :: "u16 \<Rightarrow> nat \<Rightarrow> u16" where
  "advance i m = of_nat ((unat i + m) mod MY_PMD_NB_DESC)"

lemma unat_advance: "unat (advance i m) = (unat i + m) mod MY_PMD_NB_DESC"
proof -
  have "(unat i + m) mod 1024 < 2 ^ 16" by (rule order_less_trans [of _ 1024]) simp_all
  then show ?thesis by (simp add: advance_def unsigned_of_nat take_bit_nat_eq_self)
qed

lemma advance_simps:
  "unat i < MY_PMD_NB_DESC \<Longrightarrow> advance i 0 = i" "advance (next_desc i) m = advance i (Suc m)"
  "next_desc i = advance i 1"
proof -
  have n: "next_desc i = advance i 1" for i by (simp add: next_desc_def advance_def)
  then show "next_desc i = advance i 1" .
  show "unat i < MY_PMD_NB_DESC \<Longrightarrow> advance i 0 = i" by (simp add: advance_def)
  have "unat (next_desc i) = (unat i + 1) mod 1024" by (simp add: n unat_advance)
  then show "advance (next_desc i) m = advance i (Suc m)"
    by (simp add: advance_def [of "next_desc i"] advance_def [of i] mod_simps)
qed

lemma tx_loop_run:
  assumes "h (tx_ring q) = Some r" and "length r = MY_PMD_NB_DESC" and "unat (tx_tail q) < MY_PMD_NB_DESC"
    and "n + k \<le> length pkts"
  shows "\<exists>m\<le>k. tx_loop room pkts k n q h = Some (n + m, q\<lparr>tx_tail := advance (tx_tail q) m\<rparr>,
      h(tx_ring q \<mapsto> ring_write MY_PMD_NB_DESC r (unat (tx_tail q)) (take m (drop n pkts)))) \<and>
    (m < k \<longrightarrow> \<not> room (n + m)) \<and> (\<forall>i<m. room (n + i))"
  using assms
proof (induction k arbitrary: n q h r)
  case 0
  then show ?case by (auto simp: advance_simps fun_upd_idem)
next
  case (Suc k)
  show ?case
  proof (cases "room n")
    case False
    with Suc.prems show ?thesis by (intro exI [of _ 0]) (simp add: advance_simps fun_upd_idem)
  next
    case True
    let ?q = "q\<lparr>tx_tail := next_desc (tx_tail q)\<rparr>"
    let ?r = "r[unat (tx_tail q) := pkts ! n]"
    have t: "unat (next_desc (tx_tail q)) = (unat (tx_tail q) + 1) mod 1024"
      by (simp add: advance_simps(3) unat_advance)
    have ih: "(h(tx_ring q \<mapsto> ?r)) (tx_ring ?q) = Some ?r" "length ?r = 1024" "unat (tx_tail ?q) < 1024"
      "Suc n + k \<le> length pkts"
      using Suc.prems(2,4) by (simp_all add: t)
    obtain m where m: "m \<le> k" "tx_loop room pkts k (Suc n) ?q (h(tx_ring q \<mapsto> ?r)) =
        Some (Suc n + m, ?q\<lparr>tx_tail := advance (tx_tail ?q) m\<rparr>,
          (h(tx_ring q \<mapsto> ?r))(tx_ring ?q \<mapsto> ring_write 1024 ?r (unat (tx_tail ?q)) (take m (drop (Suc n) pkts))))"
      "m < k \<longrightarrow> \<not> room (Suc n + m)" "\<forall>i<m. room (Suc n + i)"
      using Suc.IH [of "h(tx_ring q \<mapsto> ?r)" ?q ?r "Suc n", OF ih] by blast
    have "\<forall>i<Suc m. room (n + i)" using m(4) True by (auto simp: less_Suc_eq_0_disj)
    moreover have d: "take (Suc m) (drop n pkts) = pkts ! n # take m (drop (Suc n) pkts)"
      using Suc.prems(4) by (simp add: Cons_nth_drop_Suc [symmetric])
    have "tx_loop room pkts (Suc k) n q h = tx_loop room pkts k (Suc n) ?q (h(tx_ring q \<mapsto> ?r))"
      using True Suc.prems by simp
    then have "tx_loop room pkts (Suc k) n q h = Some (n + Suc m, q\<lparr>tx_tail := advance (tx_tail q) (Suc m)\<rparr>,
        h(tx_ring q \<mapsto> ring_write 1024 r (unat (tx_tail q)) (take (Suc m) (drop n pkts))))"
      unfolding m(2) d by (simp add: advance_simps(2) t)
    ultimately show ?thesis using m(1,3) by (intro exI [of _ "Suc m"]) (simp del: tx_loop.simps take_Suc_Cons fun_upd_apply)
  qed
qed

lemma pmd_rx_loop_run:
  assumes "h (rx_ring q) = Some r" and "length r = MY_PMD_NB_DESC" and "unat (rx_head q) < MY_PMD_NB_DESC"
  shows "\<exists>m\<le>n. rx_loop nonempty h n pkts q =
      Some (pkts @ map (\<lambda>k. r ! ((unat (rx_head q) + k) mod MY_PMD_NB_DESC)) [0..<m],
        q\<lparr>rx_head := advance (rx_head q) m\<rparr>) \<and>
    (m < n \<longrightarrow> \<not> nonempty (length pkts + m)) \<and> (\<forall>i<m. nonempty (length pkts + i))"
  using assms
proof (induction n arbitrary: pkts q)
  case 0
  then show ?case by (simp add: advance_simps)
next
  case (Suc n)
  show ?case
  proof (cases "nonempty (length pkts)")
    case False
    with Suc.prems show ?thesis by (intro exI [of _ 0]) (simp add: advance_simps)
  next
    case True
    let ?q = "q\<lparr>rx_head := next_desc (rx_head q)\<rparr>"
    have t: "unat (next_desc (rx_head q)) = (unat (rx_head q) + 1) mod 1024"
      by (simp add: advance_simps(3) unat_advance)
    obtain m where m: "m \<le> n" "rx_loop nonempty h n (pkts @ [r ! unat (rx_head q)]) ?q =
        Some ((pkts @ [r ! unat (rx_head q)]) @
          map (\<lambda>k. r ! ((unat (next_desc (rx_head q)) + k) mod 1024)) [0..<m],
          ?q\<lparr>rx_head := advance (next_desc (rx_head q)) m\<rparr>)"
      "m < n \<longrightarrow> \<not> nonempty (Suc (length pkts) + m)" "\<forall>i<m. nonempty (Suc (length pkts) + i)"
      using Suc.IH [of ?q "pkts @ [r ! unat (rx_head q)]"] Suc.prems t by auto
    have "\<forall>i<Suc m. nonempty (length pkts + i)" using m(4) True by (auto simp: less_Suc_eq_0_disj)
    moreover have "map (\<lambda>k. r ! ((unat (rx_head q) + k) mod 1024)) [0..<Suc m] =
        r ! unat (rx_head q) # map (\<lambda>k. r ! ((unat (next_desc (rx_head q)) + k) mod 1024)) [0..<m]"
      using Suc.prems(3) by (simp add: upt_conv_Cons map_Suc_upt [symmetric] t mod_simps del: upt_Suc)
    ultimately show ?thesis using m True Suc.prems
      by (intro exI [of _ "Suc m"]) (simp add: advance_simps(2) del: upt_Suc)
  qed
qed

lemma tx_loop_overrun:
  assumes "h (tx_ring q) = Some r" and "length r < MY_PMD_NB_DESC" and "unat (tx_tail q) \<le> length r"
    and "length r < unat (tx_tail q) + k" and "\<And>i. room i"
  shows "tx_loop room pkts k n q h = None"
  using assms(1-4)
proof (induction k arbitrary: n q h r)
  case 0
  then show ?case by simp
next
  case (Suc k)
  show ?case
  proof (cases "unat (tx_tail q) < length r \<and> n < length pkts")
    case False
    with Suc.prems assms(5) show ?thesis by auto
  next
    case True
    let ?h = "h(tx_ring q \<mapsto> r[unat (tx_tail q) := pkts ! n])"
    have "unat (next_desc (tx_tail q)) = Suc (unat (tx_tail q))"
      using True Suc.prems(2) by (simp add: advance_simps(3) unat_advance)
    then have "tx_loop room pkts k (Suc n) (q\<lparr>tx_tail := next_desc (tx_tail q)\<rparr>) ?h = None"
      using True Suc.prems by (intro Suc.IH [where r = "r[unat (tx_tail q) := pkts ! n]"]) simp_all
    with True Suc.prems(1) assms(5) [of n] show ?thesis by simp
  qed
qed

section \<open>Properties\<close>

definition zero_queue :: my_queue where
  "zero_queue = \<lparr>rx_ring = NULL, tx_ring = NULL, rx_head = 0, rx_tail = 0, tx_head = 0, tx_tail = 0, hw_ring_base = NULL\<rparr>"

definition zero_pmd :: my_pmd_private where
  "zero_pmd = \<lparr>pci_dev = NULL, mmio_base = NULL, rx_queues = replicate 4 zero_queue,
     tx_queues = replicate 4 zero_queue, mac_addr = [], port_id = 0, link_up = False\<rparr>"

abbreviation pmd_start :: pmd_state where
  "pmd_start \<equiv> \<lparr>klog = [], privs = (\<lambda>a. zero_pmd),
     eth_devs = (\<lambda>a. \<lparr>dev_ops = [], rx_pkt_burst = [], tx_pkt_burst = []\<rparr>), rings = (\<lambda>a. None), mac_addrs = (\<lambda>a. NULL),
     macs = (\<lambda>a. []), dev_private = (\<lambda>a. NULL)\<rparr>"

text \<open>A DPDK that answers every pointer call with \<open>a\<close>, except that it has no \<open>eth_dev\<close> if \<open>a'\<close> is null.\<close>

definition sample_dpdk :: "ptr \<Rightarrow> ptr \<Rightarrow> dpdk" where
  "sample_dpdk a a' = \<lparr>k_int = (\<lambda>l c. 0),
     k_u64 = (\<lambda>l c. case c of Rte_eth_dev_allocate n p \<Rightarrow> a' | _ \<Rightarrow> a), k_out = (\<lambda>l c. 0),
     data_dev_private = (\<lambda>d. d + 64), data_port_id = (\<lambda>d. 3)\<rparr>"

text \<open>
  C14: on a ring of 1024 descriptors a burst of at most 1024 packets, which the caller has in \<open>tx_pkts\<close>,
  is memory safe, stops only when all \<open>nb_pkts\<close> packets are
  placed or the hardware has no room, returns the number placed, puts them in order into the slots
  from the tail on (wrapping around), leaves every other slot and every other array alone, and
  advances the tail by that number modulo 1024.
\<close>

theorem pmd_tx_burst_fills_ring:
  assumes q: "q = tx_queues (privs s priv) ! qi" and "rings s (tx_ring q) = Some r"
    and "length r = MY_PMD_NB_DESC" and "unat (tx_tail q) < MY_PMD_NB_DESC"
    and "unat nb_pkts \<le> length tx_pkts" and "unat nb_pkts \<le> MY_PMD_NB_DESC"
    and "qi < length (tx_queues (privs s priv))"
  shows "\<exists>n s' r'. my_pmd_tx_burst room priv qi tx_pkts nb_pkts s = Some (of_nat n, s') \<and> n \<le> unat nb_pkts \<and>
    (n < unat nb_pkts \<longrightarrow> \<not> room n) \<and> rings s' = (rings s)(tx_ring q \<mapsto> r') \<and> length r' = length r \<and>
    (\<forall>k<MY_PMD_NB_DESC. r' ! ((unat (tx_tail q) + k) mod MY_PMD_NB_DESC) =
      (if k < n then tx_pkts ! k else r ! ((unat (tx_tail q) + k) mod MY_PMD_NB_DESC))) \<and>
    unat (tx_tail (tx_queues (privs s' priv) ! qi)) = (unat (tx_tail q) + n) mod MY_PMD_NB_DESC"
proof -
  obtain m where m: "m \<le> unat nb_pkts" "tx_loop room tx_pkts (unat nb_pkts) 0 q (rings s) =
      Some (m, q\<lparr>tx_tail := advance (tx_tail q) m\<rparr>,
        (rings s)(tx_ring q \<mapsto> ring_write 1024 r (unat (tx_tail q)) (take m tx_pkts)))"
    "m < unat nb_pkts \<longrightarrow> \<not> room m"
    using tx_loop_run [of "rings s" q r 0 "unat nb_pkts" tx_pkts room, OF assms(2,3,4)] assms(5) by auto
  let ?r = "ring_write 1024 r (unat (tx_tail q)) (take m tx_pkts)"
  have slots: "?r ! ((unat (tx_tail q) + k) mod 1024) =
      (if k < m then tx_pkts ! k else r ! ((unat (tx_tail q) + k) mod 1024))" if "k < 1024" for k
    using ring_write_nth [of r 1024 "unat (tx_tail q)" "take m tx_pkts" k] assms(3,4,5,6) m(1) that by simp
  define s' where "s' = s\<lparr>rings := (rings s)(tx_ring q \<mapsto> ?r), privs := (privs s)(priv :=
    (privs s priv)\<lparr>tx_queues := (tx_queues (privs s priv))[qi := q\<lparr>tx_tail := advance (tx_tail q) m\<rparr>]\<rparr>)\<rparr>"
  have "my_pmd_tx_burst room priv qi tx_pkts nb_pkts s = Some (of_nat m, s')"
    using m(2) by (simp add: my_pmd_tx_burst_def q [symmetric] s'_def)
  moreover have "unat (tx_tail (tx_queues (privs s' priv) ! qi)) = (unat (tx_tail q) + m) mod 1024"
    using assms(7) by (simp add: s'_def unat_advance)
  moreover have "rings s' = (rings s)(tx_ring q \<mapsto> ?r)" by (simp add: s'_def)
  ultimately show ?thesis using m(1,3) slots by (metis length_ring_write)
qed

text \<open>A state with one transmit and one receive ring of 1024 descriptors, both at their last slot.\<close>

definition ring_state :: "ptr \<Rightarrow> ptr list \<Rightarrow> ptr list \<Rightarrow> pmd_state" where
  "ring_state priv tx rx = pmd_start\<lparr>rings := [0x100 \<mapsto> tx, 0x200 \<mapsto> rx], privs := (\<lambda>a. zero_pmd\<lparr>
     tx_queues := replicate 4 (zero_queue\<lparr>tx_ring := 0x100, tx_tail := 1023\<rparr>),
     rx_queues := replicate 4 (zero_queue\<lparr>rx_ring := 0x200, rx_head := 1023\<rparr>)\<rparr>)\<rparr>"

theorem pmd_tx_burst_fills_ring_witness:
  "\<exists>n s' r'. my_pmd_tx_burst (\<lambda>i. True) 1 0 [7, 8] 2 (ring_state 1 (replicate 1024 0) []) = Some (of_nat n, s') \<and>
     rings s' 0x100 = Some r' \<and> r' ! 1023 = 7 \<and> r' ! 0 = 8"
proof -
  let ?s = "ring_state 1 (replicate 1024 0) []"
  let ?q = "zero_queue\<lparr>tx_ring := 0x100, tx_tail := 1023\<rparr>"
  have q: "?q = tx_queues (privs ?s 1) ! 0" by (simp add: ring_state_def)
  obtain n s' r' where b: "my_pmd_tx_burst (\<lambda>i. True) 1 0 [7, 8] 2 ?s = Some (of_nat n, s')"
    and "n \<le> 2" "n < 2 \<longrightarrow> \<not> True" and r': "rings s' = (rings ?s)(tx_ring ?q \<mapsto> r')"
    and sl: "\<forall>k<1024. r' ! ((unat (tx_tail ?q) + k) mod 1024) =
      (if k < n then [7, 8] ! k else replicate 1024 0 ! ((unat (tx_tail ?q) + k) mod 1024))"
    using pmd_tx_burst_fills_ring [OF q, of "replicate 1024 0" 2 "[7, 8]" "\<lambda>i. True"]
    by (auto simp: ring_state_def)
  have "n = 2" using \<open>n \<le> 2\<close> \<open>n < 2 \<longrightarrow> \<not> True\<close> by simp
  with sl [rule_format, of 0] sl [rule_format, of 1] have "r' ! 1023 = 7" "r' ! 0 = 8" by simp_all
  with b r' show ?thesis by auto
qed

text \<open>
  C13: what one side sends the other receives. If a burst of at most 1024 packets, which the caller has in
  \<open>tx_pkts\<close>, was sent on a ring of 1024 descriptors, and the hardware has copied the ring
  into a receive ring at the same position and reports exactly the packets placed, the receive burst returns
  these packets in order.
\<close>

theorem pmd_burst_roundtrip:
  assumes q: "q = tx_queues (privs s priv) ! qi" and "rings s (tx_ring q) = Some r"
    and "length r = MY_PMD_NB_DESC" and "unat (tx_tail q) < MY_PMD_NB_DESC"
    and "unat nb_sent \<le> length tx_pkts" and "unat nb_sent \<le> MY_PMD_NB_DESC"
    and tx: "my_pmd_tx_burst room priv qi tx_pkts nb_sent s = Some (n, s')"
    and p: "p = rx_queues (privs t priv') ! qj" and "rx_head p = tx_tail q"
    and "rings t (rx_ring p) = rings s' (tx_ring q)"
    and "\<forall>i. nonempty i \<longleftrightarrow> i < unat n" and "n \<le> nb_pkts"
  shows "\<exists>t'. my_pmd_rx_burst nonempty priv' qj nb_pkts t = Some (n, take (unat n) tx_pkts, t')"
proof -
  let ?t = "unat (tx_tail q)"
  obtain m where m: "m \<le> unat nb_sent" "tx_loop room tx_pkts (unat nb_sent) 0 q (rings s) =
      Some (m, q\<lparr>tx_tail := advance (tx_tail q) m\<rparr>, (rings s)(tx_ring q \<mapsto> ring_write 1024 r ?t (take m tx_pkts)))"
    using tx_loop_run [of "rings s" q r 0 "unat nb_sent" tx_pkts room, OF assms(2,3,4)] assms(5) by auto
  let ?r = "ring_write 1024 r ?t (take m tx_pkts)"
  have n: "unat n = m" "n = of_nat m"
    using tx m assms(6) by (auto simp: my_pmd_tx_burst_def q [symmetric] unsigned_of_nat take_bit_nat_eq_self)
  have ring: "rings t (rx_ring p) = Some ?r"
    using tx m(2) assms(10) by (auto simp: my_pmd_tx_burst_def q [symmetric])
  have le: "m \<le> unat nb_pkts" using assms(12) n(1) by (simp add: word_le_nat_alt)
  obtain j where j: "j \<le> unat nb_pkts" "rx_loop nonempty (rings t) (unat nb_pkts) [] p =
      Some (map (\<lambda>k. ?r ! ((?t + k) mod 1024)) [0..<j], p\<lparr>rx_head := advance (rx_head p) j\<rparr>)"
    "j < unat nb_pkts \<longrightarrow> \<not> nonempty j" "\<forall>i<j. nonempty i"
    using pmd_rx_loop_run [of "rings t" p ?r "unat nb_pkts" nonempty "[]", OF ring] assms(3,4,9) by auto
  have ne: "nonempty i \<longleftrightarrow> i < m" for i using assms(11) n(1) by blast
  have "\<not> m < j" using j(4) ne [of m] by blast
  moreover have "\<not> j < m" using j(3) le ne [of j] by linarith
  ultimately have jm: "j = m" by simp
  have "map (\<lambda>k. ?r ! ((?t + k) mod 1024)) [0..<m] = take m tx_pkts"
  proof (rule nth_equalityI)
    fix k assume k: "k < length (map (\<lambda>k. ?r ! ((?t + k) mod 1024)) [0..<m])"
    with ring_write_nth [of r 1024 ?t "take m tx_pkts" k] assms(3,4,5,6) m(1)
    show "map (\<lambda>k. ?r ! ((?t + k) mod 1024)) [0..<m] ! k = take m tx_pkts ! k" by simp
  qed (use m(1) assms(5) in simp)
  with j(2) jm n m(1) assms(5) show ?thesis by (simp add: my_pmd_rx_burst_def p [symmetric] min_absorb2)
qed

theorem pmd_burst_roundtrip_witness:
  "\<exists>t' s'. my_pmd_tx_burst (\<lambda>i. True) 1 0 [7, 8] 2 (ring_state 1 (replicate 1024 0) []) = Some (2, s') \<and>
     my_pmd_rx_burst (\<lambda>i. i < 2) 1 0 32 (ring_state 1 [] (the (rings s' 0x100))) = Some (2, [7, 8], t')"
proof -
  let ?s = "ring_state 1 (replicate 1024 0) []"
  let ?q = "zero_queue\<lparr>tx_ring := 0x100, tx_tail := 1023\<rparr>"
  have q: "?q = tx_queues (privs ?s 1) ! 0" by (simp add: ring_state_def)
  obtain s' r' where tx: "my_pmd_tx_burst (\<lambda>i. True) 1 0 [7, 8] 2 ?s = Some (2, s')" and r': "rings s' 0x100 = Some r'"
    by (simp add: my_pmd_tx_burst_def ring_state_def zero_queue_def next_desc_def)
  let ?t = "ring_state 1 [] (the (rings s' 0x100))"
  let ?p = "zero_queue\<lparr>rx_ring := 0x200, rx_head := 1023\<rparr>"
  have p: "?p = rx_queues (privs ?t 1) ! 0" by (simp add: ring_state_def)
  have ring: "rings ?s (tx_ring ?q) = Some (replicate 1024 0)" "rings ?t (rx_ring ?p) = rings s' (tx_ring ?q)"
    by (simp_all add: ring_state_def r')
  have small: "unat (tx_tail ?q) < 1024" "rx_head ?p = tx_tail ?q" "(2 :: u16) \<le> 32"
    "\<forall>i. i < 2 \<longleftrightarrow> i < unat (2 :: u16)" "unat (2 :: u16) \<le> length [7, 8 :: ptr]" "unat (2 :: u16) \<le> 1024" by simp_all
  have "\<exists>t'. my_pmd_rx_burst (\<lambda>i. i < 2) 1 0 32 ?t = Some (2, take (unat (2 :: u16)) [7, 8], t')"
    by (rule pmd_burst_roundtrip [OF q ring(1) _ small(1,5,6) tx p small(2) ring(2) small(4,3)]) simp
  with tx show ?thesis by auto
qed

text \<open>
  C36: the rings are allocated with \<open>nb_desc\<close> entries but indexed modulo 1024. A transmit queue set up with
  fewer than 1024 descriptors, its allocation successful, is overrun by the first burst of more packets than
  the ring has entries, if the hardware has room for all of them: the access beyond its end is undefined
  behaviour.
\<close>

theorem pmd_small_ring_overrun:
  assumes su: "my_pmd_tx_queue_setup D dev qi nb_desc socket s = Some (r, s')"
    and "k_u64 D (klog s) (Rte_zmalloc_socket ''tx_ring'' (unat nb_desc) socket) \<noteq> NULL"
    and "length (tx_queues (privs s (data_dev_private D dev))) = MY_PMD_NB_TX_QUEUES"
    and "unat nb_desc < MY_PMD_NB_DESC" and "unat nb_desc < unat nb_pkts"
    and "unat nb_pkts \<le> length tx_pkts" and "\<forall>i. room i"
  shows "my_pmd_tx_burst room (data_dev_private D dev) (unat qi) tx_pkts nb_pkts s' = None"
proof -
  let ?a = "k_u64 D (klog s) (Rte_zmalloc_socket ''tx_ring'' (unat nb_desc) socket)"
  let ?q = "tx_queues (privs s' (data_dev_private D dev)) ! unat qi"
  have "rings s' (tx_ring ?q) = Some (replicate (unat nb_desc) NULL)" "tx_tail ?q = 0"
    using su assms(2,3) by (auto simp: my_pmd_tx_queue_setup_def set_priv_def split: if_splits)
  then have "tx_loop room tx_pkts (unat nb_pkts) 0 ?q (rings s') = None"
    using assms(4,5,7) by (intro tx_loop_overrun [where r = "replicate (unat nb_desc) NULL"]) auto
  then show ?thesis by (simp add: my_pmd_tx_burst_def)
qed

theorem pmd_small_ring_overrun_witness:
  "\<exists>s'. my_pmd_tx_queue_setup (sample_dpdk 4096 4096) 0 1 2 0 pmd_start = Some (0, s') \<and>
     my_pmd_tx_burst (\<lambda>i. True) 64 1 [7, 8, 9] 3 s' = None"
proof -
  let ?D = "sample_dpdk 4096 4096"
  obtain s' where s': "my_pmd_tx_queue_setup ?D 0 1 2 0 pmd_start = Some (0, s')"
    by (simp add: my_pmd_tx_queue_setup_def sample_dpdk_def set_priv_def)
  have "my_pmd_tx_burst (\<lambda>i. True) (data_dev_private ?D 0) (unat (1 :: u16)) [7, 8, 9] 3 s' = None"
    by (rule pmd_small_ring_overrun [OF s']) (simp_all add: sample_dpdk_def zero_pmd_def)
  with s' show ?thesis by (simp add: sample_dpdk_def)
qed

text \<open>
  A probe that maps the device but gets no \<open>eth_dev\<close> returns \<open>-ENOMEM\<close> with the mapping still in
  place, since no path of the driver unmaps it: the whole call history of the probe is the two
  allocations, and removal only releases the port.
\<close>

theorem pmd_probe_failure_keeps_mapping:
  assumes "k_u64 D (klog s) (Rte_pci_map_resource pdev) \<noteq> NULL"
    and "\<forall>l. k_u64 D l (Rte_eth_dev_allocate ''my_pmd'' pdev) = NULL"
  shows "\<exists>s'. my_pmd_pci_probe D pdev s = Some (- ENOMEM, s') \<and>
    map fst (klog s') = map fst (klog s) @ [Rte_pci_map_resource pdev, Rte_eth_dev_allocate ''my_pmd'' pdev] \<and>
    map fst (klog (exec (my_pmd_pci_remove pdev) t)) = map fst (klog t) @
      [Rte_eth_dev_release_port (port_id (privs t (dev_private t pdev)))]"
  using assms by (simp add: my_pmd_pci_probe_def my_pmd_pci_remove_def)

theorem pmd_probe_failure_keeps_mapping_witness:
  "\<exists>s'. my_pmd_pci_probe (sample_dpdk 4096 NULL) 1 pmd_start = Some (- ENOMEM, s') \<and>
     map fst (klog s') = [Rte_pci_map_resource 1, Rte_eth_dev_allocate ''my_pmd'' 1]"
proof -
  have "k_u64 (sample_dpdk 4096 NULL) (klog pmd_start) (Rte_pci_map_resource 1) \<noteq> NULL"
    "\<forall>l. k_u64 (sample_dpdk 4096 NULL) l (Rte_eth_dev_allocate ''my_pmd'' 1) = NULL"
    by (simp_all add: sample_dpdk_def)
  from pmd_probe_failure_keeps_mapping [OF this, of pmd_start] show ?thesis by auto
qed

end
