(* ===== verification/Pmd_Session.thy ===== *)
theory Pmd_Session
  imports Pmd Session
begin

text \<open>
  The poll-mode driver in use: its operation table \<open>my_pmd_eth_dev_ops\<close>, and an application that
  configures, starts and stops a port, sets queues up and sends and receives bursts, in any order.

  Shown: with queues of the assumed size of 1024 descriptors the rings stay well formed and every call
  is memory safe, whatever the hardware answers, except a burst on a queue without a ring; the
  link state follows the last start or stop. A queue set-up whose allocation fails still
  reports success and leaves such a queue.
\<close>

section \<open>The operation table\<close>

record eth_dev_ops =
  op_configure :: "ptr \<Rightarrow> (pmd_state, int) state"
  op_start :: "ptr \<Rightarrow> (pmd_state, int) state"
  op_stop :: "ptr \<Rightarrow> (pmd_state, unit) state"
  op_close :: "ptr \<Rightarrow> (pmd_state, unit) state"
  op_rx_queue_setup :: "ptr \<Rightarrow> u16 \<Rightarrow> u16 \<Rightarrow> nat \<Rightarrow> pmd_state \<Rightarrow> (int \<times> pmd_state) option"
  op_tx_queue_setup :: "ptr \<Rightarrow> u16 \<Rightarrow> u16 \<Rightarrow> nat \<Rightarrow> pmd_state \<Rightarrow> (int \<times> pmd_state) option"
  op_link_update :: "ptr \<Rightarrow> (pmd_state, int) state"

definition my_pmd_eth_dev_ops :: "dpdk \<Rightarrow> eth_dev_ops" where
  "my_pmd_eth_dev_ops D = \<lparr>op_configure = my_pmd_dev_configure, op_start = my_pmd_start D,
     op_stop = my_pmd_stop D, op_close = my_pmd_close, op_rx_queue_setup = my_pmd_rx_queue_setup D,
     op_tx_queue_setup = my_pmd_tx_queue_setup D, op_link_update = my_pmd_link_update D\<rparr>"

section \<open>The application\<close>

text \<open>
  A burst carries what the hardware answers to the loop's question. The application uses queue
  numbers below 4, asks for 1024 descriptors, and has the packets it announces; it does not know
  whether a queue has a ring.
\<close>

datatype app_call =
    App_configure
  | App_start
  | App_stop
  | App_close
  | App_link_update
  | App_rx_setup u16 u16 nat
  | App_tx_setup u16 u16 nat
  | App_rx_burst nat u16 "nat \<Rightarrow> bool"
  | App_tx_burst nat "ptr list" u16 "nat \<Rightarrow> bool"

fun app_may :: "ptr \<Rightarrow> app_call \<Rightarrow> pmd_state \<Rightarrow> bool" where
  "app_may priv (App_rx_setup qi nb socket) s \<longleftrightarrow> unat qi < MY_PMD_NB_RX_QUEUES \<and> unat nb = MY_PMD_NB_DESC"
| "app_may priv (App_tx_setup qi nb socket) s \<longleftrightarrow> unat qi < MY_PMD_NB_TX_QUEUES \<and> unat nb = MY_PMD_NB_DESC"
| "app_may priv (App_rx_burst qi nb nonempty) s \<longleftrightarrow> qi < MY_PMD_NB_RX_QUEUES"
| "app_may priv (App_tx_burst qi pkts nb room) s \<longleftrightarrow> qi < MY_PMD_NB_TX_QUEUES \<and> unat nb \<le> length pkts"
| "app_may priv _ s \<longleftrightarrow> True"

fun app_step :: "eth_dev_ops \<Rightarrow> ptr \<Rightarrow> ptr \<Rightarrow> app_call \<Rightarrow> pmd_state \<Rightarrow> pmd_state option" where
  "app_step ops dev priv App_configure s = Some (exec (op_configure ops dev) s)"
| "app_step ops dev priv App_start s = Some (exec (op_start ops dev) s)"
| "app_step ops dev priv App_stop s = Some (exec (op_stop ops dev) s)"
| "app_step ops dev priv App_close s = Some (exec (op_close ops dev) s)"
| "app_step ops dev priv App_link_update s = Some (exec (op_link_update ops dev) s)"
| "app_step ops dev priv (App_rx_setup qi nb socket) s = map_option snd (op_rx_queue_setup ops dev qi nb socket s)"
| "app_step ops dev priv (App_tx_setup qi nb socket) s = map_option snd (op_tx_queue_setup ops dev qi nb socket s)"
| "app_step ops dev priv (App_rx_burst qi n nonempty) s =
     map_option (\<lambda>(r, pkts, s'). s') (my_pmd_rx_burst nonempty priv qi n s)"
| "app_step ops dev priv (App_tx_burst qi pkts nb room) s = map_option snd (my_pmd_tx_burst room priv qi pkts nb s)"

text \<open>A burst whose first packet goes through the null ring pointer of its queue.\<close>

fun null_burst :: "ptr \<Rightarrow> app_call \<Rightarrow> pmd_state \<Rightarrow> bool" where
  "null_burst priv (App_rx_burst qi nb nonempty) s \<longleftrightarrow>
     rx_ring (rx_queues (privs s priv) ! qi) = NULL \<and> 0 < nb \<and> nonempty 0"
| "null_burst priv (App_tx_burst qi pkts nb room) s \<longleftrightarrow>
     tx_ring (tx_queues (privs s priv) ! qi) = NULL \<and> 0 < nb \<and> room 0"
| "null_burst priv _ s \<longleftrightarrow> False"

section \<open>The type invariant\<close>

definition ring_ok :: "(ptr \<rightharpoonup> ptr list) \<Rightarrow> ptr \<Rightarrow> u16 \<Rightarrow> bool" where
  "ring_ok h a i \<longleftrightarrow> (a = NULL \<or> (\<exists>r. h a = Some r \<and> length r = MY_PMD_NB_DESC)) \<and> unat i < MY_PMD_NB_DESC"

definition queues_ok :: "(ptr \<rightharpoonup> ptr list) \<Rightarrow> my_pmd_private \<Rightarrow> bool" where
  "queues_ok h d \<longleftrightarrow>
     length (rx_queues d) = MY_PMD_NB_RX_QUEUES \<and> length (tx_queues d) = MY_PMD_NB_TX_QUEUES \<and>
     (\<forall>q\<in>set (rx_queues d). ring_ok h (rx_ring q) (rx_head q)) \<and>
     (\<forall>q\<in>set (tx_queues d). ring_ok h (tx_ring q) (tx_tail q))"

definition link_after :: "bool \<Rightarrow> app_call list \<Rightarrow> bool" where
  "link_after b es = fold (\<lambda>e up. case e of App_start \<Rightarrow> True | App_stop \<Rightarrow> False | _ \<Rightarrow> up) es b"

definition pmd_ok :: "ptr \<Rightarrow> bool \<Rightarrow> app_call list \<Rightarrow> pmd_state \<Rightarrow> bool" where
  "pmd_ok priv b es s \<longleftrightarrow> rings s NULL = None \<and> queues_ok (rings s) (privs s priv) \<and>
     link_up (privs s priv) = link_after b es"

lemma link_after_snoc [simp]:
  "link_after b [] = b"
  "link_after b (es @ [e]) = (case e of App_start \<Rightarrow> True | App_stop \<Rightarrow> False | _ \<Rightarrow> link_after b es)"
  by (simp add: link_after_def) (cases e; simp add: link_after_def)

lemma ring_ok_write: "ring_ok h a i \<Longrightarrow> length r = MY_PMD_NB_DESC \<Longrightarrow> ring_ok (h(b \<mapsto> r)) a i"
  by (auto simp: ring_ok_def)

lemma queues_ok_write: "queues_ok h d \<Longrightarrow> length r = MY_PMD_NB_DESC \<Longrightarrow> queues_ok (h(b \<mapsto> r)) d"
  by (simp add: queues_ok_def ring_ok_write)

lemma queues_ok_set_rx:
  "queues_ok h d \<Longrightarrow> ring_ok h (rx_ring q) (rx_head q) \<Longrightarrow> queues_ok h (d\<lparr>rx_queues := (rx_queues d)[qi := q]\<rparr>)"
  by (auto simp: queues_ok_def dest!: set_update_subset_insert [THEN subsetD])

lemma queues_ok_set_tx:
  "queues_ok h d \<Longrightarrow> ring_ok h (tx_ring q) (tx_tail q) \<Longrightarrow> queues_ok h (d\<lparr>tx_queues := (tx_queues d)[qi := q]\<rparr>)"
  by (auto simp: queues_ok_def dest!: set_update_subset_insert [THEN subsetD])

lemma queues_ok_other [simp]: "queues_ok h (d\<lparr>link_up := b\<rparr>) = queues_ok h d"
  by (simp add: queues_ok_def)

section \<open>Every operation keeps it\<close>

lemma advance_ok [simp]: "unat (advance i m) < MY_PMD_NB_DESC"
  by (simp add: unat_advance)

lemma rx_setup_keeps_ok:
  assumes "queues_ok (rings s) (privs s (data_dev_private D dev))" and "unat qi < MY_PMD_NB_RX_QUEUES"
    and "unat nb = MY_PMD_NB_DESC"
  shows "\<exists>s'. my_pmd_rx_queue_setup D dev qi nb socket s = Some (0, s') \<and> rings s' NULL = rings s NULL \<and>
    queues_ok (rings s') (privs s' (data_dev_private D dev)) \<and>
    link_up (privs s' (data_dev_private D dev)) = link_up (privs s (data_dev_private D dev))"
  using assms
  by (auto simp: my_pmd_rx_queue_setup_def set_priv_def Let_def ring_ok_def queues_ok_set_rx queues_ok_write)

lemma tx_setup_keeps_ok:
  assumes "queues_ok (rings s) (privs s (data_dev_private D dev))" and "unat qi < MY_PMD_NB_TX_QUEUES"
    and "unat nb = MY_PMD_NB_DESC"
  shows "\<exists>s'. my_pmd_tx_queue_setup D dev qi nb socket s = Some (0, s') \<and> rings s' NULL = rings s NULL \<and>
    queues_ok (rings s') (privs s' (data_dev_private D dev)) \<and>
    link_up (privs s' (data_dev_private D dev)) = link_up (privs s (data_dev_private D dev))"
  using assms
  by (auto simp: my_pmd_tx_queue_setup_def set_priv_def Let_def ring_ok_def queues_ok_set_tx queues_ok_write)

lemma null_ring_loops:
  "h (rx_ring q) = None \<Longrightarrow> rx_loop nonempty h k [] q = (if 0 < k \<and> nonempty 0 then None else Some ([], q))"
  "h (tx_ring q) = None \<Longrightarrow> tx_loop room pkts k 0 q h = (if 0 < k \<and> room 0 then None else Some (0, q, h))"
  by (cases k; simp)+

lemma rx_burst_keeps_ok:
  assumes ok: "queues_ok (rings s) (privs s priv)" and "qi < MY_PMD_NB_RX_QUEUES" and null: "rings s NULL = None"
  shows "case my_pmd_rx_burst nonempty priv qi nb s of
      None \<Rightarrow> null_burst priv (App_rx_burst qi nb nonempty) s
    | Some (n, pkts, s') \<Rightarrow> \<not> null_burst priv (App_rx_burst qi nb nonempty) s \<and> rings s' NULL = None \<and>
        queues_ok (rings s') (privs s' priv) \<and> link_up (privs s' priv) = link_up (privs s priv)"
proof (cases "rx_ring (rx_queues (privs s priv) ! qi) = NULL")
  case True
  with ok assms(2) null show ?thesis
    by (simp add: my_pmd_rx_burst_def null_ring_loops fun_upd_idem word_less_nat_alt)
next
  case False
  let ?q = "rx_queues (privs s priv) ! qi"
  have ring: "ring_ok (rings s) (rx_ring ?q) (rx_head ?q)" using ok assms(2) by (simp add: queues_ok_def)
  then obtain r where r: "rings s (rx_ring ?q) = Some r" "length r = MY_PMD_NB_DESC"
    "unat (rx_head ?q) < MY_PMD_NB_DESC" using False by (auto simp: ring_ok_def)
  from pmd_rx_loop_run [of "rings s" ?q, OF r, of "unat nb" nonempty "[]"] obtain m where
    "rx_loop nonempty (rings s) (unat nb) [] ?q =
      Some (map (\<lambda>k. r ! ((unat (rx_head ?q) + k) mod MY_PMD_NB_DESC)) [0..<m], ?q\<lparr>rx_head := advance (rx_head ?q) m\<rparr>)"
    by auto
  moreover have "ring_ok (rings s) (rx_ring ?q) (advance (rx_head ?q) m)" using ring by (simp add: ring_ok_def)
  ultimately show ?thesis using ok null False by (simp add: my_pmd_rx_burst_def queues_ok_set_rx)
qed

lemma tx_burst_keeps_ok:
  assumes ok: "queues_ok (rings s) (privs s priv)" and "qi < MY_PMD_NB_TX_QUEUES" and null: "rings s NULL = None"
    and nb: "unat nb \<le> length pkts"
  shows "case my_pmd_tx_burst room priv qi pkts nb s of
      None \<Rightarrow> null_burst priv (App_tx_burst qi pkts nb room) s
    | Some (n, s') \<Rightarrow> \<not> null_burst priv (App_tx_burst qi pkts nb room) s \<and> rings s' NULL = None \<and>
        queues_ok (rings s') (privs s' priv) \<and> link_up (privs s' priv) = link_up (privs s priv)"
proof (cases "tx_ring (tx_queues (privs s priv) ! qi) = NULL")
  case True
  with ok assms(2) null show ?thesis
    by (simp add: my_pmd_tx_burst_def null_ring_loops fun_upd_idem word_less_nat_alt)
next
  case False
  let ?q = "tx_queues (privs s priv) ! qi"
  have ring: "ring_ok (rings s) (tx_ring ?q) (tx_tail ?q)" using ok assms(2) by (simp add: queues_ok_def)
  then obtain r where r: "rings s (tx_ring ?q) = Some r" "length r = MY_PMD_NB_DESC"
    "unat (tx_tail ?q) < MY_PMD_NB_DESC" using False by (auto simp: ring_ok_def)
  from tx_loop_run [of "rings s" ?q, OF r, of 0 "unat nb" pkts room] nb obtain m where
    run: "tx_loop room pkts (unat nb) 0 ?q (rings s) = Some (m, ?q\<lparr>tx_tail := advance (tx_tail ?q) m\<rparr>,
      (rings s)(tx_ring ?q \<mapsto> ring_write MY_PMD_NB_DESC r (unat (tx_tail ?q)) (take m pkts)))"
    by auto
  have "queues_ok ((rings s)(tx_ring ?q \<mapsto> ring_write MY_PMD_NB_DESC r (unat (tx_tail ?q)) (take m pkts)))
      ((privs s priv)\<lparr>tx_queues := (tx_queues (privs s priv))[qi := ?q\<lparr>tx_tail := advance (tx_tail ?q) m\<rparr>]\<rparr>)"
    using ok ring r(2) by (intro queues_ok_set_tx queues_ok_write) (auto simp: ring_ok_def)
  with run null False show ?thesis by (simp add: my_pmd_tx_burst_def)
qed

lemma app_call_outcome:
  assumes "pmd_ok (data_dev_private D dev) b es s" and "app_may (data_dev_private D dev) e s"
  shows "case app_step (my_pmd_eth_dev_ops D) dev (data_dev_private D dev) e s of
      None \<Rightarrow> null_burst (data_dev_private D dev) e s
    | Some s' \<Rightarrow> \<not> null_burst (data_dev_private D dev) e s \<and> pmd_ok (data_dev_private D dev) b (es @ [e]) s'"
proof -
  let ?p = "data_dev_private D dev"
  have ok: "rings s NULL = None" "queues_ok (rings s) (privs s ?p)" "link_up (privs s ?p) = link_after b es"
    using assms(1) by (simp_all add: pmd_ok_def)
  show ?thesis
  proof (cases e)
    case (App_rx_setup qi nb socket)
    with rx_setup_keeps_ok [OF ok(2), of qi nb socket] ok assms(2) show ?thesis
      by (auto simp: pmd_ok_def my_pmd_eth_dev_ops_def)
  next
    case (App_tx_setup qi nb socket)
    with tx_setup_keeps_ok [OF ok(2), of qi nb socket] ok assms(2) show ?thesis
      by (auto simp: pmd_ok_def my_pmd_eth_dev_ops_def)
  next
    case (App_rx_burst qi n nonempty)
    with rx_burst_keeps_ok [OF ok(2) _ ok(1), of qi n nonempty] ok(3) assms(2) show ?thesis
      by (auto simp: pmd_ok_def split: option.splits)
  next
    case (App_tx_burst qi pkts n room)
    with tx_burst_keeps_ok [OF ok(2) _ ok(1), of qi n pkts room] ok(3) assms(2) show ?thesis
      by (auto simp: pmd_ok_def split: option.splits)
  qed (use ok in \<open>simp_all add: pmd_ok_def my_pmd_eth_dev_ops_def my_pmd_dev_configure_def my_pmd_start_def
      my_pmd_stop_def my_pmd_close_def my_pmd_link_update_def set_priv_def\<close>)
qed

interpretation pmd_app: preserved "app_may (data_dev_private D dev)"
  "app_step (my_pmd_eth_dev_ops D) dev (data_dev_private D dev)" "pmd_ok (data_dev_private D dev) b"
  for D dev b
proof (unfold_locales, goal_cases)
  case (1 es s e s')
  with app_call_outcome [OF 1(1,2)] show ?case by simp
qed

section \<open>Properties\<close>

text \<open>
  C15: from a private area with four queues each way, each with no ring or one of 1024 descriptors, any
  sequence of configuring, starting, stopping, closing, link updates, set-ups of queues 0 to 3 with 1024
  descriptors and bursts on these queues (of packets the caller has) keeps every ring
  index below 1024 and every ring pointer null or pointing to an array of 1024 entries, whatever the
  allocator and the hardware answer, and the port reports its link up exactly when the last of start and
  stop was a start. Which next call is undefined is settled exactly: a burst of at least one packet which
  the hardware lets proceed on a queue whose ring pointer is null (never set up, or set up
  when the allocation failed, which the set-up does not report), and no other.
\<close>

theorem pmd_session_sound:
  assumes "queues_ok (rings s) (privs s (data_dev_private D dev))" and "rings s NULL = None"
    and "session (app_may (data_dev_private D dev))
      (app_step (my_pmd_eth_dev_ops D) dev (data_dev_private D dev)) s es t"
  shows "queues_ok (rings t) (privs t (data_dev_private D dev)) \<and>
    link_up (privs t (data_dev_private D dev)) = link_after (link_up (privs s (data_dev_private D dev))) es \<and>
    (app_may (data_dev_private D dev) e t \<longrightarrow>
      (app_step (my_pmd_eth_dev_ops D) dev (data_dev_private D dev) e t = None \<longleftrightarrow>
        null_burst (data_dev_private D dev) e t))"
proof -
  have start: "pmd_ok (data_dev_private D dev) (link_up (privs s (data_dev_private D dev))) [] s"
    using assms(1,2) by (simp add: pmd_ok_def)
  have ok: "pmd_ok (data_dev_private D dev) (link_up (privs s (data_dev_private D dev))) es t"
    by (rule pmd_app.session_inv [OF assms(3) start])
  with app_call_outcome [OF ok, of e] show ?thesis by (auto simp: pmd_ok_def split: option.splits)
qed

abbreviation pmd_calls :: "app_call list" where
  "pmd_calls \<equiv> [App_configure, App_tx_setup 1 1024 0, App_start, App_tx_burst 1 [7, 8, 9] 3 (\<lambda>i. i < 2)]"

lemma zero_pmd_ok: "queues_ok h zero_pmd"
  by (simp add: queues_ok_def ring_ok_def zero_pmd_def zero_queue_def)

lemma pmd_calls_run:
  "\<exists>t. session (app_may (data_dev_private (sample_dpdk 4096 4096) 0))
     (app_step (my_pmd_eth_dev_ops (sample_dpdk 4096 4096)) 0 (data_dev_private (sample_dpdk 4096 4096) 0))
     pmd_start pmd_calls t \<and> tx_ring (tx_queues (privs t (data_dev_private (sample_dpdk 4096 4096) 0)) ! 2) = NULL"
  by (simp add: session_iff_run my_pmd_eth_dev_ops_def my_pmd_dev_configure_def my_pmd_start_def
    my_pmd_tx_queue_setup_def set_priv_def sample_dpdk_def my_pmd_tx_burst_def next_desc_def zero_pmd_def
    zero_queue_def)

theorem pmd_session_sound_witness:
  "\<exists>t. session (app_may (data_dev_private (sample_dpdk 4096 4096) 0))
     (app_step (my_pmd_eth_dev_ops (sample_dpdk 4096 4096)) 0 (data_dev_private (sample_dpdk 4096 4096) 0))
     pmd_start pmd_calls t \<and> link_up (privs t (data_dev_private (sample_dpdk 4096 4096) 0)) \<and>
     app_step (my_pmd_eth_dev_ops (sample_dpdk 4096 4096)) 0 (data_dev_private (sample_dpdk 4096 4096) 0)
       (App_tx_burst 2 [7] 1 (\<lambda>i. True)) t = None"
proof -
  obtain t where t: "session (app_may (data_dev_private (sample_dpdk 4096 4096) 0))
     (app_step (my_pmd_eth_dev_ops (sample_dpdk 4096 4096)) 0 (data_dev_private (sample_dpdk 4096 4096) 0))
     pmd_start pmd_calls t"
    and null: "tx_ring (tx_queues (privs t (data_dev_private (sample_dpdk 4096 4096) 0)) ! 2) = NULL"
    using pmd_calls_run by blast
  from pmd_session_sound [OF _ _ t, of "App_tx_burst 2 [7] 1 (\<lambda>i. True)"] t null show ?thesis
    by (auto simp: zero_pmd_ok link_after_def)
qed

text \<open>
  The queue set-up functions do not check their allocation. When it fails they return 0 all the
  same, and the first packet of a burst on that queue, in either direction, is written or read through
  a null pointer.
\<close>

theorem pmd_setup_ignores_allocation_failure:
  assumes "k_u64 D (klog s) (Rte_zmalloc_socket ''tx_ring'' (unat nb) socket) = NULL"
    and "k_u64 D (klog s) (Rte_zmalloc_socket ''rx_ring'' (unat nb) socket) = NULL"
    and "unat qi < 4" and "rings s NULL = None" and "queues_ok (rings s) (privs s (data_dev_private D dev))"
    and "0 < n" and "room 0"
  shows "\<exists>s1 s2. my_pmd_tx_queue_setup D dev qi nb socket s = Some (0, s1) \<and>
    my_pmd_tx_burst room (data_dev_private D dev) (unat qi) pkts n s1 = None \<and>
    my_pmd_rx_queue_setup D dev qi nb socket s = Some (0, s2) \<and>
    my_pmd_rx_burst room (data_dev_private D dev) (unat qi) n s2 = None"
proof -
  have n: "0 < unat n" using assms(6) by (simp add: word_less_nat_alt)
  let ?p = "data_dev_private D dev"
  have len: "length (rx_queues (privs s ?p)) = 4" "length (tx_queues (privs s ?p)) = 4"
    using assms(5) by (simp_all add: queues_ok_def)
  obtain s1 where s1: "my_pmd_tx_queue_setup D dev qi nb socket s = Some (0, s1)" "rings s1 NULL = None"
    "tx_ring (tx_queues (privs s1 ?p) ! unat qi) = NULL"
    using assms(1,3,4) len by (simp add: my_pmd_tx_queue_setup_def set_priv_def Let_def)
  obtain s2 where s2: "my_pmd_rx_queue_setup D dev qi nb socket s = Some (0, s2)" "rings s2 NULL = None"
    "rx_ring (rx_queues (privs s2 ?p) ! unat qi) = NULL"
    using assms(2,3,4) len by (simp add: my_pmd_rx_queue_setup_def set_priv_def Let_def)
  have "my_pmd_tx_burst room ?p (unat qi) pkts n s1 = None"
    using s1 assms(7) n by (simp add: my_pmd_tx_burst_def null_ring_loops)
  moreover have "my_pmd_rx_burst room ?p (unat qi) n s2 = None"
    using s2 assms(7) n by (simp add: my_pmd_rx_burst_def null_ring_loops)
  ultimately show ?thesis using s1(1) s2(1) by blast
qed

theorem pmd_setup_ignores_allocation_failure_witness:
  "\<exists>s1. my_pmd_tx_queue_setup (sample_dpdk 0 4096) 0 1 1024 0 pmd_start = Some (0, s1) \<and>
     my_pmd_tx_burst (\<lambda>i. True) (data_dev_private (sample_dpdk 0 4096) 0) (unat (1 :: u16)) [7, 8] 2 s1 = None"
  using pmd_setup_ignores_allocation_failure
    [of "sample_dpdk 0 4096" pmd_start 1024 0 1 0 2 "\<lambda>i. True" "[7, 8]"]
  by (auto simp: sample_dpdk_def zero_pmd_ok)

end
