(* ===== verification/Pmd_Bus.thy ===== *)
theory Pmd_Bus
  imports Kernel_API Pmd Session
begin

text \<open>
  The PCI bus of the environment abstraction layer as a client of \<open>my_pmd_driver\<close>: it probes and removes
  any number of devices in any order, and a ledger keeps what DPDK has handed out to the driver.

  Shown: a removed device gives back its port and not its mapping. The mapping of every probe,
  failed probes included, stays for ever. A probe that gets no memory for the MAC address is undefined.
\<close>

section \<open>The ledger of DPDK\<close>

datatype dres =
    Bar_map ptr
  | Port int

text \<open>The block for the MAC address becomes part of the port's data and is not accounted for here.\<close>

fun deff :: "dpdk \<Rightarrow> dcall \<times> kres \<Rightarrow> dres effect" where
  "deff D (Rte_pci_map_resource p, RU64 a) = (if a = NULL then Neutral else Acquire (Bar_map p))"
| "deff D (Rte_eth_dev_allocate n p, RU64 e) = (if e = NULL then Neutral else Acquire (Port (data_port_id D e)))"
| "deff D (Rte_eth_dev_release_port i, v) = Release (Port i)"
| "deff D e = Neutral"

abbreviation dheld :: "dpdk \<Rightarrow> pmd_state \<Rightarrow> dres multiset option" where
  "dheld D s \<equiv> ledger (deff D) (klog s)"

text \<open>
  What DPDK provides: a port in use is not allocated again, and ports have private areas of their own.
  Any call may fail.
\<close>

definition ports_fresh :: "dpdk \<Rightarrow> bool" where
  "ports_fresh D \<longleftrightarrow> (\<forall>l M n p. ledger (deff D) l = Some M \<and> k_u64 D l (Rte_eth_dev_allocate n p) \<noteq> NULL \<longrightarrow>
     Port (data_port_id D (k_u64 D l (Rte_eth_dev_allocate n p))) \<notin># M)"

definition private_areas :: "dpdk \<Rightarrow> bool" where
  "private_areas D \<longleftrightarrow> (\<forall>e e'. data_dev_private D e = data_dev_private D e' \<longrightarrow> data_port_id D e = data_port_id D e')"

section \<open>The bus\<close>

datatype bus_call = Bus_probe ptr | Bus_remove ptr

type_synonym bus_state = "ptr set \<times> pmd_state"

fun bus_may :: "bus_call \<Rightarrow> bus_state \<Rightarrow> bool" where
  "bus_may (Bus_probe p) (B, s) \<longleftrightarrow> p \<notin> B"
| "bus_may (Bus_remove p) (B, s) \<longleftrightarrow> p \<in> B"

fun bus_step :: "rte_pci_driver \<Rightarrow> bus_call \<Rightarrow> bus_state \<Rightarrow> bus_state option" where
  "bus_step drv (Bus_probe p) (B, s) = (case pmd_probe drv p s of
     None \<Rightarrow> None
   | Some (r, s') \<Rightarrow> Some (if r = 0 then insert p B else B, s'))"
| "bus_step drv (Bus_remove p) (B, s) = Some (B - {p}, exec (pmd_remove drv p) s)"

text \<open>
  The probe in which the device is mapped and the port allocated, but the block for the MAC address is not:
  \<open>memcpy\<close> then writes through a null pointer.
\<close>

fun null_mac :: "dpdk \<Rightarrow> bus_call \<Rightarrow> pmd_state \<Rightarrow> bool" where
  "null_mac D (Bus_probe p) s \<longleftrightarrow> (
     let mmio = k_u64 D (klog s) (Rte_pci_map_resource p);
         l = klog s @ [(Rte_pci_map_resource p, RU64 mmio)];
         eth_dev = k_u64 D l (Rte_eth_dev_allocate ''my_pmd'' p);
         l' = l @ [(Rte_eth_dev_allocate ''my_pmd'' p, RU64 eth_dev)]
     in mmio \<noteq> NULL \<and> eth_dev \<noteq> NULL \<and> k_u64 D l' (Rte_zmalloc ''mac_addr'' 6) = NULL)"
| "null_mac D (Bus_remove p) s \<longleftrightarrow> False"

section \<open>What is held\<close>

definition port_of :: "pmd_state \<Rightarrow> ptr \<Rightarrow> int" where
  "port_of s p = port_id (privs s (dev_private s p))"

text \<open>The mappings a history has acquired.\<close>

fun kept :: "dcall \<times> kres \<Rightarrow> dres list" where
  "kept (Rte_pci_map_resource p, RU64 a) = (if a = NULL then [] else [Bar_map p])"
| "kept e = []"

definition leaked :: "(dcall \<times> kres) list \<Rightarrow> dres multiset" where
  "leaked es = mset (concat (map kept es))"

lemma leaked_simps [simp]: "leaked [] = {#}" "leaked (es @ fs) = leaked es + leaked fs"
  "leaked (e # es) = mset (kept e) + leaked es"
  by (simp_all add: leaked_def)

definition bus_ok :: "dpdk \<Rightarrow> dres multiset \<Rightarrow> pmd_state \<Rightarrow> bus_state \<Rightarrow> bool" where
  "bus_ok D M s0 x \<longleftrightarrow> (case x of (B, s) \<Rightarrow> finite B \<and> inj_on (port_of s) B \<and>
     (\<forall>p\<in>B. \<exists>e. dev_private s p = data_dev_private D e \<and> port_of s p = data_port_id D e) \<and>
     (\<exists>es. klog s = klog s0 @ es \<and>
       dheld D s = Some (M + image_mset (\<lambda>p. Port (port_of s p)) (mset_set B) + leaked es)))"

lemma probe_cases:
  obtains (no_map) "\<not> null_mac D (Bus_probe p) s" "my_pmd_pci_probe D p s = Some (- ENOMEM, s\<lparr>klog := klog s @ [(Rte_pci_map_resource p, RU64 NULL)]\<rparr>)"
  | (no_port) a where "\<not> null_mac D (Bus_probe p) s" "a \<noteq> NULL" "my_pmd_pci_probe D p s = Some (- ENOMEM, s\<lparr>klog := klog s @
      [(Rte_pci_map_resource p, RU64 a), (Rte_eth_dev_allocate ''my_pmd'' p, RU64 NULL)]\<rparr>)"
  | (no_mac) "null_mac D (Bus_probe p) s" "my_pmd_pci_probe D p s = None"
  | (bound) a e m s' where "\<not> null_mac D (Bus_probe p) s" "a \<noteq> NULL" "e \<noteq> NULL" "m \<noteq> NULL" "my_pmd_pci_probe D p s = Some (0, s')"
      "e = k_u64 D (klog s @ [(Rte_pci_map_resource p, RU64 a)]) (Rte_eth_dev_allocate ''my_pmd'' p)"
      "klog s' = klog s @ [(Rte_pci_map_resource p, RU64 a), (Rte_eth_dev_allocate ''my_pmd'' p, RU64 e),
        (Rte_zmalloc ''mac_addr'' 6, RU64 m)]"
      "dev_private s' = (dev_private s)(p := data_dev_private D e)"
      "\<And>q. q \<noteq> data_dev_private D e \<Longrightarrow> privs s' q = privs s q"
      "port_id (privs s' (data_dev_private D e)) = data_port_id D e"
proof -
  let ?a = "k_u64 D (klog s) (Rte_pci_map_resource p)"
  let ?l = "klog s @ [(Rte_pci_map_resource p, RU64 ?a)]"
  let ?e = "k_u64 D ?l (Rte_eth_dev_allocate ''my_pmd'' p)"
  let ?m = "k_u64 D (?l @ [(Rte_eth_dev_allocate ''my_pmd'' p, RU64 ?e)]) (Rte_zmalloc ''mac_addr'' 6)"
  consider "?a = NULL" | "?a \<noteq> NULL" "?e = NULL" | "?a \<noteq> NULL" "?e \<noteq> NULL" "?m = NULL"
    | "?a \<noteq> NULL" "?e \<noteq> NULL" "?m \<noteq> NULL" by blast
  then show thesis
  proof cases
    case 1
    then show thesis using no_map by (simp add: my_pmd_pci_probe_def)
  next
    case 2
    then show thesis using no_port [of ?a] by (simp add: my_pmd_pci_probe_def)
  next
    case 3
    then show thesis using no_mac by (simp add: my_pmd_pci_probe_def set_priv_def)
  next
    case 4
    then have safe: "\<not> null_mac D (Bus_probe p) s" by simp
    from 4 obtain s' where run: "my_pmd_pci_probe D p s = Some (0, s')" and "klog s' = klog s @ [(Rte_pci_map_resource p, RU64 ?a),
        (Rte_eth_dev_allocate ''my_pmd'' p, RU64 ?e), (Rte_zmalloc ''mac_addr'' 6, RU64 ?m)]"
      "dev_private s' = (dev_private s)(p := data_dev_private D ?e)"
      "\<forall>q. q \<noteq> data_dev_private D ?e \<longrightarrow> privs s' q = privs s q"
      "port_id (privs s' (data_dev_private D ?e)) = data_port_id D ?e"
      by (auto simp: my_pmd_pci_probe_def set_priv_def Let_def)
    then show thesis using bound [OF safe 4 run refl] by blast
  qed
qed

definition dpdk_ok :: "dpdk \<Rightarrow> bool" where
  "dpdk_ok D \<longleftrightarrow> ports_fresh D \<and> private_areas D"

lemma port_of_log [simp]: "port_of (s\<lparr>klog := l\<rparr>) = port_of s"
  by (simp add: port_of_def fun_eq_iff)

lemma bus_okE:
  assumes "bus_ok D M s0 (B, s)"
  obtains es where "finite B" "inj_on (port_of s) B" "klog s = klog s0 @ es"
    "\<forall>p\<in>B. \<exists>e. dev_private s p = data_dev_private D e \<and> port_of s p = data_port_id D e"
    "dheld D s = Some (M + image_mset (\<lambda>p. Port (port_of s p)) (mset_set B) + leaked es)"
  using assms by (auto simp: bus_ok_def)

lemma probe_bound_ok:
  assumes ok: "bus_ok D M s0 (B, s)" and p: "p \<notin> B" and D: "ports_fresh D" "private_areas D"
    and a: "a \<noteq> NULL" "e \<noteq> NULL" "m \<noteq> NULL"
    and e: "e = k_u64 D (klog s @ [(Rte_pci_map_resource p, RU64 a)]) (Rte_eth_dev_allocate ''my_pmd'' p)"
    and s': "klog s' = klog s @ [(Rte_pci_map_resource p, RU64 a), (Rte_eth_dev_allocate ''my_pmd'' p, RU64 e),
        (Rte_zmalloc ''mac_addr'' 6, RU64 m)]" "dev_private s' = (dev_private s)(p := data_dev_private D e)"
      "\<And>q. q \<noteq> data_dev_private D e \<Longrightarrow> privs s' q = privs s q"
      "port_id (privs s' (data_dev_private D e)) = data_port_id D e"
  shows "bus_ok D M s0 (insert p B, s')"
proof -
  obtain es where B: "finite B" "inj_on (port_of s) B" and es: "klog s = klog s0 @ es"
    and dev: "\<forall>q\<in>B. \<exists>e. dev_private s q = data_dev_private D e \<and> port_of s q = data_port_id D e"
    and held: "dheld D s = Some (M + image_mset (\<lambda>p. Port (port_of s p)) (mset_set B) + leaked es)"
    by (rule bus_okE [OF ok])
  have "ledger (deff D) (klog s @ [(Rte_pci_map_resource p, RU64 a)]) =
      Some (add_mset (Bar_map p) (M + image_mset (\<lambda>p. Port (port_of s p)) (mset_set B) + leaked es))"
    using held a by simp
  with D(1) a(2) e have "Port (data_port_id D e) \<notin># M + image_mset (\<lambda>p. Port (port_of s p)) (mset_set B) + leaked es"
    unfolding ports_fresh_def by fastforce
  then have new: "port_of s q \<noteq> data_port_id D e" if "q \<in> B" for q using that B(1) by force
  have other: "dev_private s' q = dev_private s q \<and> port_of s' q = port_of s q" if q: "q \<in> B" for q
  proof -
    have "dev_private s q \<noteq> data_dev_private D e"
      using dev q new [OF q] D(2) unfolding private_areas_def by metis
    then show ?thesis using q p s'(2,3) by (auto simp: port_of_def)
  qed
  have mine: "dev_private s' p = data_dev_private D e" "port_of s' p = data_port_id D e"
    using s'(2,4) by (simp_all add: port_of_def)
  have "inj_on (port_of s') (insert p B)"
  proof -
    have "inj_on (port_of s') B" using B(2) other by (simp add: inj_on_def)
    moreover have "port_of s' p \<notin> port_of s' ` B" using new other mine by fastforce
    ultimately show ?thesis using p by simp
  qed
  moreover have "image_mset (\<lambda>p. Port (port_of s' p)) (mset_set (insert p B)) =
      add_mset (Port (data_port_id D e)) (image_mset (\<lambda>p. Port (port_of s p)) (mset_set B))"
  proof -
    have "mset_set (insert p B) = add_mset p (mset_set B)" by (rule mset_set.insert [OF B(1) p])
    moreover have "image_mset (\<lambda>p. Port (port_of s' p)) (mset_set B) = image_mset (\<lambda>p. Port (port_of s p)) (mset_set B)"
      using other B(1) by (intro image_mset_cong) auto
    ultimately show ?thesis using mine by simp
  qed
  ultimately show ?thesis
    using B(1) dev other mine held a s'(1) es by (auto simp: bus_ok_def ledger_from_append)
qed

lemma remove_ok:
  assumes ok: "bus_ok D M s0 (B, s)" and p: "p \<in> B"
  shows "bus_ok D M s0 (B - {p}, exec (my_pmd_pci_remove p) s)"
proof -
  obtain es where B: "finite B" "inj_on (port_of s) B" and es: "klog s = klog s0 @ es"
    and dev: "\<forall>q\<in>B. \<exists>e. dev_private s q = data_dev_private D e \<and> port_of s q = data_port_id D e"
    and held: "dheld D s = Some (M + image_mset (\<lambda>p. Port (port_of s p)) (mset_set B) + leaked es)"
    by (rule bus_okE [OF ok])
  define s' where "s' = exec (my_pmd_pci_remove p) s"
  have s': "klog s' = klog s @ [(Rte_eth_dev_release_port (port_of s p), RVoid)]" "port_of s' = port_of s"
    "dev_private s' = dev_private s"
    by (simp_all add: s'_def my_pmd_pci_remove_def port_of_def fun_eq_iff)
  have "mset_set B = add_mset p (mset_set (B - {p}))" using mset_set.remove [OF B(1) p] .
  then have "dheld D s' = Some (M + image_mset (\<lambda>p. Port (port_of s' p)) (mset_set (B - {p})) + leaked es)"
    using held s' by simp
  then have "bus_ok D M s0 (B - {p}, s')"
    using B dev es s' by (auto simp: bus_ok_def inj_on_def)
  then show ?thesis by (simp add: s'_def)
qed

lemma bus_call_outcome:
  assumes D: "dpdk_ok D" and ok: "bus_ok D M s0 (B, s)" and may: "bus_may c (B, s)"
  shows "case bus_step (my_pmd_driver D) c (B, s) of
      None \<Rightarrow> null_mac D c s
    | Some y \<Rightarrow> \<not> null_mac D c s \<and> bus_ok D M s0 y"
proof (cases c)
  case (Bus_remove p)
  with may remove_ok [OF ok, of p] show ?thesis by (simp add: my_pmd_driver_def)
next
  case (Bus_probe p)
  with may have p: "p \<notin> B" by simp
  have D': "ports_fresh D" "private_areas D" using D by (simp_all add: dpdk_ok_def)
  have drv: "pmd_probe (my_pmd_driver D) = my_pmd_pci_probe D" by (simp add: my_pmd_driver_def)
  show ?thesis
  proof (cases rule: probe_cases [of D p s])
    case no_map
    with ok show ?thesis by (auto simp: Bus_probe drv bus_ok_def simp del: null_mac.simps)
  next
    case (no_port a)
    with ok show ?thesis by (auto simp: Bus_probe drv bus_ok_def simp del: null_mac.simps)
  next
    case no_mac
    then show ?thesis by (simp add: Bus_probe drv del: null_mac.simps)
  next
    case (bound a e m s')
    with probe_bound_ok [OF ok p D' bound(2-4,6-10)] show ?thesis
      by (simp add: Bus_probe drv del: null_mac.simps)
  qed
qed

interpretation pmd_bus: preserved bus_may "bus_step (my_pmd_driver D)" "\<lambda>es x. dpdk_ok D \<and> bus_ok D M s0 x"
  for D M s0
proof (unfold_locales, goal_cases)
  case (1 es x c y)
  with bus_call_outcome [of D M s0 "fst x" "snd x" c] show ?case by simp
qed

section \<open>Properties\<close>

text \<open>
  C16: any number of devices probed and removed in any order, with any DPDK call failing at any point, a port
  in use never allocated again and each port with a private area of its own: the ports held are exactly
  those of the devices bound, no two of them share one, and beside the ports every mapping ever
  obtained is still held, the ones of removed devices and failed probes included. The next call is
  undefined in exactly one case: a probe whose mapping and port allocation succeed and whose
  \<open>rte_zmalloc\<close> for the MAC address returns null, which the code copies to unchecked.
\<close>

theorem pmd_hotplug_accounting:
  assumes "dpdk_ok D" and "dheld D s = Some M"
    and "session bus_may (bus_step (my_pmd_driver D)) ({}, s) cs (B, t)"
  shows "(\<exists>es. klog t = klog s @ es \<and> dheld D t =
      Some (M + image_mset (\<lambda>p. Port (port_of t p)) (mset_set B) + leaked es)) \<and>
    inj_on (port_of t) B \<and>
    (\<forall>c. bus_may c (B, t) \<longrightarrow> (bus_step (my_pmd_driver D) c (B, t) = None \<longleftrightarrow> null_mac D c t))"
proof -
  have start: "dpdk_ok D \<and> bus_ok D M s ({}, s)" using assms(1,2) by (simp add: bus_ok_def)
  have ok: "bus_ok D M s (B, t)" using pmd_bus.session_inv [OF assms(3) start] by simp
  have "bus_step (my_pmd_driver D) c (B, t) = None \<longleftrightarrow> null_mac D c t" if "bus_may c (B, t)" for c
    using bus_call_outcome [OF assms(1) ok that] by (auto split: option.splits)
  with ok show ?thesis by (auto simp: bus_ok_def)
qed

text \<open>DPDK with one port per \<open>eth_dev\<close>, handing out addresses not yet used, ports included.\<close>

definition fresh_dpdk :: dpdk where
  "fresh_dpdk = \<lparr>k_int = (\<lambda>l c. 0), k_u64 = (\<lambda>l c. case c of
       Rte_eth_dev_allocate n p \<Rightarrow> first_free l 4096 (map (\<lambda>e. value_of (snd e)) l) | _ \<Rightarrow> 64),
     k_out = (\<lambda>l c. 0), data_dev_private = (\<lambda>e. e), data_port_id = uint\<rparr>"

lemma port_acquired: "deff D e = Acquire (Port i) \<Longrightarrow> i = data_port_id D (value_of (snd e))"
  by (induction D e rule: deff.induct) (auto split: if_splits)

lemma fresh_dpdk_ok: "dpdk_ok fresh_dpdk"
proof -
  have "Port (uint a) \<notin># M" if led: "ledger (deff fresh_dpdk) l = Some M" and nz: "a \<noteq> NULL"
    and a: "a = first_free l 4096 (map (\<lambda>e. value_of (snd e)) l)" for l M a
  proof
    assume "Port (uint a) \<in># M"
    from held_was_acquired [OF led this] obtain e where "e \<in> set l" "uint a = data_port_id fresh_dpdk (value_of (snd e))"
      using port_acquired by blast
    moreover from this(2) have "a = value_of (snd e)" by (simp add: fresh_dpdk_def word_uint_eq_iff)
    ultimately have "a \<in> set (map (\<lambda>e. value_of (snd e)) l)" by auto
    with first_free_unused nz show False unfolding a by blast
  qed
  then show ?thesis
    by (auto simp: dpdk_ok_def ports_fresh_def private_areas_def fresh_dpdk_def)
qed

abbreviation plug_unplug :: "bus_call list" where
  "plug_unplug \<equiv> [Bus_probe 1, Bus_probe 2, Bus_remove 1]"

theorem pmd_hotplug_accounting_witness:
  "\<exists>t L. session bus_may (bus_step (my_pmd_driver fresh_dpdk)) ({}, pmd_start) plug_unplug ({2}, t) \<and>
     dheld fresh_dpdk t = Some (add_mset (Port (port_of t 2)) L) \<and> Bar_map 1 \<in># L"
proof -
  have "\<exists>t es. run_session bus_may (bus_step (my_pmd_driver fresh_dpdk)) plug_unplug ({}, pmd_start) = Some ({2}, t) \<and>
      klog t = klog pmd_start @ es \<and> Bar_map 1 \<in># leaked es"
    by (simp add: my_pmd_driver_def my_pmd_pci_probe_def my_pmd_pci_remove_def set_priv_def fresh_dpdk_def Let_def insert_Diff_if)
  then obtain t es where t: "session bus_may (bus_step (my_pmd_driver fresh_dpdk)) ({}, pmd_start) plug_unplug ({2}, t)"
    and es: "klog t = klog pmd_start @ es" "Bar_map 1 \<in># leaked es" unfolding session_iff_run by blast
  have "dheld fresh_dpdk pmd_start = Some {#}" by simp
  from pmd_hotplug_accounting [OF fresh_dpdk_ok this t] es t show ?thesis by auto
qed

end
