(* ===== verification/Multi_Vector.thy ===== *)
theory Multi_Vector
  imports Kernel_API
begin

text \<open>
  The interrupt example \<open>interrupts/driver.c\<close>: a probe function that collects four MSI-X vectors.
  The file is a fragment; the steps it elides (allocation of the private structure,
  requesting the interrupts) are not modelled, so the address of the private structure is an
  argument. The clean-up loops of the source have empty bodies (the calls are comments).

  Shown: which vectors a successful probe has stored, and which error each failure returns.
\<close>

record multi_vector_priv =
  mv_pdev :: ptr
  irq_vecs :: "int list"

record mv_state = "kcall kstate" +
  mv_privs :: "ptr \<Rightarrow> multi_vector_priv"
  mv_drvdata :: "ptr \<Rightarrow> ptr"

definition set_mv :: "ptr \<Rightarrow> (multi_vector_priv \<Rightarrow> multi_vector_priv) \<Rightarrow> (mv_state, unit) state" where
  "set_mv a f = modify (\<lambda>s. s\<lparr>mv_privs := (mv_privs s)(a := f (mv_privs s a))\<rparr>)"

text \<open>The labels \<open>free_vectors\<close> and \<open>cleanup_previous_steps\<close>: a loop without body, then the return.\<close>

primrec free_vectors_loop :: "nat \<Rightarrow> (mv_state, unit) state" where
  "free_vectors_loop 0 = ret ()"
| "free_vectors_loop (Suc n) = free_vectors_loop n"

definition free_vectors :: "nat \<Rightarrow> int \<Rightarrow> (mv_state, int) state" where
  "free_vectors i r = do {
     free_vectors_loop i;
     ret r
   }"

text \<open>The loop over the vectors; \<open>n\<close> of them, from \<open>i\<close> on, are left.\<close>

primrec get_vectors :: "linux \<Rightarrow> ptr \<Rightarrow> ptr \<Rightarrow> nat \<Rightarrow> nat \<Rightarrow> (mv_state, int) state" where
  "get_vectors K pdev priv 0 i = ret 0"
| "get_vectors K pdev priv (Suc n) i = do {
     v \<leftarrow> call_int K (Pci (Pci_irq_vector pdev i));
     set_mv priv (\<lambda>d. d\<lparr>irq_vecs := (irq_vecs d)[i := v]\<rparr>);
     if v < 0 then free_vectors i v
     else get_vectors K pdev priv n (i + 1)
   }"

definition multi_vector_probe :: "linux \<Rightarrow> ptr \<Rightarrow> ptr \<Rightarrow> (mv_state, int) state" where
  "multi_vector_probe K priv pdev = do {
     set_mv priv (\<lambda>d. d\<lparr>mv_pdev := pdev\<rparr>);
     num_vectors \<leftarrow> call_int K (Pci (Pci_msix_vec_count pdev));
     if num_vectors < 4 then ret (- ENODEV)
     else get_vectors K pdev priv 4 0
   }"

text \<open>The removal loop tests each vector and does nothing with it.\<close>

primrec remove_loop :: "multi_vector_priv \<Rightarrow> nat \<Rightarrow> (mv_state, unit) state" where
  "remove_loop d 0 = ret ()"
| "remove_loop d (Suc n) = do {
     (if irq_vecs d ! n > 0 then ret () else ret ());
     remove_loop d n
   }"

definition multi_vector_remove :: "ptr \<Rightarrow> (mv_state, unit) state" where
  "multi_vector_remove pdev = do {
     priv \<leftarrow> gets (\<lambda>s. mv_drvdata s pdev);
     d \<leftarrow> gets (\<lambda>s. mv_privs s priv);
     remove_loop d 4
   }"

text \<open>The table; \<open>MY_DEVICE_VENDOR_ID\<close> and \<open>MY_DEVICE_DEVICE_ID\<close> are not defined in the fragment.\<close>

definition my_device_id_table :: "u16 \<Rightarrow> u16 \<Rightarrow> (u16 \<times> u16) list" where
  "my_device_id_table vendor device = [(vendor, device), (vendor, 0x9999)]"

section \<open>The vector loop\<close>

abbreviation vector_event :: "ptr \<Rightarrow> int list \<Rightarrow> nat \<Rightarrow> kevent" where
  "vector_event pdev vs i \<equiv> (Pci (Pci_irq_vector pdev i), RInt (vs ! i))"

lemma free_vectors_run [simp]: "run_state (free_vectors i r) s = (r, s)"
proof -
  have "run_state (free_vectors_loop i) s = ((), s)" by (induction i) simp_all
  then show ?thesis by (simp add: free_vectors_def)
qed

lemma get_vectors_run:
  assumes "run_state (get_vectors K pdev priv n i) s = (r, s')" and "i + n = length (irq_vecs (mv_privs s priv))"
  shows "\<exists>k\<le>n. let vs = irq_vecs (mv_privs s' priv) in
    length vs = i + n \<and> take i vs = take i (irq_vecs (mv_privs s priv)) \<and>
    (if r = 0 then k = n else k < n \<and> r < 0 \<and> vs ! (i + k) = r) \<and> (\<forall>j<k. 0 \<le> vs ! (i + j)) \<and>
    klog s' = klog s @ map (vector_event pdev vs) [i..<i + (if r = 0 then n else Suc k)]"
  using assms
proof (induction n arbitrary: i s)
  case 0
  then show ?case by (simp add: Let_def)
next
  case (Suc n)
  let ?v = "k_int K (klog s) (Pci (Pci_irq_vector pdev i))"
  let ?vs = "irq_vecs (mv_privs s priv)"
  define s1 where "s1 = s\<lparr>klog := klog s @ [(Pci (Pci_irq_vector pdev i), RInt ?v)],
    mv_privs := (mv_privs s)(priv := (mv_privs s priv)\<lparr>irq_vecs := ?vs[i := ?v]\<rparr>)\<rparr>"
  show ?case
  proof (cases "?v < 0")
    case True
    with Suc.prems(1) have "r = ?v" "s' = s1" by (auto simp: set_mv_def s1_def)
    with True Suc.prems(2) show ?thesis by (intro exI [of _ 0]) (simp add: s1_def Let_def)
  next
    case False
    with Suc.prems(1) have run: "run_state (get_vectors K pdev priv n (Suc i)) s1 = (r, s')"
      by (simp add: set_mv_def s1_def)
    let ?w = "irq_vecs (mv_privs s' priv)"
    obtain k where k: "k \<le> n" "length ?w = Suc i + n" "take (Suc i) ?w = take (Suc i) (?vs[i := ?v])"
      "if r = 0 then k = n else k < n \<and> r < 0 \<and> ?w ! (Suc i + k) = r" "\<forall>j<k. 0 \<le> ?w ! (Suc i + j)"
      "klog s' = klog s1 @ map (vector_event pdev ?w) [Suc i..<Suc i + (if r = 0 then n else Suc k)]"
      using Suc.IH [OF run] Suc.prems(2) by (auto simp: s1_def Let_def)
    have "take (Suc i) ?w ! i = take (Suc i) (?vs[i := ?v]) ! i" unfolding k(3) ..
    then have wi: "?w ! i = ?v" using Suc.prems(2) by simp
    have "take i (take (Suc i) ?w) = take i (take (Suc i) (?vs[i := ?v]))" unfolding k(3) ..
    then have ti: "take i ?w = take i ?vs" by simp
    have "\<forall>j<Suc k. 0 \<le> ?w ! (i + j)" using k(5) wi False by (auto simp: less_Suc_eq_0_disj)
    moreover have "klog s' = klog s @ map (vector_event pdev ?w) [i..<i + (if r = 0 then Suc n else Suc (Suc k))]"
      using k(6) wi by (simp add: s1_def upt_conv_Cons del: upt_Suc)
    ultimately show ?thesis using k(1,2,4) ti by (intro exI [of _ "Suc k"]) (simp add: Let_def del: upt_Suc split: if_splits)
  qed
qed

section \<open>Properties\<close>

text \<open>
  C39: \<open>multi_vector_probe\<close> returns 0 exactly after the kernel has reported at least four vectors and
  answered all four queries with a valid (non-negative) number, which are then what \<open>irq_vecs\<close> holds,
  in order. Otherwise it returns \<open>-ENODEV\<close> without asking for a vector, or the first negative
  answer, and asks for no further one.
\<close>

theorem multi_vector_probe_outcome:
  assumes "run_state (multi_vector_probe K priv pdev) s = (r, s')"
    and "length (irq_vecs (mv_privs s priv)) = 4"
  shows "let c = k_int K (klog s) (Pci (Pci_msix_vec_count pdev)); vs = irq_vecs (mv_privs s' priv) in
    if c < 4 then r = - ENODEV \<and> klog s' = klog s @ [(Pci (Pci_msix_vec_count pdev), RInt c)]
    else \<exists>k\<le>4. (if r = 0 then k = 4 else k < 4 \<and> r < 0 \<and> vs ! k = r) \<and> (\<forall>j<k. 0 \<le> vs ! j) \<and>
      klog s' = klog s @ (Pci (Pci_msix_vec_count pdev), RInt c) #
        map (vector_event pdev vs) [0..<if r = 0 then 4 else Suc k]"
proof -
  let ?c = "k_int K (klog s) (Pci (Pci_msix_vec_count pdev))"
  define s1 where "s1 = s\<lparr>mv_privs := (mv_privs s)(priv := (mv_privs s priv)\<lparr>mv_pdev := pdev\<rparr>),
    klog := klog s @ [(Pci (Pci_msix_vec_count pdev), RInt ?c)]\<rparr>"
  show ?thesis
  proof (cases "?c < 4")
    case True
    with assms(1) show ?thesis by (auto simp: multi_vector_probe_def set_mv_def Let_def)
  next
    case False
    with assms(1) have run: "run_state (get_vectors K pdev priv 4 0) s1 = (r, s')"
      by (simp add: multi_vector_probe_def set_mv_def s1_def del: get_vectors.simps)
    have "0 + 4 = length (irq_vecs (mv_privs s1 priv))" using assms(2) by (simp add: s1_def)
    from get_vectors_run [OF run this] show ?thesis using False by (auto simp: Let_def s1_def simp del: upt_Suc)
  qed
qed

abbreviation mv_start :: mv_state where
  "mv_start \<equiv> \<lparr>klog = [], mv_privs = (\<lambda>a. \<lparr>mv_pdev = NULL, irq_vecs = replicate 4 0\<rparr>), mv_drvdata = (\<lambda>p. NULL)\<rparr>"

abbreviation three_vectors :: linux where
  "three_vectors \<equiv> sample_kernel (\<lambda>c. case c of Pci (Pci_irq_vector p i) \<Rightarrow> if i = 3 then -22 else 40 + int i | _ \<Rightarrow> 8)"

theorem multi_vector_probe_outcome_witness:
  "\<exists>k\<le>4. irq_vecs (mv_privs (exec (multi_vector_probe three_vectors 64 1) mv_start) 64) ! k = -22"
proof -
  let ?s = "exec (multi_vector_probe three_vectors 64 1) mv_start"
  have four: "get_vectors K p a 4 0 = get_vectors K p a (Suc (Suc (Suc (Suc 0)))) 0" for K p a
    by (simp add: eval_nat_numeral)
  have r: "run_state (multi_vector_probe three_vectors 64 1) mv_start = (-22, ?s)"
    unfolding multi_vector_probe_def four by (simp add: set_mv_def)
  have n: "length (irq_vecs (mv_privs mv_start 64)) = 4" by simp
  from multi_vector_probe_outcome [OF r n] show ?thesis by (auto simp: Let_def simp del: upt_Suc)
qed

end
