(* ===== verification/Spec2Isabelle.thy ===== *)
theory Spec2Isabelle
  imports Scull_Threads Sdma_Session Sdma_Threads Pcie Dma_Mmio Uio Nic_Session Nic_Smp Simple_Nic Loopback
    Pmd_Session Pmd_Bus Multi_Vector
begin

text \<open>
  A verification of the driver collection Char-Driver-SCULL: the SCULL character driver and the
  PCI, DMA, UIO, interrupt, network and DPDK drivers that accompany it.

  \<^bold>\<open>How the code is modelled.\<close> A driver function is a program of the state monad (or, where it
  can run into undefined behaviour or may not return, a function into \<open>option\<close>) over a record with one
  field per file-scope variable and one map per kind of object the driver reaches through
  pointers. Code outside the repository is never defined: every call of a kernel or DPDK function
  is recorded in a history with its answer, and the answer is taken from a parameter (\<open>K :: linux\<close>,
  \<open>D :: dpdk\<close>) that may depend on the whole history. What a theorem needs to know of that code is a
  named hypothesis (\<open>kmalloc_fresh\<close>, \<open>netdev_fresh\<close>, \<open>devm_fresh\<close>, \<open>irq_vectors_nonzero\<close>,
  \<open>mmio_readback\<close>, \<open>hw_honest\<close>, \<open>uio_core_requests_irq\<close>, \<open>sdma_kernel_ok\<close>, \<open>netdev_calls_succeed\<close>, \<open>dpdk_ok\<close>), and the witness of
  the theorem exhibits a kernel that satisfies it. No hypothesis says that a call that may fail succeeds, but where a
  theorem is about the case of success: then its text says so, and the
  theorems about the other case are named there. Hypotheses on the state (\<open>scull_ok\<close>, \<open>buffer_ready\<close>, \<open>sdma_ready\<close>,
  \<open>queues_ok\<close>) are in the text of each theorem as well.

  \<^bold>\<open>The resource ledger.\<close> \<open>Prelude\<close> reads a history as acquisitions and releases. The ledger is
  \<open>None\<close> once something is released that is not held and otherwise the multiset of what is held; the
  stack ledger accepts only releases in reverse order. \<open>Kernel_API\<close> has the kernel functions
  the drivers call, grouped by subsystem, and \<open>keff\<close>, their documented pairing (\<open>ioremap\<close> with
  \<open>iounmap\<close>, \<open>request_irq\<close> with \<open>free_irq\<close>, and so on).

  \<^bold>\<open>Contracts\<close>, each a locale whose laws are proved for the drivers by interpretation:
  \<^item> \<open>Pci_Contract\<close>: \<open>core_step\<close> and \<open>core_run\<close> are the PCI core binding and unbinding devices in any
    order; \<open>pci_driver_contract\<close> is what probe and remove owe it. Interpreted for \<open>pcie.c\<close> and
    \<open>simple_uio_driver.c\<close> (one device at a time, their data being file-scope variables) and for
    \<open>dma_kernel_with_peripheral/driver.c\<close> (any number of devices). \<open>pci_module\<close> adds the module's entry
    points and follows it from loading to unloading; interpreted for all five PCI drivers.
  \<^item> \<open>Netdev_Contract\<close>: \<open>netdev_driver\<close>, laws about one device from which the PCI contract for any
    number follows (a sublocale). Interpreted for \<open>nic.c\<close> and \<open>simple_nic.c\<close>.
  \<^item> \<open>Module_Contract\<close>: \<open>module_contract\<close>, repeated loading and unloading, with what holds between the
    uses of the module (\<open>idle\<close>) and while it is loaded (\<open>loaded\<close>). Interpreted for \<open>main.c\<close>,
    \<open>simple_dma_module.c\<close> and \<open>simple_loopback.c\<close>.
  \<^item> \<open>Ring\<close>: ring buffers and \<open>tx_queue\<close>, a transmit queue between the network stack and the completion
    interrupt. Interpreted for the transmit ring of \<open>nic.c\<close>.
  \<^item> \<open>Session\<close>: a client making calls one after the other, as a step relation with traces;
    \<open>preserved\<close>, a driver with an invariant that every call the client is entitled to keeps if it has an
    outcome, and \<open>served\<close>, where every such call has one (a sublocale gives the first from the second).
    \<open>served\<close> is interpreted for the virtual file system on \<open>main.c\<close>, several processes on
    \<open>simple_dma_module.c\<close>, and the network stack and interrupts on \<open>nic.c\<close>; \<open>preserved\<close> for an application on
    \<open>pmd.c\<close> and the bus of DPDK on \<open>pmd.c\<close>, whose theorems say which calls are undefined.
  \<^item> \<open>Preemption\<close>: code with a spin lock as moves between program points, and one processor on which an interrupt
    may arrive between any two of them; a handler that waits for the lock of the code it interrupted waits for ever.
  \<^item> \<open>Smp\<close>: several processors and one spin lock, interleaved at every move. \<open>local_facts\<close>, what a context may
    conclude from the growing history of calls, whatever the others do; \<open>critical_section\<close>, contexts that
    touch what the lock protects only while they hold it: the outcome is that of their sections
    one after the other in the order of entry, the processors never all wait, and an interrupted processor does
    nothing that several processors could not do. Both are interpreted for \<open>nic.c\<close>.
  \<^item> \<open>Threads\<close>: threads on a shared memory without a lock, interleaved at every step; \<open>local_steps\<close>, steps that
    need only the memory they touch, so that threads on disjoint parts do not notice each other
    (interpreted for \<open>scull_open\<close>), and \<open>sharing_threads\<close>, threads that keep a common invariant of memory they
    all write (interpreted for \<open>simple_dma_ioctl\<close>).
  \<^item> \<open>Mmio\<close>: histories in which every register access hits a live mapping.
  \<^item> \<open>User_App\<close>: \<open>dma_service\<close>, what the user program expects of its device. Interpreted for the file
    operations of \<open>simple_dma_module.c\<close>.

  \<^bold>\<open>Components.\<close>
  \<^item> \<open>Scull\<close> (\<open>main.c\<close>, \<open>util.c\<close>, \<open>main.h\<close>, \<open>util.h\<close>): the quantum-set list in an explicit heap.
    \<open>scull_trim\<close> frees exactly the blocks of the list; load, unload, open, read and release.
    Unloading deletes a \<open>cdev\<close> whose \<open>cdev_add\<close> failed. \<open>Scull_Session\<close>: the table \<open>scull_fops\<close>, the type
    invariant \<open>scull_ok\<close> of the four devices through whole sessions, and the data \<open>scull_exit\<close> leaves allocated. \<open>Scull_Threads\<close>:
    \<open>scull_open\<close> and \<open>scull_trim\<close> one memory access at a time, equivalent to the functions; any number of
    processes in them at once, safe where they empty different devices, and the use after free
    where they empty the same one.
  \<^item> \<open>Simple_Dma\<close> (\<open>dma_user/simple_dma_module.c\<close>): the ioctl reverses the buffer; mmap bounds; load
    and unload; the buffer a failed load leaves behind. \<open>Sdma_Session\<close>: any number of processes
    with mappings of the buffer refine \<open>buffer_spec\<close>, one shared byte buffer.
    \<open>Sdma_Threads\<close>: the ioctl one access at a time, equivalent to the function; what every interleaving of several
    calls keeps, and the byte that two of them can lose.
  \<^item> \<open>User_App\<close> (\<open>dma_user/user_app.c\<close>): the program run against the module.
  \<^item> \<open>Pcie\<close> (\<open>pci_mmio/pcie.c\<close>): probe, remove, and the effect of a second device.
  \<^item> \<open>Dma_Device\<close> (\<open>dma_kernel_with_peripheral/driver.c\<close>): probe and remove for many devices, the interrupt
    handler, the simulated transfer from start bit to tasklet. \<open>Dma_Mmio\<close>: the layout of the register
    structure, and that every access to it, the handler's included, finds it mapped.
  \<^item> \<open>Uio\<close> (\<open>uio/simple_uio_driver.c\<close>): probe, remove, the doubly requested interrupt. The MSI-X mode is
    not in the ledger (\<open>pci_disable_msix\<close> may be called where it is off) but followed beside it: the mode a failed
    probe leaves on stays on.
  \<^item> \<open>Nic\<close> (\<open>network/nic.c\<close>): probe and remove, the transmit ring as a FIFO queue, the completion loop,
    the receive poll. \<open>Nic_Session\<close>: the card in use, from probe to remove, with the packets, their
    DMA mappings and the ring in step. \<open>Nic_Locking\<close>: the transmit path and the interrupt handler
    as program points \<open>nic_pc\<close> and moves \<open>nic_move\<close>, one per access to the kernel, the device, the lock or the
    ring, the status being what the register answers and the completions what the hardware reports at
    that moment; and the deadlock on one processor. \<open>Nic_Smp\<close>: transmission and
    completion on any number of processors, and on one that is interrupted, leave the ring as the functions of
    \<open>Nic\<close> run one after the other leave it.
  \<^item> \<open>Simple_Nic\<close> (\<open>network/simple_nic.c\<close>) and \<open>Loopback\<close> (\<open>network/simple_loopback.c\<close>).
  \<^item> \<open>Pmd\<close> (\<open>network/dpdk/pmd.c\<close>): queue set-up, bursts over descriptor rings, round trip, overrun.
    \<open>Pmd_Session\<close>: the operation table and an application that uses it; undefined is exactly a burst on a queue
    without a ring. \<open>Pmd_Bus\<close>: devices probed and removed in any order, the ports that are given back, the
    mappings that are not, and the one probe that is undefined.
  \<^item> \<open>Multi_Vector\<close> (\<open>interrupts/driver.c\<close>): the collection of four interrupt vectors.

  \<^bold>\<open>Loops and bounds.\<close> Loops over a list, a counter or a budget are structural recursions;
  \<open>reverse_loop\<close> has the distance of its indices as measure, and the list loop of \<open>scull_trim\<close>, whose list
  may be cyclic, the number of live heap objects: every round frees one, so a cycle ends in an access to
  a freed node, which is \<open>None\<close>. The completion loop of \<open>nic.c\<close> runs as long as the
  hardware reports packets and is a \<open>partial_function\<close>; the theorem shows that it returns when the
  report is finite. Words have the width of the C types where wrap-around matters (ring indices
  of \<open>pmd.c\<close>, counters, addresses, the conversion of sizes to \<open>int\<close>).

  \<^bold>\<open>Not modelled.\<close> Messages, delays and memory barriers; preemption inside a driver function
  other than \<open>scull_open\<close>, \<open>simple_dma_ioctl\<close> and, in \<open>nic.c\<close>, the one file that takes a lock, the transmit path and the interrupt handler
  (elsewhere a function runs to its end, with the kernel's answers arbitrary, and functions are
  interleaved as wholes); the file \<open>scull.mod.c\<close> (generated), build files, scripts and notes. What the
  sources leave after that is preprocessor definitions, forward declarations and module metadata. The
  hardware that \<open>nic.c\<close> and \<open>pmd.c\<close> leave open is a parameter.
\<close>

end
